(* ===== verification/Prelude.thy ===== *)
theory Prelude
  imports Main "HOL-Library.Word" "HOL-Library.Multiset"
begin

text \<open>
  Shared vocabulary of the development: the result type of code that may throw, the
  machine integer types, and the generic facts on lists, sums and modular arithmetic
  that the component theories rely on.
\<close>

section \<open>Results of code that may throw\<close>

text \<open>
  \<^verbatim>\<open>CCL_THROW\<close>, \<^verbatim>\<open>CCL_THROW_IF_NOT\<close> and \<^verbatim>\<open>CCL_FATAL\<close> leave the normal flow of
  control. A function that contains one of them returns a sum whose left side names the
  failed check, or says that C++ leaves the behaviour undefined there. \<^verbatim>\<open>CCL_ASSERT\<close> is empty in release builds and is not a branch of the
  model.
\<close>

datatype ccl_error = CclThrow string | CclFatal string | CclUndefined string

type_synonym 'a result = "ccl_error + 'a"

type_synonym size_t = "64 word"

named_theorems result_simps \<open>unfolding of the result combinators\<close>

fun rbind :: "'a result \<Rightarrow> ('a \<Rightarrow> 'b result) \<Rightarrow> 'b result" where
  "rbind (Inl e) k = Inl e"
| "rbind (Inr x) k = k x"

definition throw_if_not :: "bool \<Rightarrow> string \<Rightarrow> 'b result \<Rightarrow> 'b result" where
  "throw_if_not c msg k = (if c then k else Inl (CclThrow msg))"

lemma throw_if_not_True [simp]: "throw_if_not True msg k = k"
  by (simp add: throw_if_not_def)

lemma throw_if_not_False [simp]: "throw_if_not False msg k = Inl (CclThrow msg)"
  by (simp add: throw_if_not_def)

lemma throw_if_not_eq_Inr [result_simps]:
  "throw_if_not c msg k = Inr x \<longleftrightarrow> c \<and> k = Inr x"
  by (simp add: throw_if_not_def)

lemma rbind_eq_Inr [result_simps]:
  "rbind r k = Inr y \<longleftrightarrow> (\<exists>x. r = Inr x \<and> k x = Inr y)"
  by (cases r) auto

lemma rbind_eq_InrE:
  assumes "rbind r k = Inr y"
  obtains x where "r = Inr x" and "k x = Inr y"
  using assms by (auto simp: rbind_eq_Inr)

section \<open>Conversions between integer types\<close>

text \<open>An integer converted to \<^verbatim>\<open>int\<close> and to \<^verbatim>\<open>size_t\<close>.\<close>

definition int32 :: "int \<Rightarrow> int" where
  "int32 x = signed_take_bit 31 x"

definition to_size_t :: "int \<Rightarrow> int" where
  "to_size_t x = take_bit 64 x"

lemma int32_id: "- (2 ^ 31) \<le> x \<Longrightarrow> x < 2 ^ 31 \<Longrightarrow> int32 x = x"
  by (simp add: int32_def signed_take_bit_int_eq_self)

lemma to_size_t_id: "0 \<le> x \<Longrightarrow> x < 2 ^ 64 \<Longrightarrow> to_size_t x = x"
  by (simp add: to_size_t_def take_bit_int_eq_self)

end
