(* ===== verification/FlowControl.thy ===== *)
theory FlowControl
  imports Prelude
begin

text \<open>
  Flow control of a schedule: \<^verbatim>\<open>src/src/sched/queue/flow_control.cpp\<close>. A schedule owns a
  pool of credits; an entry takes one when it starts and gives it back when it
  completes. The contract the schedule relies on is the locale \<open>credit_pool\<close>.
\<close>

section \<open>State and operations\<close>

record flow_control =
  max_credits :: size_t
  min_credits :: size_t
  credits :: size_t

definition CCL_MAX_FLOW_CREDITS :: size_t where
  "CCL_MAX_FLOW_CREDITS = 1024"

definition flow_control_init :: flow_control where
  "flow_control_init =
     \<lparr>max_credits = CCL_MAX_FLOW_CREDITS, min_credits = CCL_MAX_FLOW_CREDITS,
      credits = CCL_MAX_FLOW_CREDITS\<rparr>"

definition set_max_credits :: "size_t \<Rightarrow> flow_control \<Rightarrow> flow_control" where
  "set_max_credits value fc =
     fc\<lparr>max_credits := value, min_credits := value, credits := value\<rparr>"

definition take_credit :: "flow_control \<Rightarrow> (bool \<times> flow_control) result" where
  "take_credit fc =
     (if credits fc \<noteq> 0 then
        (let c = credits fc - 1; fc1 = fc\<lparr>credits := c\<rparr>
         in throw_if_not (c \<le> max_credits fc1) ''unexpected credits''
              (Inr (True, fc1\<lparr>min_credits := min (min_credits fc1) c\<rparr>)))
      else Inr (False, fc))"

definition return_credit :: "flow_control \<Rightarrow> flow_control result" where
  "return_credit fc =
     (let c = credits fc + 1; fc1 = fc\<lparr>credits := c\<rparr>
      in throw_if_not (c > 0 \<and> c \<le> max_credits fc1 \<and> c > min_credits fc1)
           ''unexpected credits'' (Inr fc1))"

section \<open>Invariant\<close>

definition fc_inv :: "flow_control \<Rightarrow> bool" where
  "fc_inv fc \<longleftrightarrow> min_credits fc \<le> credits fc \<and> credits fc \<le> max_credits fc"

definition fc_avail :: "flow_control \<Rightarrow> nat" where
  "fc_avail fc = unat (credits fc)"

definition fc_cap :: "flow_control \<Rightarrow> nat" where
  "fc_cap fc = unat (max_credits fc)"

lemma unat_pred: "(x :: 'a::len word) \<noteq> 0 \<Longrightarrow> unat (x - 1) = unat x - 1"
  by (simp add: unat_minus_one)

lemma unat_succ_le: "(x :: 'a::len word) < y \<Longrightarrow> unat (x + 1) = unat x + 1"
proof -
  assume "x < y"
  then have "x \<noteq> - 1"
    by (metis word_not_simps(3))
  then show ?thesis
    by (metis Suc_eq_plus1 unatSuc add.commute add_eq_0_iff)
qed

lemma fc_inv_init [simp]: "fc_inv flow_control_init"
  by (simp add: fc_inv_def flow_control_init_def)

lemma fc_inv_set_max [simp]: "fc_inv (set_max_credits v fc)"
  by (simp add: fc_inv_def set_max_credits_def)

lemma take_credit_some:
  assumes inv: "fc_inv fc" and av: "0 < fc_avail fc"
  shows "\<exists>fc'. take_credit fc = Inr (True, fc') \<and> fc_inv fc' \<and>
           fc_avail fc' = fc_avail fc - 1 \<and> fc_cap fc' = fc_cap fc"
proof -
  from av have nz: "credits fc \<noteq> 0"
    by (auto simp: fc_avail_def)
  have le: "credits fc - 1 \<le> credits fc"
    using nz by (simp add: word_le_nat_alt unat_pred)
  with inv have "credits fc - 1 \<le> max_credits fc"
    by (auto simp: fc_inv_def)
  with nz show ?thesis
    by (auto simp: take_credit_def Let_def fc_inv_def fc_avail_def fc_cap_def unat_pred)
qed

lemma take_credit_none:
  "fc_avail fc = 0 \<Longrightarrow> take_credit fc = Inr (False, fc)"
  by (auto simp: take_credit_def fc_avail_def unat_eq_0)

lemma return_credit_some:
  assumes inv: "fc_inv fc" and av: "fc_avail fc < fc_cap fc"
  shows "\<exists>fc'. return_credit fc = Inr fc' \<and> fc_inv fc' \<and>
           fc_avail fc' = Suc (fc_avail fc) \<and> fc_cap fc' = fc_cap fc"
proof -
  from av have lt: "credits fc < max_credits fc"
    by (simp add: fc_avail_def fc_cap_def word_less_nat_alt)
  from lt have su: "unat (credits fc + 1) = unat (credits fc) + 1"
    by (rule unat_succ_le)
  from su inv lt show ?thesis
    by (auto simp: return_credit_def Let_def throw_if_not_def fc_inv_def fc_avail_def fc_cap_def
        word_less_nat_alt word_le_nat_alt)
qed

lemma return_credit_full:
  assumes "fc_inv fc" and "fc_avail fc = fc_cap fc"
  shows "return_credit fc = Inl (CclThrow ''unexpected credits'')"
proof -
  from assms(2) have eq: "credits fc = max_credits fc"
    by (simp add: fc_avail_def fc_cap_def word_unat_eq_iff)
  have "\<not> (credits fc + 1 > 0 \<and> credits fc + 1 \<le> credits fc)"
    using unatSuc [of "credits fc"]
    by (auto simp: word_le_nat_alt add.commute word_greater_zero_iff)
  with eq show ?thesis
    by (auto simp: return_credit_def Let_def throw_if_not_def)
qed

section \<open>The contract of a credit pool\<close>

text \<open>
  What a schedule relies on: with credit available, taking succeeds and costs one
  credit; with none available it is refused and changes nothing; giving back a credit
  that was taken succeeds.
\<close>

locale credit_pool =
  fixes pinv :: "'p \<Rightarrow> bool"
    and avail :: "'p \<Rightarrow> nat"
    and cap :: "'p \<Rightarrow> nat"
    and take :: "'p \<Rightarrow> (bool \<times> 'p) result"
    and give :: "'p \<Rightarrow> 'p result"
  assumes avail_le_cap: "pinv p \<Longrightarrow> avail p \<le> cap p"
    and take_avail: "pinv p \<Longrightarrow> 0 < avail p \<Longrightarrow>
           \<exists>p'. take p = Inr (True, p') \<and> pinv p' \<and> avail p' = avail p - 1 \<and> cap p' = cap p"
    and take_empty: "avail p = 0 \<Longrightarrow> take p = Inr (False, p)"
    and give_avail: "pinv p \<Longrightarrow> avail p < cap p \<Longrightarrow>
           \<exists>p'. give p = Inr p' \<and> pinv p' \<and> avail p' = Suc (avail p) \<and> cap p' = cap p"
begin

definition balanced :: "'p \<Rightarrow> nat \<Rightarrow> bool" where
  "balanced p k \<longleftrightarrow> pinv p \<and> avail p + k = cap p"

lemma take_never_throws: "pinv p \<Longrightarrow> \<exists>b p'. take p = Inr (b, p')"
  using take_avail [of p] take_empty [of p] by (cases "avail p = 0") auto

lemma take_balanced:
  assumes "balanced p k" and "take p = Inr (b, p')"
  shows "balanced p' (if b then Suc k else k) \<and> cap p' = cap p"
  using assms take_avail [of p] take_empty [of p]
  by (cases "avail p = 0") (auto simp: balanced_def)

lemma take_succeeds:
  assumes "balanced p k" and "k < cap p"
  shows "\<exists>p'. take p = Inr (True, p')"
  using assms take_avail [of p] by (auto simp: balanced_def)

lemma give_balanced:
  assumes "balanced p (Suc k)"
  shows "\<exists>p'. give p = Inr p' \<and> balanced p' k \<and> cap p' = cap p"
  using assms give_avail [of p] by (auto simp: balanced_def)

lemma give_balancedD:
  "balanced p (Suc k) \<Longrightarrow> give p = Inr p' \<Longrightarrow> balanced p' k \<and> cap p' = cap p"
  using give_balanced [of p k] by auto

lemma take_balancedD:
  "balanced p k \<Longrightarrow> take p = Inr (True, p') \<Longrightarrow> balanced p' (Suc k) \<and> cap p' = cap p"
  using take_balanced [of p k True p'] by auto

lemma take_give_balancedD:
  "balanced p k \<Longrightarrow> take p = Inr (True, p1) \<Longrightarrow> give p1 = Inr p' \<Longrightarrow> balanced p' k \<and> cap p' = cap p"
  using take_balancedD [of p k p1] give_balancedD [of p1 k p'] by auto

end

interpretation fc: credit_pool fc_inv fc_avail fc_cap take_credit return_credit
proof unfold_locales
  show "fc_inv p \<Longrightarrow> fc_avail p \<le> fc_cap p" for p
    by (simp add: fc_inv_def fc_avail_def fc_cap_def word_le_nat_alt)
qed (fact take_credit_some take_credit_none return_credit_some)+

end
