(* ===== verification/SchedEntry.thy ===== *)
theory SchedEntry
  imports FlowControl
begin

text \<open>
  A schedule entry and the driver of its life cycle: \<^verbatim>\<open>src/src/sched/entry/entry.cpp\<close> and
  \<^verbatim>\<open>entry.hpp\<close>. The virtual methods \<^verbatim>\<open>start\<close> and \<^verbatim>\<open>update\<close> of the concrete entries are the
  fields of the record \<open>entry_ops\<close>; they read and change the payload of the entry and
  the world \<open>'w\<close> (memory and transport), and report the status they leave behind.
\<close>

section \<open>Status of an entry\<close>

datatype ccl_sched_entry_status =
    not_started | again | started | complete | complete_once | failed | invalid

datatype ccl_sched_entry_exec_mode = exec_regular | exec_once

primrec status_num :: "ccl_sched_entry_status \<Rightarrow> nat" where
  "status_num not_started = 0"
| "status_num again = 1"
| "status_num started = 2"
| "status_num complete = 3"
| "status_num complete_once = 4"
| "status_num failed = 5"
| "status_num invalid = 6"

lemma status_num_inject: "status_num a = status_num b \<Longrightarrow> a = b"
  by (cases a; cases b) simp_all

instantiation ccl_sched_entry_status :: linorder
begin

definition less_eq_ccl_sched_entry_status ::
    "ccl_sched_entry_status \<Rightarrow> ccl_sched_entry_status \<Rightarrow> bool" where
  "a \<le> b \<longleftrightarrow> status_num a \<le> status_num b"

definition less_ccl_sched_entry_status ::
    "ccl_sched_entry_status \<Rightarrow> ccl_sched_entry_status \<Rightarrow> bool" where
  "a < b \<longleftrightarrow> status_num a < status_num b"

instance
  by standard
    (auto simp: less_eq_ccl_sched_entry_status_def less_ccl_sched_entry_status_def
      dest: status_num_inject)

end

lemmas status_order = less_eq_ccl_sched_entry_status_def less_ccl_sched_entry_status_def

section \<open>Entries and their virtual methods\<close>

record 'e sched_entry =
  payload :: 'e
  barrier :: bool
  coll :: bool
  entry_start_idx :: nat
  status :: ccl_sched_entry_status
  exec_mode :: ccl_sched_entry_exec_mode

record ('e, 'w) entry_ops =
  op_start :: "'e \<Rightarrow> 'w \<Rightarrow> (ccl_sched_entry_status \<times> 'e \<times> 'w) result"
  op_update :: "'e \<Rightarrow> 'w \<Rightarrow> (ccl_sched_entry_status \<times> 'e \<times> 'w) result"
  update_time_expired :: "'e \<Rightarrow> 'w \<Rightarrow> bool"

definition new_entry :: "'e \<Rightarrow> bool \<Rightarrow> bool \<Rightarrow> 'e sched_entry" where
  "new_entry p is_barrier is_coll =
     \<lparr>payload = p, barrier = is_barrier, coll = is_coll, entry_start_idx = 0,
      status = not_started, exec_mode = exec_regular\<rparr>"

definition entry_is_completed :: "'e sched_entry \<Rightarrow> bool" where
  "entry_is_completed e \<longleftrightarrow> status e = complete \<or> status e = complete_once"

definition is_strict_order_satisfied :: "'e sched_entry \<Rightarrow> bool" where
  "is_strict_order_satisfied e \<longleftrightarrow> status e \<ge> started"

definition make_barrier :: "'e sched_entry \<Rightarrow> 'e sched_entry" where
  "make_barrier e = e\<lparr>barrier := True\<rparr>"

definition reset_entry :: "nat \<Rightarrow> 'e sched_entry \<Rightarrow> 'e sched_entry" where
  "reset_entry idx e =
     (if status e = complete_once then e
      else e\<lparr>entry_start_idx := idx, status := not_started\<rparr>)"

section \<open>Driving an entry\<close>

text \<open>
  The tail of \<^verbatim>\<open>sched_entry::do_progress\<close>: a completed entry returns its credit, and a
  failed or invalid status throws.
\<close>

definition finish_progress ::
    "'e sched_entry \<Rightarrow> flow_control \<Rightarrow> 'w \<Rightarrow> ('e sched_entry \<times> flow_control \<times> 'w) result" where
  "finish_progress e fc w =
     rbind (if status e = complete
            then rbind (return_credit fc) (\<lambda>fc'.
                   Inr (if exec_mode e = exec_once then e\<lparr>status := complete_once\<rparr> else e, fc'))
            else Inr (e, fc))
       (\<lambda>(e', fc'). throw_if_not (status e' \<noteq> failed \<and> status e' \<noteq> invalid) ''bad status''
          (Inr (e', fc', w)))"

definition entry_do_progress ::
    "('e, 'w) entry_ops \<Rightarrow> 'e sched_entry \<Rightarrow> flow_control \<Rightarrow> 'w \<Rightarrow>
     ('e sched_entry \<times> flow_control \<times> 'w) result" where
  "entry_do_progress ops e fc w =
     (if entry_is_completed e then Inr (e, fc, w)
      else if status e < started then
        throw_if_not (status e = not_started \<or> status e = again) ''bad status''
          (rbind (if status e = not_started then take_credit fc else Inr (True, fc))
            (\<lambda>(took_credits, fc1).
               if \<not> took_credits then Inr (e, fc1, w)
               else rbind (op_start ops (payload e) w) (\<lambda>(st, p, w1).
                      throw_if_not (st \<ge> again) ''bad status''
                        (finish_progress (e\<lparr>status := st, payload := p\<rparr>) fc1 w1))))
      else if status e = started then
        rbind (op_update ops (payload e) w) (\<lambda>(st, p, w1).
          throw_if_not (coll e \<or> \<not> update_time_expired ops (payload e) w) ''update time expired''
            (throw_if_not (st \<ge> started) ''bad status''
              (finish_progress (e\<lparr>status := st, payload := p\<rparr>) fc w1)))
      else finish_progress e fc w)"

section \<open>What one call does\<close>

text \<open>
  The outcomes of one successful call, over the status before and after it. The credit
  moves exactly when an entry becomes active or stops being active.
\<close>

definition entry_active :: "'e sched_entry \<Rightarrow> bool" where
  "entry_active e \<longleftrightarrow> status e = again \<or> status e = started"

definition entry_touched :: "'e sched_entry \<Rightarrow> bool" where
  "entry_touched e \<longleftrightarrow> status e = again \<or> status e = started \<or> status e = complete"

lemma touched_active_or_complete:
  "entry_touched e \<longleftrightarrow> entry_active e \<or> status e = complete"
  by (auto simp: entry_touched_def entry_active_def)

lemma finish_progress_cases:
  assumes fin: "finish_progress e fc w = Inr (e', fc', w')"
    and ge: "status e \<ge> again" and not_once: "status e \<noteq> complete_once"
  shows "w' = w \<and> barrier e' = barrier e \<and>
     ((status e = complete \<and> entry_is_completed e' \<and> return_credit fc = Inr fc') \<or>
      (entry_active e \<and> e' = e \<and> fc' = fc))"
  using assms
  by (cases "status e")
    (auto simp: finish_progress_def result_simps entry_is_completed_def entry_active_def
      status_order split: if_splits)

text \<open>
  No concrete entry sets \<^verbatim>\<open>complete_once\<close> itself: only the driver does, when it completes an
  entry whose execution mode is \<^verbatim>\<open>ccl_sched_entry_exec_once\<close>.
\<close>

definition ops_sane :: "('e, 'w) entry_ops \<Rightarrow> bool" where
  "ops_sane ops \<longleftrightarrow>
     (\<forall>p w st p' w'. op_start ops p w = Inr (st, p', w') \<longrightarrow> st \<noteq> complete_once) \<and>
     (\<forall>p w st p' w'. op_update ops p w = Inr (st, p', w') \<longrightarrow> st \<noteq> complete_once)"

definition entry_step_rel ::
    "'e sched_entry \<Rightarrow> flow_control \<Rightarrow> 'e sched_entry \<Rightarrow> flow_control \<Rightarrow> bool" where
  "entry_step_rel e fc e' fc' \<longleftrightarrow>
     (e' = e \<and> fc' = fc \<and> (entry_is_completed e \<or> status e = not_started \<and> fc_avail fc = 0)) \<or>
     (status e = not_started \<and> 0 < fc_avail fc \<and>
        (\<exists>fc1. take_credit fc = Inr (True, fc1) \<and>
           (entry_active e' \<and> fc' = fc1 \<or> entry_is_completed e' \<and> return_credit fc1 = Inr fc'))) \<or>
     (entry_active e \<and>
        (entry_active e' \<and> fc' = fc \<and> (status e = started \<longrightarrow> status e' = started) \<or>
         entry_is_completed e' \<and> return_credit fc = Inr fc'))"

lemma take_credit_False: "take_credit fc = Inr (False, fc1) \<longleftrightarrow> fc1 = fc \<and> fc_avail fc = 0"
  by (auto simp: take_credit_def fc_avail_def unat_eq_0 Let_def throw_if_not_def split: if_splits)

lemma take_credit_TrueD: "take_credit fc = Inr (True, fc1) \<Longrightarrow> 0 < fc_avail fc"
  by (auto simp: take_credit_def fc_avail_def word_greater_zero_iff unat_gt_0 Let_def
      split: if_splits)

lemma entry_do_progress_started:
  assumes prog: "entry_do_progress ops e fc w = Inr (e', fc', w')" and sane: "ops_sane ops"
    and st: "status e = not_started \<or> status e = again"
  shows "barrier e' = barrier e \<and> entry_step_rel e fc e' fc'"
proof (cases "status e = not_started \<and> fc_avail fc = 0")
  case True
  then have "take_credit fc = Inr (False, fc)"
    by (simp add: take_credit_none)
  with True prog show ?thesis
    by (simp add: entry_do_progress_def entry_is_completed_def status_order entry_step_rel_def)
next
  case False
  from prog st False obtain fc1 stn p w1 where
    tk: "if status e = not_started then take_credit fc = Inr (True, fc1) else fc1 = fc" and
    op: "op_start ops (payload e) w = Inr (stn, p, w1)" and ge: "stn \<ge> again" and
    fin: "finish_progress (e\<lparr>status := stn, payload := p\<rparr>) fc1 w1 = Inr (e', fc', w')"
    by (cases "status e = not_started")
      (auto simp: entry_do_progress_def entry_is_completed_def status_order result_simps
        take_credit_False split: prod.splits if_splits)
  from sane op have "stn \<noteq> complete_once"
    unfolding ops_sane_def by blast
  with finish_progress_cases [OF fin] ge
  have "barrier e' = barrier e \<and>
      (entry_is_completed e' \<and> return_credit fc1 = Inr fc' \<or> entry_active e' \<and> fc' = fc1)"
    by (auto simp: entry_active_def)
  with st tk False show ?thesis
    by (cases "status e = not_started")
      (auto simp: entry_step_rel_def entry_active_def dest: take_credit_TrueD)
qed

lemma entry_do_progress_updated:
  assumes prog: "entry_do_progress ops e fc w = Inr (e', fc', w')" and sane: "ops_sane ops"
    and st: "status e = started"
  shows "barrier e' = barrier e \<and> entry_step_rel e fc e' fc'"
proof -
  from prog st obtain stn p w1 where
    op: "op_update ops (payload e) w = Inr (stn, p, w1)" and ge: "stn \<ge> started" and
    fin: "finish_progress (e\<lparr>status := stn, payload := p\<rparr>) fc w1 = Inr (e', fc', w')"
    by (auto simp: entry_do_progress_def entry_is_completed_def status_order result_simps
        split: prod.splits)
  from sane op have "stn \<noteq> complete_once"
    unfolding ops_sane_def by blast
  with finish_progress_cases [OF fin] ge st show ?thesis
    by (auto simp: entry_step_rel_def entry_active_def status_order)
qed

lemma entry_do_progress_rel:
  assumes prog: "entry_do_progress ops e fc w = Inr (e', fc', w')" and sane: "ops_sane ops"
  shows "barrier e' = barrier e \<and> entry_step_rel e fc e' fc'"
proof (cases "entry_is_completed e")
  case True
  with prog show ?thesis
    by (simp add: entry_do_progress_def entry_step_rel_def)
next
  case False
  consider "status e = not_started \<or> status e = again" | "status e = started"
    | "status e = failed \<or> status e = invalid"
    using False by (cases "status e") (auto simp: entry_is_completed_def)
  then show ?thesis
  proof cases
    case 1
    with assms show ?thesis by (rule entry_do_progress_started)
  next
    case 2
    with assms show ?thesis by (rule entry_do_progress_updated)
  next
    case 3
    with prog False show ?thesis
      by (auto simp: entry_do_progress_def finish_progress_def status_order)
  qed
qed

text \<open>The credit of an entry is accounted for by whether the entry is active.\<close>

lemma entry_step_balanced:
  assumes "entry_step_rel e fc e' fc'" and "fc.balanced fc (k + of_bool (entry_active e))"
  shows "fc.balanced fc' (k + of_bool (entry_active e')) \<and> fc_cap fc' = fc_cap fc"
proof -
  have act: "entry_is_completed x \<Longrightarrow> \<not> entry_active x" for x :: "'a sched_entry"
    by (auto simp: entry_is_completed_def entry_active_def)
  from assms show ?thesis
    unfolding entry_step_rel_def
    by (elim disjE conjE exE)
      (auto simp: act entry_active_def [of e] dest: fc.take_balancedD fc.give_balancedD
        fc.take_give_balancedD)
qed

end
