(* ===== verification/Sched.thy ===== *)
theory Sched
  imports SchedEntry
begin

text \<open>
  A schedule: the list of its entries, the position \<^verbatim>\<open>start_idx\<close> before which every entry is
  complete, and its flow control. Building a schedule (\<^verbatim>\<open>add_entry\<close>, \<^verbatim>\<open>add_barrier\<close>),
  renewing it and the progress loop: \<^verbatim>\<open>src/src/sched/sched.cpp\<close>, \<^verbatim>\<open>sched.hpp\<close>.
\<close>

section \<open>State and operations\<close>

datatype ccl_sched_add_mode = add_front | add_back | add_mode_last_value

record 'e ccl_sched =
  entries :: "'e sched_entry list"
  start_idx :: nat
  flow :: flow_control
  add_mode :: ccl_sched_add_mode
  sched_exec_mode :: ccl_sched_entry_exec_mode

definition empty_sched :: "'e ccl_sched" where
  "empty_sched = \<lparr>entries = [], start_idx = 0, flow = flow_control_init, add_mode = add_back,
                  sched_exec_mode = exec_regular\<rparr>"

definition add_entry :: "'e sched_entry \<Rightarrow> 'e ccl_sched \<Rightarrow> 'e ccl_sched result" where
  "add_entry e s =
     (let e1 = e\<lparr>exec_mode := sched_exec_mode s\<rparr>
      in case add_mode s of
           add_back \<Rightarrow> Inr (s\<lparr>entries := entries s @ [e1]\<rparr>)
         | add_front \<Rightarrow> Inr (s\<lparr>entries := e1 # entries s\<rparr>)
         | add_mode_last_value \<Rightarrow> Inl (CclFatal ''unexpected mode''))"

definition add_barrier :: "'e ccl_sched \<Rightarrow> 'e ccl_sched result" where
  "add_barrier s =
     (if entries s \<noteq> [] then
        (case add_mode s of
           add_back \<Rightarrow>
             Inr (s\<lparr>entries := butlast (entries s) @ [make_barrier (last (entries s))]\<rparr>)
         | add_front \<Rightarrow> Inr (s\<lparr>entries := make_barrier (hd (entries s)) # tl (entries s)\<rparr>)
         | add_mode_last_value \<Rightarrow> Inl (CclFatal ''unexpected add_mode''))
      else Inr s)"

text \<open>
  \<^verbatim>\<open>ccl_sched::renew\<close>. The request of the schedule, which \<^verbatim>\<open>reset_state\<close> re-arms, is modelled
  with the other request counters in the theory \<open>Request\<close>.
\<close>

definition renew :: "'e ccl_sched \<Rightarrow> 'e ccl_sched" where
  "renew s = s\<lparr>start_idx := 0,
               entries := map (\<lambda>(idx, e). reset_entry idx e) (enumerate 0 (entries s))\<rparr>"

definition sched_is_strict_order_satisfied :: "'e ccl_sched \<Rightarrow> bool" where
  "sched_is_strict_order_satisfied s = list_all is_strict_order_satisfied (entries s)"

definition entries_count :: "'e ccl_sched \<Rightarrow> nat" where
  "entries_count s = length (entries s)"

text \<open>
  \<^verbatim>\<open>ccl_sched::do_progress\<close>. The body of the loop for the entry at position \<open>i\<close> comes first;
  its flag says whether the loop goes on to the next entry or breaks.
\<close>

definition progress_at ::
    "('e, 'w) entry_ops \<Rightarrow> nat \<Rightarrow> 'e ccl_sched \<Rightarrow> 'w \<Rightarrow> (bool \<times> 'e ccl_sched \<times> 'w) result" where
  "progress_at ops i s w =
     rbind (entry_do_progress ops (entries s ! i) (flow s) w) (\<lambda>(e, fc, w1).
       let s1 = s\<lparr>entries := (entries s)[i := e], flow := fc\<rparr>
       in if status e = again then Inr (False, s1, w1)
          else if i = start_idx s1 \<and> entry_is_completed e then
            Inr (True, s1\<lparr>start_idx := Suc (start_idx s1)\<rparr>, w1)
          else if barrier e \<and> (\<not> entry_is_completed e \<or> start_idx s1 \<noteq> i + 1) then
            Inr (False, s1, w1)
          else Inr (True, s1, w1))"

lemma progress_at_length:
  "progress_at ops i s w = Inr (go, s1, w1) \<Longrightarrow> length (entries s1) = length (entries s)"
  by (auto simp: progress_at_def result_simps Let_def split: if_splits)

function progress_from ::
    "('e, 'w) entry_ops \<Rightarrow> nat \<Rightarrow> 'e ccl_sched \<Rightarrow> 'w \<Rightarrow> ('e ccl_sched \<times> 'w) result" where
  "progress_from ops i s w =
     (if i < length (entries s) then
        (case progress_at ops i s w of
           Inl err \<Rightarrow> Inl err
         | Inr (go, s1, w1) \<Rightarrow> if go then progress_from ops (Suc i) s1 w1 else Inr (s1, w1))
      else Inr (s, w))"
  by pat_completeness auto
termination
  by (relation "measure (\<lambda>(ops, i, s, w). length (entries s) - i)")
    (auto dest!: progress_at_length)

declare progress_from.simps [simp del]

definition sched_do_progress ::
    "('e, 'w) entry_ops \<Rightarrow> 'e ccl_sched \<Rightarrow> 'w \<Rightarrow> ('e ccl_sched \<times> 'w) result" where
  "sched_do_progress ops s w = progress_from ops (start_idx s) s w"

definition sched_finished :: "'e ccl_sched \<Rightarrow> bool" where
  "sched_finished s \<longleftrightarrow> start_idx s = length (entries s)"

section \<open>Invariant\<close>

definition active_count :: "'e sched_entry list \<Rightarrow> nat" where
  "active_count es = length (filter entry_active es)"

definition sched_inv :: "'e ccl_sched \<Rightarrow> bool" where
  "sched_inv s \<longleftrightarrow>
     start_idx s \<le> length (entries s) \<and>
     (\<forall>i < start_idx s. entry_is_completed (entries s ! i)) \<and>
     (\<forall>b j. b < j \<and> j < length (entries s) \<and> barrier (entries s ! b) \<and> entry_touched (entries s ! j)
        \<longrightarrow> (\<forall>k \<le> b. entry_is_completed (entries s ! k))) \<and>
     fc.balanced (flow s) (active_count (entries s))"

text \<open>
  The invariant of the loop at position \<open>i\<close>: no barrier lies between \<^verbatim>\<open>start_idx\<close> and \<open>i\<close>.
\<close>

definition loop_inv :: "nat \<Rightarrow> 'e ccl_sched \<Rightarrow> bool" where
  "loop_inv i s \<longleftrightarrow> start_idx s \<le> i \<and> (\<forall>b. start_idx s \<le> b \<and> b < i \<longrightarrow> \<not> barrier (entries s ! b))"

lemma active_count_update:
  assumes "i < length es"
  shows "active_count (es[i := e]) + of_bool (entry_active (es ! i)) =
         active_count es + of_bool (entry_active e)"
proof -
  from assms obtain xs y ys where es: "es = xs @ y # ys" and "length xs = i"
    by (metis id_take_nth_drop length_take min.absorb2 less_imp_le_nat)
  then show ?thesis
    by (auto simp: active_count_def list_update_append nth_append)
qed

lemma active_count_pos: "i < length es \<Longrightarrow> entry_active (es ! i) \<Longrightarrow> 0 < active_count es"
  by (auto simp: active_count_def filter_empty_conv)

section \<open>The loop keeps the invariant\<close>

lemma progress_at_cases:
  assumes "progress_at ops i s w = Inr (go, s1, w1)" and "ops_sane ops"
  shows "\<exists>e. entry_step_rel (entries s ! i) (flow s) e (flow s1) \<and> barrier e = barrier (entries s ! i) \<and>
     entries s1 = (entries s)[i := e] \<and>
     (i = start_idx s \<and> entry_is_completed e \<and> start_idx s1 = Suc i \<and> go \<or>
      start_idx s1 = start_idx s \<and> (go \<longrightarrow> (barrier e \<longrightarrow> start_idx s = Suc i) \<and> status e \<noteq> again))"
proof -
  from assms(1) obtain e fc w2 where
    ed: "entry_do_progress ops (entries s ! i) (flow s) w = Inr (e, fc, w2)"
    by (auto simp: progress_at_def result_simps)
  from entry_do_progress_rel [OF ed assms(2)] assms(1) ed show ?thesis
    by (auto simp: progress_at_def Let_def entry_is_completed_def split: if_splits)
qed

lemma entry_step_completed: "entry_step_rel e fc e' fc' \<Longrightarrow> entry_is_completed e \<Longrightarrow> e' = e \<and> fc' = fc"
  by (auto simp: entry_step_rel_def entry_is_completed_def entry_active_def)

lemma entry_step_touched:
  "entry_step_rel e fc e' fc' \<Longrightarrow> entry_touched e' \<Longrightarrow> entry_touched e \<or> status e = not_started"
  by (auto simp: entry_step_rel_def entry_touched_def entry_active_def entry_is_completed_def)

lemma progress_at_barriers:
  assumes inv: "sched_inv s" and loop: "loop_inv i s" and i: "i < length (entries s)"
    and rel: "entry_step_rel (entries s ! i) (flow s) e fc" "barrier e = barrier (entries s ! i)"
    and b: "b < j" "j < length (entries s)" "barrier ((entries s)[i := e] ! b)"
    and t: "entry_touched ((entries s)[i := e] ! j)" and k: "k \<le> b"
  shows "entry_is_completed ((entries s)[i := e] ! k)"
proof -
  have bar: "barrier (entries s ! b)"
    using b rel(2) i by (cases "b = i") auto
  have "entry_is_completed (entries s ! k)"
  proof (cases "entry_touched (entries s ! j)")
    case True
    with inv b bar k show ?thesis unfolding sched_inv_def by blast
  next
    case False
    with t have j: "j = i" by (cases "j = i") auto
    with loop b bar have "b < start_idx s" by (auto simp: loop_inv_def not_less)
    with inv k show ?thesis by (auto simp: sched_inv_def)
  qed
  with rel(1) i show ?thesis
    by (cases "k = i") (auto dest: entry_step_completed)
qed

lemma progress_at_inv:
  assumes inv: "sched_inv s" and loop: "loop_inv i s" and i: "i < length (entries s)"
    and at: "progress_at ops i s w = Inr (go, s1, w1)" and sane: "ops_sane ops"
  shows "sched_inv s1 \<and> (go \<longrightarrow> loop_inv (Suc i) s1) \<and> fc_cap (flow s1) = fc_cap (flow s)"
proof -
  from progress_at_cases [OF at sane] obtain e where
    rel: "entry_step_rel (entries s ! i) (flow s) e (flow s1)" "barrier e = barrier (entries s ! i)"
    and es: "entries s1 = (entries s)[i := e]"
    and idx: "i = start_idx s \<and> entry_is_completed e \<and> start_idx s1 = Suc i \<and> go \<or>
        start_idx s1 = start_idx s \<and> (go \<longrightarrow> (barrier e \<longrightarrow> start_idx s = Suc i) \<and> status e \<noteq> again)"
    by blast
  have bal: "fc.balanced (flow s) (active_count (entries s) - of_bool (entry_active (entries s ! i)) +
      of_bool (entry_active (entries s ! i)))"
    using inv active_count_pos [OF i] by (auto simp: sched_inv_def)
  have "active_count (entries s) - of_bool (entry_active (entries s ! i)) + of_bool (entry_active e) =
      active_count (entries s1)"
    using active_count_update [OF i, of e] active_count_pos [OF i] by (auto simp: es)
  with entry_step_balanced [OF rel(1) bal]
  have credit: "fc.balanced (flow s1) (active_count (entries s1))" "fc_cap (flow s1) = fc_cap (flow s)"
    by auto
  have done_: "entry_is_completed (entries s1 ! k)" if "k < start_idx s1" for k
    using that idx inv i rel(1) unfolding es sched_inv_def
    by (cases "k = i") (auto simp: less_Suc_eq dest: entry_step_completed)
  have bars: "entry_is_completed (entries s1 ! k)"
    if "b < j" "j < length (entries s1)" "barrier (entries s1 ! b)" "entry_touched (entries s1 ! j)"
      "k \<le> b" for b j k
    using progress_at_barriers [OF inv loop i rel] that unfolding es by auto
  have "start_idx s1 \<le> length (entries s1)"
    using idx inv i by (auto simp: es sched_inv_def)
  with done_ bars credit(1) have "sched_inv s1"
    unfolding sched_inv_def by blast
  moreover have "go \<longrightarrow> loop_inv (Suc i) s1"
    using idx loop rel(2) i by (auto simp: loop_inv_def es less_Suc_eq nth_list_update)
  ultimately show ?thesis using credit(2) by blast
qed

lemma progress_from_inv:
  "sched_inv s \<Longrightarrow> loop_inv i s \<Longrightarrow> ops_sane ops \<Longrightarrow> progress_from ops i s w = Inr (s', w') \<Longrightarrow>
   sched_inv s' \<and> fc_cap (flow s') = fc_cap (flow s) \<and> length (entries s') = length (entries s)"
proof (induction ops i s w rule: progress_from.induct)
  case (1 ops i s w)
  show ?case
  proof (cases "i < length (entries s)")
    case False
    with 1 show ?thesis by (simp add: progress_from.simps)
  next
    case True
    with "1.prems"(4) obtain go s1 w1 where at: "progress_at ops i s w = Inr (go, s1, w1)"
      and rest: "if go then progress_from ops (Suc i) s1 w1 = Inr (s', w') else s' = s1"
      by (subst (asm) progress_from.simps) (auto split: sum.splits prod.splits if_splits)
    from progress_at_inv [OF "1.prems"(1,2) True at "1.prems"(3)]
    have s1: "sched_inv s1" "go \<Longrightarrow> loop_inv (Suc i) s1" "fc_cap (flow s1) = fc_cap (flow s)"
      by auto
    from "1.IH" [OF True at] s1 rest "1.prems"(3) progress_at_length [OF at] show ?thesis
      by (cases go) auto
  qed
qed

lemma sched_do_progress_inv:
  assumes "sched_inv s" and "ops_sane ops" and "sched_do_progress ops s w = Inr (s', w')"
  shows "sched_inv s' \<and> fc_cap (flow s') = fc_cap (flow s) \<and> length (entries s') = length (entries s)"
proof -
  have "loop_inv (start_idx s) s" by (auto simp: loop_inv_def)
  with assms show ?thesis
    unfolding sched_do_progress_def by (blast dest: progress_from_inv)
qed

section \<open>Schedules in use\<close>

text \<open>
  The states a schedule goes through: it is renewed, progressed any number of times in
  whatever worlds, and, once it is finished, renewed again (a cached schedule is reused).
\<close>

inductive sched_reach :: "('e, 'w) entry_ops \<Rightarrow> 'e ccl_sched \<Rightarrow> 'e ccl_sched \<Rightarrow> bool"
  for ops s0 where
  init: "sched_reach ops s0 (renew s0)"
| progress: "sched_reach ops s0 s \<Longrightarrow> sched_do_progress ops s w = Inr (s', w') \<Longrightarrow>
    sched_reach ops s0 s'"
| restart: "sched_reach ops s0 s \<Longrightarrow> sched_finished s \<Longrightarrow> sched_reach ops s0 (renew s)"

lemma renew_nth: "i < length (entries s) \<Longrightarrow> entries (renew s) ! i = reset_entry i (entries s ! i)"
  by (simp add: renew_def nth_enumerate_eq)

lemma renew_simps [simp]:
  "length (entries (renew s)) = length (entries s)" "start_idx (renew s) = 0" "flow (renew s) = flow s"
  by (simp_all add: renew_def)

lemma reset_entry_idle: "\<not> entry_active (reset_entry i e) \<and> \<not> entry_touched (reset_entry i e)"
  by (auto simp: reset_entry_def entry_active_def entry_touched_def)

lemma renew_idle:
  assumes "i < length (entries s)"
  shows "\<not> entry_active (entries (renew s) ! i)" and "\<not> entry_touched (entries (renew s) ! i)"
  using assms reset_entry_idle by (auto simp: renew_nth)

lemma active_count_zero:
  "(\<And>i. i < length es \<Longrightarrow> \<not> entry_active (es ! i)) \<Longrightarrow> active_count es = 0"
  by (auto simp: active_count_def filter_empty_conv in_set_conv_nth)

lemma renew_active_count [simp]: "active_count (entries (renew s)) = 0"
  by (rule active_count_zero) (simp add: renew_idle)

lemma sched_inv_renew: "fc.balanced (flow s) 0 \<Longrightarrow> sched_inv (renew s)"
  using renew_idle [of _ s] by (auto simp: sched_inv_def)

lemma finished_idle:
  assumes "sched_inv s" and "sched_finished s"
  shows "active_count (entries s) = 0"
  using assms
  by (intro active_count_zero)
    (auto simp: sched_inv_def sched_finished_def entry_is_completed_def entry_active_def)

lemma sched_reach_inv:
  assumes "sched_reach ops s0 s" and "ops_sane ops" and "fc.balanced (flow s0) 0"
  shows "sched_inv s \<and> fc_cap (flow s) = fc_cap (flow s0) \<and> length (entries s) = length (entries s0)"
  using assms
proof (induction rule: sched_reach.induct)
  case init
  then show ?case by (simp add: sched_inv_renew)
next
  case (progress s w s' w')
  then show ?case using sched_do_progress_inv [of s ops w s' w'] by auto
next
  case (restart s)
  then have "fc.balanced (flow s) 0"
    using finished_idle [of s] by (auto simp: sched_inv_def)
  with restart show ?case by (simp add: sched_inv_renew)
qed

subsection \<open>Entries start in order\<close>

text \<open>
  With a credit for every entry no entry is skipped for lack of credit, and an entry is
  touched only after all the entries before it have been started.
\<close>

definition order_inv :: "'e ccl_sched \<Rightarrow> bool" where
  "order_inv s \<longleftrightarrow>
     (\<forall>i j. i < j \<and> j < length (entries s) \<and> entry_touched (entries s ! j) \<longrightarrow>
        is_strict_order_satisfied (entries s ! i))"

definition started_before :: "nat \<Rightarrow> 'e ccl_sched \<Rightarrow> bool" where
  "started_before i s \<longleftrightarrow> (\<forall>k < i. is_strict_order_satisfied (entries s ! k))"

lemma completed_strict: "entry_is_completed e \<Longrightarrow> is_strict_order_satisfied e"
  by (auto simp: entry_is_completed_def is_strict_order_satisfied_def status_order)

lemma entry_step_strict:
  "entry_step_rel e fc e' fc' \<Longrightarrow> is_strict_order_satisfied e \<Longrightarrow> is_strict_order_satisfied e'"
  by (auto simp: entry_step_rel_def is_strict_order_satisfied_def entry_active_def
      entry_is_completed_def status_order)

lemma entry_step_started:
  "entry_step_rel e fc e' fc' \<Longrightarrow> 0 < fc_avail fc \<or> status e \<noteq> not_started \<Longrightarrow> status e' \<noteq> again \<Longrightarrow>
   is_strict_order_satisfied e'"
  by (auto simp: entry_step_rel_def is_strict_order_satisfied_def entry_active_def
      entry_is_completed_def status_order)

lemma credit_for_idle:
  assumes "sched_inv s" and "i < length (entries s)" and "\<not> entry_active (entries s ! i)"
    and "length (entries s) \<le> fc_cap (flow s)"
  shows "0 < fc_avail (flow s)"
proof -
  have "active_count (entries s) < length (entries s)"
    unfolding active_count_def using assms(2,3) by (auto intro!: length_filter_less)
  with assms(1,4) show ?thesis
    by (auto simp: sched_inv_def fc.balanced_def)
qed

lemma progress_at_order:
  assumes inv: "sched_inv s" and ord: "order_inv s" and st: "started_before i s"
    and i: "i < length (entries s)" and cap: "length (entries s) \<le> fc_cap (flow s)"
    and at: "progress_at ops i s w = Inr (go, s1, w1)" and sane: "ops_sane ops"
  shows "order_inv s1 \<and> (go \<longrightarrow> started_before (Suc i) s1)"
proof -
  from progress_at_cases [OF at sane] obtain e where
    rel: "entry_step_rel (entries s ! i) (flow s) e (flow s1)"
    and es: "entries s1 = (entries s)[i := e]" and go: "go \<longrightarrow> status e \<noteq> again"
    by (auto simp: entry_is_completed_def)
  have keep: "is_strict_order_satisfied (entries s1 ! k)"
    if "is_strict_order_satisfied (entries s ! k)" for k
    using that entry_step_strict [OF rel] i by (cases "k = i") (auto simp: es)
  have "order_inv s1"
    unfolding order_inv_def
  proof (intro allI impI; elim conjE)
    fix k j
    assume kj: "k < j" "j < length (entries s1)" "entry_touched (entries s1 ! j)"
    show "is_strict_order_satisfied (entries s1 ! k)"
      using kj ord st keep by (cases "j = i") (auto simp: es order_inv_def started_before_def)
  qed
  moreover have "is_strict_order_satisfied e" if go
  proof (rule entry_step_started [OF rel])
    show "0 < fc_avail (flow s) \<or> status (entries s ! i) \<noteq> not_started"
      using credit_for_idle [OF inv i] cap by (auto simp: entry_active_def)
  qed (use go that in simp)
  ultimately show ?thesis
    using st keep i by (auto simp: started_before_def es less_Suc_eq)
qed

lemma progress_from_order:
  "sched_inv s \<Longrightarrow> loop_inv i s \<Longrightarrow> order_inv s \<Longrightarrow> started_before i s \<Longrightarrow>
   length (entries s) \<le> fc_cap (flow s) \<Longrightarrow> ops_sane ops \<Longrightarrow>
   progress_from ops i s w = Inr (s', w') \<Longrightarrow> order_inv s'"
proof (induction ops i s w rule: progress_from.induct)
  case (1 ops i s w)
  show ?case
  proof (cases "i < length (entries s)")
    case False
    with 1 show ?thesis by (simp add: progress_from.simps)
  next
    case True
    with "1.prems"(7) obtain go s1 w1 where at: "progress_at ops i s w = Inr (go, s1, w1)"
      and rest: "if go then progress_from ops (Suc i) s1 w1 = Inr (s', w') else s' = s1"
      by (subst (asm) progress_from.simps) (auto split: sum.splits prod.splits if_splits)
    from progress_at_inv [OF "1.prems"(1,2) True at "1.prems"(6)]
      progress_at_order [OF "1.prems"(1,3,4) True "1.prems"(5) at "1.prems"(6)]
      "1.IH" [OF True at] rest "1.prems"(5,6) progress_at_length [OF at]
    show ?thesis by (cases go) auto
  qed
qed

lemma sched_reach_order:
  assumes "sched_reach ops s0 s" and "ops_sane ops" and "fc.balanced (flow s0) 0"
    and "length (entries s0) \<le> fc_cap (flow s0)"
  shows "order_inv s"
  using assms
proof (induction rule: sched_reach.induct)
  case init
  then show ?case using renew_idle [of _ s0] by (auto simp: order_inv_def)
next
  case (progress s w s' w')
  then have inv: "sched_inv s" "length (entries s) \<le> fc_cap (flow s)"
    using sched_reach_inv [of ops s0 s] by auto
  then have "started_before (start_idx s) s" "loop_inv (start_idx s) s"
    by (auto simp: started_before_def sched_inv_def loop_inv_def completed_strict)
  with inv progress show ?case
    unfolding sched_do_progress_def by (blast intro: progress_from_order)
next
  case (restart s)
  then show ?case using renew_idle [of _ s] by (auto simp: order_inv_def)
qed

end
