(* ===== verification/SchedProgress.thy ===== *)
theory SchedProgress
  imports Sched
begin

text \<open>
  Progress of a schedule: the loop of \<^verbatim>\<open>ccl_sched::do_progress\<close> never throws by itself, and a
  schedule whose entries respond is finished after a bounded number of calls, whatever
  the number of flow credits.
\<close>

section \<open>The loop does not throw\<close>

text \<open>Virtual methods that neither throw, nor fail, nor time out.\<close>

definition ops_total :: "('e, 'w) entry_ops \<Rightarrow> bool" where
  "ops_total ops \<longleftrightarrow>
     (\<forall>p w. \<exists>st p' w'. op_start ops p w = Inr (st, p', w') \<and> (st = again \<or> st = started \<or> st = complete)) \<and>
     (\<forall>p w. \<exists>st p' w'. op_update ops p w = Inr (st, p', w') \<and> (st = started \<or> st = complete)) \<and>
     (\<forall>p w. \<not> update_time_expired ops p w)"

definition statuses_ok :: "'e ccl_sched \<Rightarrow> bool" where
  "statuses_ok s \<longleftrightarrow> (\<forall>e \<in> set (entries s). status e \<noteq> failed \<and> status e \<noteq> invalid)"

lemma ops_total_startD:
  "ops_total ops \<Longrightarrow> op_start ops p w = Inr (st, p', w') \<Longrightarrow> st = again \<or> st = started \<or> st = complete"
  unfolding ops_total_def by (elim conjE allE [of _ p] allE [of _ w] exE) auto

lemma ops_total_updateD:
  "ops_total ops \<Longrightarrow> op_update ops p w = Inr (st, p', w') \<Longrightarrow> st = started \<or> st = complete"
  unfolding ops_total_def by (elim conjE allE [of _ p] allE [of _ w] exE) auto

lemma ops_total_sane: "ops_total ops \<Longrightarrow> ops_sane ops"
  unfolding ops_sane_def by (auto dest: ops_total_startD ops_total_updateD)

lemma finish_progress_ok:
  assumes "status e = again \<or> status e = started \<or> status e = complete"
    and "fc.balanced fc (Suc k)"
  shows "\<exists>e' fc'. finish_progress e fc w = Inr (e', fc', w) \<and> status e' \<noteq> failed \<and> status e' \<noteq> invalid"
  using assms fc.give_balanced [of fc k]
  by (auto simp: finish_progress_def)

lemma entry_do_progress_ok:
  assumes tot: "ops_total ops" and st: "status e \<noteq> failed" "status e \<noteq> invalid"
    and bal: "fc.balanced fc (k + of_bool (entry_active e))"
  shows "\<exists>e' fc' w'. entry_do_progress ops e fc w = Inr (e', fc', w') \<and>
           status e' \<noteq> failed \<and> status e' \<noteq> invalid"
proof -
  obtain st1 p1 w1 where start: "op_start ops (payload e) w = Inr (st1, p1, w1)"
    "st1 = again \<or> st1 = started \<or> st1 = complete"
    using tot unfolding ops_total_def by blast
  obtain st2 p2 w2 where update: "op_update ops (payload e) w = Inr (st2, p2, w2)"
    "st2 = started \<or> st2 = complete"
    using tot unfolding ops_total_def by blast
  have exp: "\<not> update_time_expired ops (payload e) w"
    using tot unfolding ops_total_def by blast
  show ?thesis
  proof (cases "status e")
    case not_started
    show ?thesis
    proof (cases "fc_avail fc = 0")
      case True
      with not_started show ?thesis
        by (simp add: entry_do_progress_def entry_is_completed_def status_order take_credit_none)
    next
      case False
      from bal not_started have k: "fc.balanced fc k"
        by (simp add: entry_active_def)
      then have "fc_inv fc" by (simp add: fc.balanced_def)
      with False obtain fc1 where fc1: "take_credit fc = Inr (True, fc1)"
        using fc.take_avail [of fc] by blast
      with fc.take_balancedD [OF k] have "fc.balanced fc1 (Suc k)" by blast
      with finish_progress_ok [of "e\<lparr>status := st1, payload := p1\<rparr>" fc1 k w1] start not_started fc1
      show ?thesis
        by (auto simp: entry_do_progress_def entry_is_completed_def status_order)
    qed
  next
    case again
    with finish_progress_ok [of "e\<lparr>status := st1, payload := p1\<rparr>" fc k w1] start bal show ?thesis
      by (auto simp: entry_do_progress_def entry_is_completed_def status_order entry_active_def)
  next
    case started
    with finish_progress_ok [of "e\<lparr>status := st2, payload := p2\<rparr>" fc k w2] update bal exp show ?thesis
      by (auto simp: entry_do_progress_def entry_is_completed_def status_order entry_active_def)
  qed (use st in \<open>auto simp: entry_do_progress_def entry_is_completed_def\<close>)
qed

lemma progress_at_ok:
  assumes tot: "ops_total ops" and inv: "sched_inv s" and ok: "statuses_ok s"
    and i: "i < length (entries s)"
  shows "\<exists>go s1 w1. progress_at ops i s w = Inr (go, s1, w1) \<and> statuses_ok s1"
proof -
  have bal: "fc.balanced (flow s) (active_count (entries s) - of_bool (entry_active (entries s ! i)) +
      of_bool (entry_active (entries s ! i)))"
    using inv active_count_pos [OF i] by (auto simp: sched_inv_def)
  from ok i have st: "status (entries s ! i) \<noteq> failed" "status (entries s ! i) \<noteq> invalid"
    by (auto simp: statuses_ok_def)
  from entry_do_progress_ok [OF tot st bal] obtain e fc w1 where
    "entry_do_progress ops (entries s ! i) (flow s) w = Inr (e, fc, w1)"
    "status e \<noteq> failed" "status e \<noteq> invalid"
    by blast
  with ok show ?thesis
    by (auto simp: progress_at_def Let_def statuses_ok_def dest!: set_update_subset_insert [THEN subsetD])
qed

lemma progress_from_ok:
  "ops_total ops \<Longrightarrow> sched_inv s \<Longrightarrow> loop_inv i s \<Longrightarrow> statuses_ok s \<Longrightarrow>
   \<exists>s' w'. progress_from ops i s w = Inr (s', w') \<and> statuses_ok s'"
proof (induction ops i s w rule: progress_from.induct)
  case (1 ops i s w)
  show ?case
  proof (cases "i < length (entries s)")
    case False
    with 1 show ?thesis by (simp add: progress_from.simps)
  next
    case True
    from progress_at_ok [OF "1.prems"(1,2,4) True] obtain go s1 w1 where
      at: "progress_at ops i s w = Inr (go, s1, w1)" and ok: "statuses_ok s1"
      by blast
    from progress_at_inv [OF "1.prems"(2,3) True at ops_total_sane [OF "1.prems"(1)]]
    have "sched_inv s1" "go \<Longrightarrow> loop_inv (Suc i) s1" by auto
    with "1.IH" [OF True at] ok "1.prems"(1) True at show ?thesis
      by (subst progress_from.simps) auto
  qed
qed

lemma sched_do_progress_ok:
  assumes "ops_total ops" and "sched_inv s" and "statuses_ok s"
  shows "\<exists>s' w'. sched_do_progress ops s w = Inr (s', w') \<and> sched_inv s' \<and> statuses_ok s' \<and>
           fc_cap (flow s') = fc_cap (flow s) \<and> length (entries s') = length (entries s)"
proof -
  have "loop_inv (start_idx s) s" by (auto simp: loop_inv_def)
  from progress_from_ok [OF assms(1,2) this assms(3)] obtain s' w' where
    "sched_do_progress ops s w = Inr (s', w')" "statuses_ok s'"
    unfolding sched_do_progress_def by blast
  with sched_do_progress_inv [OF assms(2) ops_total_sane [OF assms(1)]] show ?thesis
    by blast
qed

lemma statuses_ok_renew: "statuses_ok (renew s)"
  by (auto simp: statuses_ok_def in_set_conv_nth renew_nth reset_entry_def split: if_splits)

lemma sched_reach_ok:
  assumes "sched_reach ops s0 s" and "ops_total ops" and "fc.balanced (flow s0) 0"
  shows "statuses_ok s"
  using assms
proof (induction rule: sched_reach.induct)
  case (progress s w s' w')
  have "sched_inv s"
    using sched_reach_inv [OF progress.hyps(1) ops_total_sane] progress.prems by blast
  from sched_do_progress_ok [OF progress.prems(1) this] progress show ?case
    by (metis Pair_inject sum.inject(2))
qed (rule statuses_ok_renew)+

section \<open>Work left\<close>

primrec status_work :: "ccl_sched_entry_status \<Rightarrow> nat" where
  "status_work not_started = 3"
| "status_work again = 2"
| "status_work started = 1"
| "status_work complete = 0"
| "status_work complete_once = 0"
| "status_work failed = 0"
| "status_work invalid = 0"

definition work_left :: "'e ccl_sched \<Rightarrow> nat" where
  "work_left s = (\<Sum>e \<leftarrow> entries s. status_work (status e)) + (length (entries s) - start_idx s)"

text \<open>
  Entries that respond: \<^verbatim>\<open>start\<close> is accepted by the transport and \<^verbatim>\<open>update\<close> observes the
  completion.
\<close>

definition ops_live :: "('e, 'w) entry_ops \<Rightarrow> bool" where
  "ops_live ops \<longleftrightarrow>
     (\<forall>p w. \<exists>st p' w'. op_start ops p w = Inr (st, p', w') \<and> (st = started \<or> st = complete)) \<and>
     (\<forall>p w. \<exists>p' w'. op_update ops p w = Inr (complete, p', w')) \<and>
     (\<forall>p w. \<not> update_time_expired ops p w)"

lemma ops_live_total: "ops_live ops \<Longrightarrow> ops_total ops"
  unfolding ops_live_def ops_total_def by (intro conjI allI) (blast, metis, blast)

lemma ops_live_startD:
  "ops_live ops \<Longrightarrow> op_start ops p w = Inr (st, p', w') \<Longrightarrow> st = started \<or> st = complete"
  unfolding ops_live_def by (elim conjE allE [of _ p] allE [of _ w] exE) auto

lemma ops_live_updateD: "ops_live ops \<Longrightarrow> op_update ops p w = Inr (st, p', w') \<Longrightarrow> st = complete"
  unfolding ops_live_def by (elim conjE allE [of _ p] allE [of _ w] exE) auto

lemma finish_progress_work:
  assumes "finish_progress e fc w = Inr (e', fc', w')"
  shows "status_work (status e') = status_work (status e) \<and> (status e' = again \<longrightarrow> status e = again)"
  using assms by (auto simp: finish_progress_def result_simps split: if_splits)

text \<open>One call on a live entry leaves less work, unless the entry is complete or lacks a credit.\<close>

lemma entry_do_progress_work:
  assumes live: "ops_live ops" and prog: "entry_do_progress ops e fc w = Inr (e', fc', w')"
  shows "(e' = e \<and> fc' = fc \<and> (entry_is_completed e \<or> status e = not_started \<and> fc_avail fc = 0)) \<or>
         (status_work (status e') < status_work (status e) \<and> status e' \<noteq> again)"
proof (cases "entry_is_completed e \<or> status e = not_started \<and> fc_avail fc = 0")
  case True
  then show ?thesis
    using prog take_credit_none [of fc]
    by (auto simp: entry_do_progress_def entry_is_completed_def status_order)
next
  case False
  consider "status e = not_started \<or> status e = again" | "status e = started"
    | "status e = failed \<or> status e = invalid"
    using False by (cases "status e") (auto simp: entry_is_completed_def)
  then show ?thesis
  proof cases
    case 1
    with prog False obtain fc1 st p w1 where op: "op_start ops (payload e) w = Inr (st, p, w1)"
      and fin: "finish_progress (e\<lparr>status := st, payload := p\<rparr>) fc1 w1 = Inr (e', fc', w')"
      by (auto simp: entry_do_progress_def entry_is_completed_def status_order result_simps
          take_credit_False split: prod.splits if_splits)
    from ops_live_startD [OF live op] finish_progress_work [OF fin] 1 show ?thesis
      by auto
  next
    case 2
    with prog obtain st p w1 where op: "op_update ops (payload e) w = Inr (st, p, w1)"
      and fin: "finish_progress (e\<lparr>status := st, payload := p\<rparr>) fc w1 = Inr (e', fc', w')"
      by (auto simp: entry_do_progress_def entry_is_completed_def status_order result_simps
          split: prod.splits)
    from ops_live_updateD [OF live op] finish_progress_work [OF fin] 2 show ?thesis
      by auto
  next
    case 3
    with prog False show ?thesis
      by (auto simp: entry_do_progress_def finish_progress_def status_order)
  qed
qed

lemma sum_list_update_work:
  assumes "i < length es"
  shows "(\<Sum>e \<leftarrow> es[i := e']. status_work (status e)) + status_work (status (es ! i)) =
         (\<Sum>e \<leftarrow> es. status_work (status e)) + status_work (status e')"
proof -
  from assms obtain xs y ys where "es = xs @ y # ys" and "length xs = i"
    by (metis id_take_nth_drop length_take min.absorb2 less_imp_le_nat)
  then show ?thesis by (auto simp: list_update_append nth_append)
qed

text \<open>
  One round of the loop: it leaves the state alone and breaks or goes on, or it leaves
  less work.
\<close>

lemma progress_at_work:
  assumes live: "ops_live ops" and at: "progress_at ops i s w = Inr (go, s1, w1)"
    and i: "i < length (entries s)" and idx: "start_idx s \<le> i"
  shows "work_left s1 < work_left s \<or>
     (s1 = s \<and> (entry_is_completed (entries s ! i) \<and> start_idx s < i \<or>
        status (entries s ! i) = not_started \<and> fc_avail (flow s) = 0) \<and> (\<not> go \<longrightarrow> barrier (entries s ! i)))"
proof -
  from at obtain e fc w2 where
    ed: "entry_do_progress ops (entries s ! i) (flow s) w = Inr (e, fc, w2)"
    by (auto simp: progress_at_def result_simps)
  from entry_do_progress_work [OF live ed] show ?thesis
  proof
    assume same: "e = entries s ! i \<and> fc = flow s \<and>
      (entry_is_completed (entries s ! i) \<or> status (entries s ! i) = not_started \<and> fc_avail (flow s) = 0)"
    then have upd: "s\<lparr>entries := (entries s)[i := e], flow := fc\<rparr> = s"
      by simp
    show ?thesis
    proof (cases "i = start_idx s \<and> entry_is_completed e")
      case True
      then have "s1 = s\<lparr>start_idx := Suc (start_idx s)\<rparr>"
        using at ed same upd by (auto simp: progress_at_def Let_def entry_is_completed_def)
      with True i show ?thesis by (auto simp: work_left_def)
    next
      case False
      have "status e \<noteq> again" using same by (auto simp: entry_is_completed_def)
      with False at ed upd same have "s1 = s \<and> (\<not> go \<longrightarrow> barrier (entries s ! i))"
        by (auto simp: progress_at_def Let_def split: if_splits)
      with False same idx show ?thesis by (cases "i = start_idx s") auto
    qed
  next
    assume less: "status_work (status e) < status_work (status (entries s ! i)) \<and> status e \<noteq> again"
    with at ed have "entries s1 = (entries s)[i := e]" "start_idx s \<le> start_idx s1"
      by (auto simp: progress_at_def Let_def split: if_splits)
    with less sum_list_update_work [OF i, of e] show ?thesis
      by (auto simp: work_left_def)
  qed
qed

lemma progress_at_start_idx:
  assumes "progress_at ops i s w = Inr (go, s1, w1)" and "start_idx s \<le> i"
  shows "start_idx s1 \<le> Suc i"
  using assms by (auto simp: progress_at_def result_simps Let_def split: if_splits)

lemma progress_from_work:
  "ops_live ops \<Longrightarrow> start_idx s \<le> i \<Longrightarrow> progress_from ops i s w = Inr (s', w') \<Longrightarrow>
   work_left s' \<le> work_left s"
proof (induction ops i s w rule: progress_from.induct)
  case (1 ops i s w)
  show ?case
  proof (cases "i < length (entries s)")
    case False
    with 1 show ?thesis by (simp add: progress_from.simps)
  next
    case True
    with "1.prems"(3) obtain go s1 w1 where at: "progress_at ops i s w = Inr (go, s1, w1)"
      and rest: "if go then progress_from ops (Suc i) s1 w1 = Inr (s', w') else s' = s1"
      by (subst (asm) progress_from.simps) (auto split: sum.splits prod.splits if_splits)
    from progress_at_work [OF "1.prems"(1) at True "1.prems"(2)] have "work_left s1 \<le> work_left s"
      by auto
    moreover have "work_left s' \<le> work_left s1"
      using "1.IH" [OF True at] rest "1.prems" progress_at_start_idx [OF at "1.prems"(2)]
      by (cases go) auto
    ultimately show ?thesis by simp
  qed
qed

text \<open>
  While an entry is active the loop reaches it, or another one that responds, before it
  breaks at a barrier.
\<close>

lemma progress_from_active:
  "ops_live ops \<Longrightarrow> sched_inv s \<Longrightarrow> loop_inv i s \<Longrightarrow>
   (start_idx s < i \<longrightarrow> \<not> entry_is_completed (entries s ! start_idx s)) \<Longrightarrow>
   i \<le> j \<Longrightarrow> j < length (entries s) \<Longrightarrow> entry_active (entries s ! j) \<Longrightarrow>
   progress_from ops i s w = Inr (s', w') \<Longrightarrow> work_left s' < work_left s"
proof (induction ops i s w rule: progress_from.induct)
  case (1 ops i s w)
  have i: "i < length (entries s)" and idx: "start_idx s \<le> i"
    using "1.prems" by (auto simp: loop_inv_def)
  with "1.prems"(8) obtain go s1 w1 where at: "progress_at ops i s w = Inr (go, s1, w1)"
    and rest: "if go then progress_from ops (Suc i) s1 w1 = Inr (s', w') else s' = s1"
    by (subst (asm) progress_from.simps) (auto split: sum.splits prod.splits if_splits)
  have idx1: "start_idx s1 \<le> Suc i" by (rule progress_at_start_idx [OF at idx])
  from progress_at_work [OF "1.prems"(1) at i idx] show ?case
  proof
    assume "work_left s1 < work_left s"
    moreover have "work_left s' \<le> work_left s1"
      using rest progress_from_work [OF "1.prems"(1) idx1] by (cases go) auto
    ultimately show ?thesis by simp
  next
    assume same: "s1 = s \<and> (entry_is_completed (entries s ! i) \<and> start_idx s < i \<or>
        status (entries s ! i) = not_started \<and> fc_avail (flow s) = 0) \<and> (\<not> go \<longrightarrow> barrier (entries s ! i))"
    then have "\<not> entry_active (entries s ! i)"
      by (auto simp: entry_is_completed_def entry_active_def)
    with "1.prems"(5,7) have j: "i < j" by (cases "i = j") auto
    have go
    proof (rule ccontr)
      assume "\<not> go"
      with same have "barrier (entries s ! i)" by simp
      with "1.prems"(2,6,7) j have "\<forall>k \<le> i. entry_is_completed (entries s ! k)"
        unfolding sched_inv_def touched_active_or_complete by blast
      with same "1.prems"(4) idx show False
        by (auto simp: entry_is_completed_def)
    qed
    have "loop_inv (Suc i) s"
      using progress_at_inv [OF "1.prems"(2,3) i at ops_total_sane [OF ops_live_total [OF "1.prems"(1)]]]
        \<open>go\<close> same by simp
    moreover have "start_idx s < Suc i \<longrightarrow> \<not> entry_is_completed (entries s ! start_idx s)"
      using same "1.prems"(4) idx by (cases "start_idx s = i") (auto simp: entry_is_completed_def)
    ultimately show ?thesis
      using "1.IH" [OF i at] \<open>go\<close> rest same j "1.prems" by auto
  qed
qed

lemma sched_progress_decreases:
  assumes live: "ops_live ops" and inv: "sched_inv s" and cap: "0 < fc_cap (flow s)"
    and unfinished: "\<not> sched_finished s" and prog: "sched_do_progress ops s w = Inr (s', w')"
  shows "work_left s' < work_left s"
proof -
  have loop: "loop_inv (start_idx s) s" by (auto simp: loop_inv_def)
  have i: "start_idx s < length (entries s)"
    using inv unfinished by (auto simp: sched_inv_def sched_finished_def)
  show ?thesis
  proof (cases "status (entries s ! start_idx s) = not_started \<and> fc_avail (flow s) = 0")
    case True
    with inv cap have "0 < active_count (entries s)"
      by (auto simp: sched_inv_def fc.balanced_def)
    then obtain j where j: "j < length (entries s)" "entry_active (entries s ! j)"
      by (auto simp: active_count_def filter_empty_conv in_set_conv_nth)
    then have "start_idx s \<le> j"
      using inv by (force simp: sched_inv_def entry_active_def entry_is_completed_def not_less)
    with j progress_from_active [OF live inv loop] prog show ?thesis
      unfolding sched_do_progress_def by blast
  next
    case False
    from prog i obtain go s1 w1 where at: "progress_at ops (start_idx s) s w = Inr (go, s1, w1)"
      and rest: "if go then progress_from ops (Suc (start_idx s)) s1 w1 = Inr (s', w') else s' = s1"
      unfolding sched_do_progress_def
      by (subst (asm) progress_from.simps) (auto split: sum.splits prod.splits if_splits)
    from progress_at_work [OF live at i] False have "work_left s1 < work_left s" by auto
    moreover have "work_left s' \<le> work_left s1"
      using rest progress_from_work [OF live progress_at_start_idx [OF at]] by (cases go) auto
    ultimately show ?thesis by simp
  qed
qed

fun progress_n :: "('e, 'w) entry_ops \<Rightarrow> nat \<Rightarrow> 'e ccl_sched \<Rightarrow> 'w \<Rightarrow> ('e ccl_sched \<times> 'w) result" where
  "progress_n ops 0 s w = Inr (s, w)"
| "progress_n ops (Suc n) s w = rbind (sched_do_progress ops s w) (\<lambda>(s1, w1). progress_n ops n s1 w1)"

lemma progress_n_finishes:
  assumes "ops_live ops" and "sched_inv s" and "statuses_ok s" and "0 < fc_cap (flow s)"
  shows "\<exists>n \<le> work_left s. \<exists>s' w'. progress_n ops n s w = Inr (s', w') \<and> sched_finished s'"
  using assms(2-)
proof (induction "work_left s" arbitrary: s w rule: less_induct)
  case less
  show ?case
  proof (cases "sched_finished s")
    case True
    then show ?thesis by (intro exI [of _ 0]) simp
  next
    case False
    from sched_do_progress_ok [OF ops_live_total [OF assms(1)] less.prems(1,2)] obtain s1 w1 where
      s1: "sched_do_progress ops s w = Inr (s1, w1)" "sched_inv s1" "statuses_ok s1"
        "fc_cap (flow s1) = fc_cap (flow s)"
      by blast
    from sched_progress_decreases [OF assms(1) less.prems(1,3) False s1(1)]
    have dec: "work_left s1 < work_left s" .
    from less.hyps [OF dec s1(2,3)] s1(4) less.prems(3) obtain n s' w' where
      "n \<le> work_left s1" "progress_n ops n s1 w1 = Inr (s', w')" "sched_finished s'"
      by (metis)
    with s1(1) dec show ?thesis by (intro exI [of _ "Suc n"]) auto
  qed
qed

lemma work_left_le: "work_left s \<le> 4 * length (entries s)"
proof -
  have "(\<Sum>e \<leftarrow> es. status_work (status e)) \<le> 3 * length es" for es :: "'a sched_entry list"
  proof (induction es)
    case (Cons e es)
    have "status_work (status e) \<le> 3" by (cases "status e") simp_all
    with Cons show ?case by simp
  qed simp
  from this [of "entries s"] show ?thesis by (simp add: work_left_def)
qed

section \<open>A small schedule\<close>

text \<open>
  A schedule of two entries, the first of which is a barrier, over entries that respond: the
  input at which the hypotheses of the properties below are discharged.
\<close>

definition example_ops :: "(unit, unit) entry_ops" where
  "example_ops = \<lparr>op_start = (\<lambda>p w. Inr (started, p, w)), op_update = (\<lambda>p w. Inr (complete, p, w)),
                  update_time_expired = (\<lambda>p w. False)\<rparr>"

definition example_sched :: "unit ccl_sched" where
  "example_sched = empty_sched\<lparr>entries := [new_entry () True False, new_entry () False False]\<rparr>"

definition example_mid :: "unit ccl_sched" where
  "example_mid =
     (case progress_n example_ops 2 (renew example_sched) () of
        Inl _ \<Rightarrow> example_sched | Inr (s, _) \<Rightarrow> s)"

lemma example_ops_live: "ops_live example_ops"
  by (simp add: ops_live_def example_ops_def)

lemmas example_ops_total = ops_live_total [OF example_ops_live]
lemmas example_ops_sane = ops_total_sane [OF example_ops_total]

lemma example_balanced: "fc.balanced (flow example_sched) 0"
  by (simp add: fc.balanced_def example_sched_def empty_sched_def fc_avail_def fc_cap_def
      flow_control_init_def fc_inv_def)

lemma example_statuses: "map status (entries example_mid) = [complete, started]"
  by code_simp

lemma example_barrier: "barrier (entries example_mid ! 0)"
  by code_simp

lemma progress_n_reach:
  "sched_reach ops s0 s \<Longrightarrow> progress_n ops n s w = Inr (s', w') \<Longrightarrow> sched_reach ops s0 s'"
proof (induction n arbitrary: s w)
  case (Suc n)
  then show ?case by (auto simp: result_simps dest: sched_reach.progress)
qed simp

lemma example_reach: "sched_reach example_ops example_sched example_mid"
proof -
  have "\<exists>w. progress_n example_ops 2 (renew example_sched) () = Inr (example_mid, w)"
    by code_simp
  then show ?thesis by (blast intro: progress_n_reach sched_reach.init)
qed

lemma example_mid_facts:
  "length (entries example_mid) = 2" "status (entries example_mid ! 0) = complete"
  "status (entries example_mid ! 1) = started"
  using arg_cong [OF example_statuses, of length] arg_cong [OF example_statuses, of "\<lambda>xs. xs ! 0"]
    arg_cong [OF example_statuses, of "\<lambda>xs. xs ! 1"]
  by simp_all

section \<open>Properties\<close>

text \<open>
  C4: a barrier separates the entries of a schedule. In every state the schedule can be
  in, over any number of progress calls in arbitrary worlds and any number of restarts, if an
  entry behind a barrier has been touched (it is waiting for the transport, started or
  complete) then the barrier entry and every entry before it are complete.
\<close>

theorem barrier_separates_entries:
  assumes "sched_reach ops s0 s" and "ops_sane ops" and "fc.balanced (flow s0) 0"
    and "b < j" and "j < length (entries s)"
    and "barrier (entries s ! b)" and "entry_touched (entries s ! j)" and "k \<le> b"
  shows "entry_is_completed (entries s ! k)"
proof -
  have "sched_inv s"
    using sched_reach_inv [OF assms(1-3)] by blast
  with assms(4-8) show ?thesis
    unfolding sched_inv_def by blast
qed

theorem barrier_separates_entries_witness:
  "sched_reach example_ops example_sched example_mid \<and> barrier (entries example_mid ! 0) \<and>
   entry_touched (entries example_mid ! 1) \<and> entry_is_completed (entries example_mid ! 0)"
  using barrier_separates_entries [OF example_reach example_ops_sane example_balanced, of 0 1 0]
    example_reach example_barrier example_mid_facts
  by (simp add: entry_touched_def)

text \<open>
  C16: entries are started in the order in which they were added, as long as the schedule
  has a flow credit for each of its entries: a touched entry has only started or
  complete entries before it.
\<close>

theorem entries_start_in_order:
  assumes "sched_reach ops s0 s" and "ops_sane ops" and "fc.balanced (flow s0) 0"
    and "length (entries s0) \<le> fc_cap (flow s0)"
    and "i < j" and "j < length (entries s)" and "entry_touched (entries s ! j)"
  shows "is_strict_order_satisfied (entries s ! i)"
proof -
  have "order_inv s"
    by (rule sched_reach_order [OF assms(1-4)])
  with assms(5-7) show ?thesis
    unfolding order_inv_def by blast
qed

theorem entries_start_in_order_witness:
  "entry_touched (entries example_mid ! 1) \<and> is_strict_order_satisfied (entries example_mid ! 0)"
  using entries_start_in_order [OF example_reach example_ops_sane example_balanced, of 0 1]
    example_mid_facts
  by (simp add: entry_touched_def example_sched_def empty_sched_def flow_control_init_def
      CCL_MAX_FLOW_CREDITS_def fc_cap_def)

text \<open>
  C17: flow control is exact and never throws. In every state of a schedule in use the
  credits that are out are those of the active entries, and the next progress call succeeds
  when the virtual methods of the entries do.
\<close>

theorem flow_credits_balanced:
  assumes "sched_reach ops s0 s" and "ops_total ops" and "fc.balanced (flow s0) 0"
  shows "fc_avail (flow s) + active_count (entries s) = fc_cap (flow s0) \<and>
         (\<exists>s' w'. sched_do_progress ops s w = Inr (s', w'))"
proof -
  have "sched_inv s" "fc_cap (flow s) = fc_cap (flow s0)"
    using sched_reach_inv [OF assms(1) ops_total_sane [OF assms(2)] assms(3)] by auto
  moreover from this(1) have "\<exists>s' w'. sched_do_progress ops s w = Inr (s', w')"
    using sched_do_progress_ok [OF assms(2) _ sched_reach_ok [OF assms]] by blast
  ultimately show ?thesis
    by (simp add: sched_inv_def fc.balanced_def)
qed

theorem flow_credits_balanced_witness:
  "fc_avail (flow example_mid) + active_count (entries example_mid) = fc_cap (flow example_sched) \<and>
   (\<exists>s' w'. sched_do_progress example_ops example_mid () = Inr (s', w'))"
  by (rule flow_credits_balanced [OF example_reach example_ops_total example_balanced])

text \<open>
  C18: a renewed schedule whose entries respond is finished after at most four progress
  calls per entry, even with a single flow credit.
\<close>

theorem responsive_schedule_finishes:
  assumes "ops_live ops" and "fc.balanced (flow s) 0" and "0 < fc_cap (flow s)"
  shows "\<exists>n \<le> 4 * length (entries s). \<exists>s' w'.
           progress_n ops n (renew s) w = Inr (s', w') \<and> sched_finished s'"
proof -
  have "work_left (renew s) \<le> 4 * length (entries s)"
    using work_left_le [of "renew s"] by simp
  moreover have "\<exists>n \<le> work_left (renew s). \<exists>s' w'.
      progress_n ops n (renew s) w = Inr (s', w') \<and> sched_finished s'"
    by (rule progress_n_finishes [OF assms(1) sched_inv_renew [OF assms(2)] statuses_ok_renew])
      (simp add: assms(3))
  ultimately show ?thesis by (meson le_trans)
qed

theorem responsive_schedule_finishes_witness:
  "\<exists>n \<le> 8. \<exists>s' w'. progress_n example_ops n (renew example_sched) () = Inr (s', w') \<and>
     sched_finished s'"
  using responsive_schedule_finishes [OF example_ops_live example_balanced, of "()"]
  by (simp add: example_sched_def empty_sched_def flow_control_init_def CCL_MAX_FLOW_CREDITS_def
      fc_cap_def)

end
