(* ===== verification/SchedRestart.thy ===== *)
theory SchedRestart
  imports Prelude
begin

text \<open>
  Requests and the restart of cached schedules: \<^verbatim>\<open>src/src/common/request/request.cpp\<close>,
  \<^verbatim>\<open>src/src/sched/sched_restart_manager.cpp\<close> and the functions of \<^verbatim>\<open>src/src/sched/sched.cpp\<close>
  that start, complete and restart a schedule. A cached schedule runs one operation at a time; an
  operation that finds it busy gets a delayed request, and its parameters wait in a
  list until the worker that completes the current run restarts the schedule.
\<close>

section \<open>Requests\<close>

text \<open>The completion counter of a request is an \<^verbatim>\<open>int\<close>.\<close>

definition complete_counter :: "int \<Rightarrow> int result" where
  "complete_counter c = throw_if_not (c > 0) ''unexpected prev_counter'' (Inr (c - 1))"

definition request_complete :: "int \<Rightarrow> (bool \<times> int) result" where
  "request_complete c = rbind (complete_counter c) (\<lambda>c1. Inr (c1 = 0, c1))"

definition request_is_completed :: "int \<Rightarrow> bool" where
  "request_is_completed c \<longleftrightarrow> c = 0"

definition set_counter :: "int \<Rightarrow> int \<Rightarrow> int result" where
  "set_counter counter c = throw_if_not (c = 0) ''unexpected counter'' (Inr (int32 (counter + 1)))"

definition increase_counter :: "int \<Rightarrow> int \<Rightarrow> int result" where
  "increase_counter increment c =
     throw_if_not (c > 0) ''unexpected prev_counter'' (Inr (int32 (c + increment)))"

section \<open>A schedule with partial schedules\<close>

text \<open>
  Requests are numbered in the order of their allocation; \<open>counters\<close> is the heap of
  requests. Of a partial schedule only the counter of its own request is kept. What the executor has
  been given is recorded in \<open>exec_log\<close>, one element per run, and \<open>exec_calls\<close> is how
  often the workers have yet to call \<^verbatim>\<open>complete\<close> on each partial schedule: once, and once more when
  strict order is on (\<^verbatim>\<open>ccl_worker::add\<close> raises the counter of the request for the second call).
\<close>

type_synonym rid = nat

record 'p master_sched =
  coll_param :: 'p
  has_comm :: bool
  to_cache :: bool
  top_level_sched :: bool
  strict_order :: bool
  req :: rid
  counters :: "rid \<Rightarrow> int"
  next_req :: rid
  in_progress :: bool
  delayed_requests :: "rid list"
  launch_params :: "'p list"
  sub_counters :: "int list"
  exec_log :: "(rid \<times> 'p) list"
  exec_calls :: "nat list"

definition new_request :: "'p master_sched \<Rightarrow> rid \<times> 'p master_sched" where
  "new_request m = (next_req m, m\<lparr>next_req := Suc (next_req m), counters := (counters m)(next_req m := 0)\<rparr>)"

definition calculate_request_count :: "'p master_sched \<Rightarrow> int" where
  "calculate_request_count m = max 1 (int32 (int (length (sub_counters m))))"

definition set_request_counter :: "rid \<Rightarrow> 'p master_sched \<Rightarrow> 'p master_sched result" where
  "set_request_counter r m =
     rbind (set_counter (calculate_request_count m) (counters m r)) (\<lambda>c.
       Inr (m\<lparr>counters := (counters m)(r := c)\<rparr>))"

definition reset_request :: "'p master_sched \<Rightarrow> 'p master_sched result" where
  "reset_request m = set_request_counter (req m) m"

section \<open>The restart manager\<close>

definition add_launch_params :: "'p \<Rightarrow> 'p master_sched \<Rightarrow> 'p master_sched result" where
  "add_launch_params p m =
     (if in_progress m then Inr (m\<lparr>launch_params := launch_params m @ [p]\<rparr>)
      else throw_if_not (delayed_requests m = []) ''must not update params if there are any delayed requests''
        (Inr (m\<lparr>coll_param := p\<rparr>)))"

definition update_launch_params :: "'p master_sched \<Rightarrow> 'p master_sched" where
  "update_launch_params m =
     (case launch_params m of [] \<Rightarrow> m | p # ps \<Rightarrow> m\<lparr>launch_params := ps, coll_param := p\<rparr>)"

definition make_delayed_request :: "'p master_sched \<Rightarrow> (rid \<times> 'p master_sched) result" where
  "make_delayed_request m =
     (let (r, m1) = new_request m
      in rbind (set_request_counter r m1) (\<lambda>m2.
           Inr (r, m2\<lparr>delayed_requests := delayed_requests m2 @ [r]\<rparr>)))"

definition get_delayed_request :: "'p master_sched \<Rightarrow> rid \<times> 'p master_sched" where
  "get_delayed_request m = (hd (delayed_requests m), m\<lparr>delayed_requests := tl (delayed_requests m)\<rparr>)"

definition update_active_request :: "bool \<Rightarrow> 'p master_sched \<Rightarrow> 'p master_sched" where
  "update_active_request use_delayed m =
     (let (r, m1) = (if use_delayed then get_delayed_request m else new_request m) in m1\<lparr>req := r\<rparr>)"

definition preprocess :: "bool \<Rightarrow> 'p master_sched \<Rightarrow> (rid option \<times> 'p master_sched) result" where
  "preprocess restart m =
     (if restart then
        Inr (None, update_launch_params ((update_active_request True m)\<lparr>in_progress := True\<rparr>))
      else if in_progress m then
        rbind (make_delayed_request m) (\<lambda>(r, m1). Inr (Some r, m1))
      else Inr (None, update_launch_params (m\<lparr>in_progress := True\<rparr>)))"

definition check_delayed_requests :: "'p master_sched \<Rightarrow> bool \<times> 'p master_sched" where
  "check_delayed_requests m =
     (if delayed_requests m = [] then (False, (update_active_request False m)\<lparr>in_progress := False\<rparr>)
      else (True, m))"

section \<open>Starting, completing and restarting\<close>

text \<open>\<^verbatim>\<open>prepare_subscheds\<close> renews every partial schedule, which sets the counter of its request.\<close>

primrec renew_counters :: "int list \<Rightarrow> int list result" where
  "renew_counters [] = Inr []"
| "renew_counters (c # cs) =
     rbind (set_counter 1 c) (\<lambda>c1. rbind (renew_counters cs) (\<lambda>cs1. Inr (c1 # cs1)))"

definition prepare_subscheds :: "'p master_sched \<Rightarrow> 'p master_sched result" where
  "prepare_subscheds m = rbind (renew_counters (sub_counters m)) (\<lambda>cs. Inr (m\<lparr>sub_counters := cs\<rparr>))"

primrec worker_add_counters :: "bool \<Rightarrow> int list \<Rightarrow> int list result" where
  "worker_add_counters strict [] = Inr []"
| "worker_add_counters strict (c # cs) =
     rbind (if strict then increase_counter 1 c else Inr c) (\<lambda>c1.
       rbind (worker_add_counters strict cs) (\<lambda>cs1. Inr (c1 # cs1)))"

definition exec_start :: "'p master_sched \<Rightarrow> 'p master_sched result" where
  "exec_start m =
     rbind (worker_add_counters (strict_order m) (sub_counters m)) (\<lambda>cs.
       Inr (m\<lparr>sub_counters := cs, exec_log := exec_log m @ [(req m, coll_param m)],
              exec_calls := map (\<lambda>_. if strict_order m then 2 else 1) cs\<rparr>))"

definition sched_start :: "bool \<Rightarrow> 'p master_sched \<Rightarrow> (rid \<times> 'p master_sched) result" where
  "sched_start restart m =
     rbind (preprocess restart m) (\<lambda>(new_req, m1).
       case new_req of
         Some r \<Rightarrow> Inr (r, m1)
       | None \<Rightarrow>
           throw_if_not (has_comm m1) ''coll_param.comm''
             (rbind (prepare_subscheds m1) (\<lambda>m2.
              rbind (if \<not> restart then reset_request m2 else Inr m2) (\<lambda>m3.
              rbind (exec_start m3) (\<lambda>m4. Inr (req m4, m4))))))"

text \<open>
  \<^verbatim>\<open>ccl_sched::complete\<close> on the partial schedule at position \<open>i\<close>, up to the decision on the
  request of the parent: the result says whether this call has to finish the parent.
\<close>

definition sub_complete :: "nat \<Rightarrow> 'p master_sched \<Rightarrow> (bool \<times> 'p master_sched) result" where
  "sub_complete i m =
     rbind (complete_counter (sub_counters m ! i)) (\<lambda>c.
       if c = 1 then
         rbind (request_complete c) (\<lambda>(success, c1).
           throw_if_not success ''request was not completed correctly!''
             (rbind (complete_counter (counters m (req m))) (\<lambda>pc.
               Inr (pc = 1, m\<lparr>sub_counters := (sub_counters m)[i := c1],
                              counters := (counters m)(req m := pc)\<rparr>))))
       else Inr (False, m\<lparr>sub_counters := (sub_counters m)[i := c]\<rparr>))"

definition restart_start :: "'p master_sched \<Rightarrow> 'p master_sched result" where
  "restart_start m =
     throw_if_not (top_level_sched m) ''only top-level scheds must be restarted''
       (rbind (sched_start True m) (\<lambda>(r, m1). Inr m1))"

definition parent_complete :: "rid \<Rightarrow> 'p master_sched \<Rightarrow> 'p master_sched result" where
  "parent_complete r m =
     rbind (request_complete (counters m r)) (\<lambda>(b, c). Inr (m\<lparr>counters := (counters m)(r := c)\<rparr>))"

section \<open>Users and workers\<close>

text \<open>
  The interleavings: a user thread gets the cached schedule and leaves its parameters (\<open>Create\<close>),
  then starts it (\<open>Start\<close>) and keeps the request; workers call \<^verbatim>\<open>complete\<close> on partial
  schedules; the call that finishes a run looks for delayed requests, restarts the schedule if
  there is one, and completes the request of the run, in three steps.
\<close>

datatype final = F_check rid | F_restart rid | F_complete rid

record 'p sys =
  master :: "'p master_sched"
  finals :: "final list"
  creating :: "'p option"
  jobs :: "(rid \<times> 'p) list"

inductive sys_step :: "'p sys \<Rightarrow> 'p sys result \<Rightarrow> bool" where
  create: "creating s = None \<Longrightarrow>
    sys_step s (rbind (add_launch_params p (master s)) (\<lambda>m. Inr (s\<lparr>master := m, creating := Some p\<rparr>)))"
| start: "creating s = Some p \<Longrightarrow>
    sys_step s (rbind (sched_start False (master s)) (\<lambda>(r, m).
      Inr (s\<lparr>master := m, creating := None, jobs := jobs s @ [(r, p)]\<rparr>)))"
| worker: "i < length (exec_calls (master s)) \<Longrightarrow> 0 < exec_calls (master s) ! i \<Longrightarrow>
    sys_step s (rbind (sub_complete i (master s)) (\<lambda>(fin, m).
      let m1 = m\<lparr>exec_calls := (exec_calls m)[i := exec_calls m ! i - 1]\<rparr>
      in Inr (s\<lparr>master := m1,
                finals := finals s @ (if \<not> fin then [] else if to_cache m1 then [F_check (req m1)]
                                      else [F_complete (req m1)])\<rparr>)))"
| check: "finals s = fs @ F_check r # gs \<Longrightarrow> check_delayed_requests (master s) = (b, m) \<Longrightarrow>
    sys_step s (Inr (s\<lparr>master := m, finals := fs @ (if b then F_restart r else F_complete r) # gs\<rparr>))"
| restart: "finals s = fs @ F_restart r # gs \<Longrightarrow>
    sys_step s (rbind (restart_start (master s)) (\<lambda>m.
      Inr (s\<lparr>master := m, finals := fs @ F_complete r # gs\<rparr>)))"
| complete: "finals s = fs @ F_complete r # gs \<Longrightarrow>
    sys_step s (rbind (parent_complete r (master s)) (\<lambda>m. Inr (s\<lparr>master := m, finals := fs @ gs\<rparr>)))"

inductive_cases sys_stepE: "sys_step s r"

definition new_sched :: "nat \<Rightarrow> bool \<Rightarrow> 'p \<Rightarrow> 'p sys" where
  "new_sched n strict p =
     \<lparr>master = \<lparr>coll_param = p, has_comm = True, to_cache = True, top_level_sched = True, strict_order = strict,
        req = 0, counters = (\<lambda>_. 0), next_req = 1, in_progress = False, delayed_requests = [],
        launch_params = [], sub_counters = replicate n 0, exec_log = [], exec_calls = replicate n 0\<rparr>,
      finals = [], creating = Some p, jobs = []\<rparr>"

inductive sys_reach :: "'p sys \<Rightarrow> 'p sys \<Rightarrow> bool" for s0 where
  init: "sys_reach s0 s0"
| step: "sys_reach s0 s \<Longrightarrow> sys_step s (Inr s') \<Longrightarrow> sys_reach s0 s'"

section \<open>What the operations do\<close>

definition running :: "'p master_sched \<Rightarrow> nat" where
  "running m = length (filter ((<) 0) (exec_calls m))"

definition calls_per_run :: "'p master_sched \<Rightarrow> nat" where
  "calls_per_run m = (if strict_order m then 2 else 1)"

definition sched_static :: "'p master_sched \<Rightarrow> bool" where
  "sched_static m \<longleftrightarrow> to_cache m \<and> has_comm m \<and> top_level_sched m \<and> sub_counters m \<noteq> [] \<and>
     length (sub_counters m) < 2 ^ 31 - 1 \<and> length (exec_calls m) = length (sub_counters m)"

definition call_counter :: "nat \<Rightarrow> int" where
  "call_counter k = (if k = 0 then 0 else int k + 1)"

definition subs_ok :: "'p master_sched \<Rightarrow> bool" where
  "subs_ok m \<longleftrightarrow> sub_counters m = map call_counter (exec_calls m)"

definition parts :: "'p master_sched \<Rightarrow> int" where
  "parts m = int (length (sub_counters m))"

lemma running_0: "running m = 0 \<Longrightarrow> exec_calls m = replicate (length (exec_calls m)) 0"
  by (rule replicate_length_same [symmetric]) (auto simp: running_def filter_empty_conv)

lemma idle_sub_counters:
  assumes "subs_ok m" and "running m = 0"
  shows "sub_counters m = replicate (length (sub_counters m)) 0"
proof -
  have "map call_counter (exec_calls m) = map call_counter (replicate (length (exec_calls m)) 0)"
    by (rule arg_cong [OF running_0 [OF assms(2)]])
  also have "\<dots> = replicate (length (exec_calls m)) 0" by (simp add: call_counter_def)
  finally show ?thesis using assms(1) by (simp add: subs_ok_def)
qed

lemma renew_counters_idle: "renew_counters (replicate n 0) = Inr (replicate n 2)"
  by (induction n) (simp_all add: set_counter_def int32_id)

lemma worker_add_counters_renewed:
  "worker_add_counters strict (replicate n 2) = Inr (replicate n (if strict then 3 else 2))"
  by (induction n) (simp_all add: increase_counter_def int32_id)

lemma request_count: "sched_static m \<Longrightarrow> calculate_request_count m = parts m"
  by (cases "sub_counters m") (auto simp: calculate_request_count_def sched_static_def parts_def int32_id)

lemma set_request_counter_ok:
  "sched_static m \<Longrightarrow> counters m r = 0 \<Longrightarrow>
     set_request_counter r m = Inr (m\<lparr>counters := (counters m)(r := parts m + 1)\<rparr>)"
  by (simp add: set_request_counter_def set_counter_def request_count)
    (auto simp: sched_static_def parts_def int32_id)

text \<open>A run as the executor gets it.\<close>

definition run_started :: "'p master_sched \<Rightarrow> 'p master_sched" where
  "run_started m =
     m\<lparr>sub_counters := replicate (length (sub_counters m)) (call_counter (calls_per_run m)),
       exec_log := exec_log m @ [(req m, coll_param m)],
       exec_calls := replicate (length (sub_counters m)) (calls_per_run m)\<rparr>"

lemma prepare_exec:
  assumes "subs_ok m" and "running m = 0"
  shows "rbind (prepare_subscheds m) (\<lambda>m2. rbind (Inr m2) exec_start) = Inr (run_started m)"
    and "prepare_subscheds m = Inr (m\<lparr>sub_counters := replicate (length (sub_counters m)) 2\<rparr>)"
    and "exec_start (m\<lparr>sub_counters := replicate n 2, counters := c\<rparr>) =
      Inr (m\<lparr>sub_counters := replicate n (call_counter (calls_per_run m)), counters := c,
             exec_log := exec_log m @ [(req m, coll_param m)], exec_calls := replicate n (calls_per_run m)\<rparr>)"
proof -
  have 1: "renew_counters (sub_counters m) = Inr (replicate (length (sub_counters m)) 2)"
    using renew_counters_idle idle_sub_counters [OF assms] by metis
  show "prepare_subscheds m = Inr (m\<lparr>sub_counters := replicate (length (sub_counters m)) 2\<rparr>)"
    by (simp add: prepare_subscheds_def 1)
  then show "rbind (prepare_subscheds m) (\<lambda>m2. rbind (Inr m2) exec_start) = Inr (run_started m)"
    by (simp add: exec_start_def worker_add_counters_renewed run_started_def call_counter_def calls_per_run_def)
  show "exec_start (m\<lparr>sub_counters := replicate n 2, counters := c\<rparr>) =
      Inr (m\<lparr>sub_counters := replicate n (call_counter (calls_per_run m)), counters := c,
             exec_log := exec_log m @ [(req m, coll_param m)], exec_calls := replicate n (calls_per_run m)\<rparr>)"
    by (simp add: exec_start_def worker_add_counters_renewed call_counter_def calls_per_run_def)
qed

lemma update_launch_params_same [simp]:
  "req (update_launch_params m) = req m" "counters (update_launch_params m) = counters m"
  "sub_counters (update_launch_params m) = sub_counters m" "exec_calls (update_launch_params m) = exec_calls m"
  "exec_log (update_launch_params m) = exec_log m" "next_req (update_launch_params m) = next_req m"
  "in_progress (update_launch_params m) = in_progress m" "delayed_requests (update_launch_params m) = delayed_requests m"
  "to_cache (update_launch_params m) = to_cache m" "has_comm (update_launch_params m) = has_comm m"
  "top_level_sched (update_launch_params m) = top_level_sched m" "strict_order (update_launch_params m) = strict_order m"
  by (simp_all add: update_launch_params_def split: list.splits)

lemmas same_parts = subs_ok_def running_def sched_static_def parts_def calls_per_run_def

lemma frame_simps [simp]:
  "running (m\<lparr>coll_param := x_coll_param\<rparr>) = running m" "parts (m\<lparr>coll_param := x_coll_param\<rparr>) = parts m"
  "subs_ok (m\<lparr>coll_param := x_coll_param\<rparr>) = subs_ok m" "sched_static (m\<lparr>coll_param := x_coll_param\<rparr>) = sched_static m"
  "running (m\<lparr>req := x_req\<rparr>) = running m" "parts (m\<lparr>req := x_req\<rparr>) = parts m"
  "subs_ok (m\<lparr>req := x_req\<rparr>) = subs_ok m" "sched_static (m\<lparr>req := x_req\<rparr>) = sched_static m"
  "running (m\<lparr>counters := x_counters\<rparr>) = running m" "parts (m\<lparr>counters := x_counters\<rparr>) = parts m"
  "subs_ok (m\<lparr>counters := x_counters\<rparr>) = subs_ok m" "sched_static (m\<lparr>counters := x_counters\<rparr>) = sched_static m"
  "running (m\<lparr>next_req := x_next_req\<rparr>) = running m" "parts (m\<lparr>next_req := x_next_req\<rparr>) = parts m"
  "subs_ok (m\<lparr>next_req := x_next_req\<rparr>) = subs_ok m" "sched_static (m\<lparr>next_req := x_next_req\<rparr>) = sched_static m"
  "running (m\<lparr>in_progress := x_in_progress\<rparr>) = running m" "parts (m\<lparr>in_progress := x_in_progress\<rparr>) = parts m"
  "subs_ok (m\<lparr>in_progress := x_in_progress\<rparr>) = subs_ok m" "sched_static (m\<lparr>in_progress := x_in_progress\<rparr>) = sched_static m"
  "running (m\<lparr>delayed_requests := x_delayed_requests\<rparr>) = running m" "parts (m\<lparr>delayed_requests := x_delayed_requests\<rparr>) = parts m"
  "subs_ok (m\<lparr>delayed_requests := x_delayed_requests\<rparr>) = subs_ok m" "sched_static (m\<lparr>delayed_requests := x_delayed_requests\<rparr>) = sched_static m"
  "running (m\<lparr>launch_params := x_launch_params\<rparr>) = running m" "parts (m\<lparr>launch_params := x_launch_params\<rparr>) = parts m"
  "subs_ok (m\<lparr>launch_params := x_launch_params\<rparr>) = subs_ok m" "sched_static (m\<lparr>launch_params := x_launch_params\<rparr>) = sched_static m"
  "running (m\<lparr>exec_log := x_exec_log\<rparr>) = running m" "parts (m\<lparr>exec_log := x_exec_log\<rparr>) = parts m"
  "subs_ok (m\<lparr>exec_log := x_exec_log\<rparr>) = subs_ok m" "sched_static (m\<lparr>exec_log := x_exec_log\<rparr>) = sched_static m"
  by (simp_all add: same_parts)

lemma frame_launch [simp]:
  "running (update_launch_params m) = running m" "parts (update_launch_params m) = parts m"
  "subs_ok (update_launch_params m) = subs_ok m" "sched_static (update_launch_params m) = sched_static m"
  by (simp_all add: same_parts)

lemma sched_start_idle:
  assumes "sched_static m" and "subs_ok m" and "running m = 0" and "\<not> in_progress m" and "counters m (req m) = 0"
  shows "sched_start False m = Inr (req m,
     run_started ((update_launch_params (m\<lparr>in_progress := True\<rparr>))\<lparr>counters := (counters m)(req m := parts m + 1)\<rparr>))"
proof -
  define m1 where "m1 = update_launch_params (m\<lparr>in_progress := True\<rparr>)"
  have m1: "subs_ok m1" "running m1 = 0" "has_comm m1" "counters m1 = counters m" "req m1 = req m"
    "length (sub_counters m1) = length (sub_counters m)" "sched_static (m1\<lparr>sub_counters := replicate (length (sub_counters m1)) 2\<rparr>)"
    using assms by (auto simp: m1_def same_parts)
  have "reset_request (m1\<lparr>sub_counters := replicate (length (sub_counters m1)) 2\<rparr>) =
     Inr (m1\<lparr>sub_counters := replicate (length (sub_counters m1)) 2, counters := (counters m)(req m := parts m + 1)\<rparr>)"
    unfolding reset_request_def
    by (subst set_request_counter_ok) (use m1 assms(5) in \<open>simp_all add: parts_def\<close>)
  moreover have "preprocess False m = Inr (None, m1)" using assms(4) by (simp add: preprocess_def m1_def)
  ultimately show ?thesis
    using m1 prepare_exec(2) [OF m1(1,2)] prepare_exec(3) [OF m1(1,2)]
    by (simp add: sched_start_def run_started_def m1_def [symmetric] calls_per_run_def)
qed

lemma sched_start_busy:
  assumes "sched_static m" and "in_progress m"
  shows "sched_start False m = Inr (next_req m,
     m\<lparr>next_req := Suc (next_req m), counters := (counters m)(next_req m := parts m + 1),
       delayed_requests := delayed_requests m @ [next_req m]\<rparr>)"
proof -
  let ?m = "m\<lparr>next_req := Suc (next_req m), counters := (counters m)(next_req m := 0)\<rparr>"
  have "set_request_counter (next_req m) ?m = Inr (?m\<lparr>counters := (counters ?m)(next_req m := parts ?m + 1)\<rparr>)"
    by (rule set_request_counter_ok) (use assms in \<open>simp_all add: sched_static_def\<close>)
  with assms(2) show ?thesis
    by (simp add: sched_start_def preprocess_def make_delayed_request_def new_request_def parts_def)
qed

lemma restart_start_ok:
  assumes "sched_static m" and "subs_ok m" and "running m = 0" and "delayed_requests m = r # rs"
  shows "restart_start m = Inr (run_started
     (update_launch_params (m\<lparr>delayed_requests := rs, req := r, in_progress := True\<rparr>)))"
proof -
  define m1 where "m1 = update_launch_params (m\<lparr>delayed_requests := rs, req := r, in_progress := True\<rparr>)"
  have m1: "subs_ok m1" "running m1 = 0" "has_comm m1" "top_level_sched m"
    using assms by (auto simp: m1_def same_parts)
  have "preprocess True m = Inr (None, m1)"
    using assms(4) by (simp add: preprocess_def m1_def update_active_request_def get_delayed_request_def)
  with m1 prepare_exec(1) [OF m1(1,2)] show ?thesis
    by (auto simp: restart_start_def sched_start_def m1_def [symmetric] prepare_exec(2) [OF m1(1,2)])
qed

section \<open>Invariant\<close>

text \<open>The steps that finish a run before its request is completed.\<close>

definition active :: "final list \<Rightarrow> final list" where
  "active fs = filter (\<lambda>f. case f of F_complete _ \<Rightarrow> False | _ \<Rightarrow> True) fs"

definition completing :: "final list \<Rightarrow> rid list" where
  "completing fs = concat (map (\<lambda>f. case f of F_complete r \<Rightarrow> [r] | _ \<Rightarrow> []) fs)"

lemma finals_simps [simp]:
  "active [] = []" "active (fs @ gs) = active fs @ active gs"
  "active (F_check r # gs) = F_check r # active gs" "active (F_restart r # gs) = F_restart r # active gs"
  "active (F_complete r # gs) = active gs"
  "completing [] = []" "completing (fs @ gs) = completing fs @ completing gs"
  "completing (F_check r # gs) = completing gs" "completing (F_restart r # gs) = completing gs"
  "completing (F_complete r # gs) = r # completing gs"
  by (simp_all add: active_def completing_def)

text \<open>The operations handed to the executor are the first ones of the user, the others wait in order.\<close>

definition jobs_inv :: "'p sys \<Rightarrow> bool" where
  "jobs_inv s \<longleftrightarrow> (let m = master s in
     \<exists>ps. length ps = length (delayed_requests m) \<and> jobs s = exec_log m @ zip (delayed_requests m) ps \<and>
       (case creating s of
          None \<Rightarrow> launch_params m = ps
        | Some p \<Rightarrow> launch_params m = ps @ [p] \<or>
            launch_params m = [] \<and> delayed_requests m = [] \<and> \<not> in_progress m \<and> coll_param m = p))"

definition ids_inv :: "'p sys \<Rightarrow> bool" where
  "ids_inv s \<longleftrightarrow> (let m = master s in
     distinct (map fst (exec_log m) @ delayed_requests m) \<and> req m < next_req m \<and>
     (\<forall>r \<in> set (map fst (exec_log m) @ delayed_requests m). r < next_req m))"

definition mode_inv :: "'p sys \<Rightarrow> bool" where
  "mode_inv s \<longleftrightarrow> (let m = master s in
     if in_progress m then
       exec_log m \<noteq> [] \<and> last (exec_log m) = (req m, coll_param m) \<and>
       counters m (req m) = int (running m) + 1 \<and>
       (if running m = 0 then active (finals s) = [F_check (req m)] \<or> active (finals s) = [F_restart (req m)] \<and> delayed_requests m \<noteq> []
        else active (finals s) = [])
     else running m = 0 \<and> active (finals s) = [] \<and> delayed_requests m = [] \<and> counters m (req m) = 0 \<and>
       req m \<notin> fst ` set (exec_log m))"

text \<open>The runs that are over.\<close>

definition past :: "'p master_sched \<Rightarrow> rid set" where
  "past m = fst ` set (exec_log m) - (if in_progress m then {req m} else {})"

lemma past_frame [simp]:
  "past (m\<lparr>coll_param := p\<rparr>) = past m" "past (m\<lparr>counters := c\<rparr>) = past m" "past (m\<lparr>next_req := n\<rparr>) = past m"
  "past (m\<lparr>delayed_requests := d\<rparr>) = past m" "past (m\<lparr>launch_params := l\<rparr>) = past m"
  "past (m\<lparr>sub_counters := sc\<rparr>) = past m" "past (m\<lparr>exec_calls := ec\<rparr>) = past m"
  by (simp_all add: past_def)

definition counters_inv :: "'p sys \<Rightarrow> bool" where
  "counters_inv s \<longleftrightarrow> (let m = master s in
     (\<forall>r \<in> set (delayed_requests m). counters m r = parts m + 1) \<and>
     distinct (completing (finals s)) \<and> set (completing (finals s)) \<subseteq> past m \<and>
     (\<forall>r \<in> past m. counters m r = (if r \<in> set (completing (finals s)) then 1 else 0)))"

definition sys_inv :: "'p sys \<Rightarrow> bool" where
  "sys_inv s \<longleftrightarrow> sched_static (master s) \<and> subs_ok (master s) \<and> jobs_inv s \<and> ids_inv s \<and> mode_inv s \<and> counters_inv s"

lemma sys_invD:
  assumes "sys_inv s"
  shows "sched_static (master s)" "subs_ok (master s)" "jobs_inv s" "ids_inv s" "mode_inv s" "counters_inv s"
  using assms by (simp_all add: sys_inv_def)

lemma idle_delayed: "sys_inv s \<Longrightarrow> \<not> in_progress (master s) \<Longrightarrow> delayed_requests (master s) = []"
  by (simp add: sys_inv_def mode_inv_def Let_def)

lemma create_inv:
  assumes inv: "sys_inv s" and cr: "creating s = None"
  shows "\<exists>m. add_launch_params p (master s) = Inr m \<and> sys_inv (s\<lparr>master := m, creating := Some p\<rparr>)"
proof (cases "in_progress (master s)")
  case True
  let ?s = "s\<lparr>master := (master s)\<lparr>launch_params := launch_params (master s) @ [p]\<rparr>, creating := Some p\<rparr>"
  have "jobs_inv ?s" using sys_invD(3) [OF inv] cr by (simp add: jobs_inv_def Let_def)
  moreover have "ids_inv ?s" using sys_invD(4) [OF inv] by (simp add: ids_inv_def Let_def)
  moreover have "mode_inv ?s" using sys_invD(5) [OF inv] by (simp add: mode_inv_def Let_def)
  moreover have "counters_inv ?s" using sys_invD(6) [OF inv] by (simp add: counters_inv_def Let_def)
  ultimately have "sys_inv ?s" using sys_invD(1,2) [OF inv] by (simp add: sys_inv_def)
  with True show ?thesis by (simp add: add_launch_params_def)
next
  case False
  note d = idle_delayed [OF inv False]
  let ?s = "s\<lparr>master := (master s)\<lparr>coll_param := p\<rparr>, creating := Some p\<rparr>"
  have "jobs_inv ?s" using sys_invD(3) [OF inv] cr d False by (simp add: jobs_inv_def Let_def)
  moreover have "ids_inv ?s" using sys_invD(4) [OF inv] by (simp add: ids_inv_def Let_def)
  moreover have "mode_inv ?s" using sys_invD(5) [OF inv] False by (simp add: mode_inv_def Let_def)
  moreover have "counters_inv ?s" using sys_invD(6) [OF inv] by (simp add: counters_inv_def Let_def)
  ultimately have "sys_inv ?s" using sys_invD(1,2) [OF inv] by (simp add: sys_inv_def)
  with False d show ?thesis by (simp add: add_launch_params_def)
qed

lemma run_started_same [simp]:
  "req (run_started m) = req m" "counters (run_started m) = counters m"
  "next_req (run_started m) = next_req m" "coll_param (run_started m) = coll_param m"
  "in_progress (run_started m) = in_progress m" "delayed_requests (run_started m) = delayed_requests m"
  "exec_log (run_started m) = exec_log m @ [(req m, coll_param m)]"
  "launch_params (run_started m) = launch_params m"
  "parts (run_started m) = parts m" "running (run_started m) = length (sub_counters m)"
  "subs_ok (run_started m)" "sched_static m \<Longrightarrow> sched_static (run_started m)"
  by (auto simp: run_started_def same_parts)

lemma start_busy_inv:
  assumes inv: "sys_inv s" and cr: "creating s = Some p" and busy: "in_progress (master s)"
    and m: "m = (master s)\<lparr>next_req := Suc (next_req (master s)),
       counters := (counters (master s))(next_req (master s) := parts (master s) + 1),
       delayed_requests := delayed_requests (master s) @ [next_req (master s)]\<rparr>"
  shows "sys_inv (s\<lparr>master := m, creating := None, jobs := jobs s @ [(next_req (master s), p)]\<rparr>)"
proof -
  let ?m = "master s" and ?n = "next_req (master s)"
  let ?s = "s\<lparr>master := m, creating := None, jobs := jobs s @ [(?n, p)]\<rparr>"
  have fresh: "?n \<notin> fst ` set (exec_log ?m)" "?n \<notin> set (delayed_requests ?m)" "req ?m \<noteq> ?n"
    using sys_invD(4) [OF inv] by (auto simp: ids_inv_def Let_def)
  obtain ps where ps: "length ps = length (delayed_requests ?m)" "jobs s = exec_log ?m @ zip (delayed_requests ?m) ps"
    "launch_params ?m = ps @ [p]"
    using inv cr busy by (auto simp: sys_inv_def jobs_inv_def Let_def)
  then have "jobs_inv ?s" by (auto simp: jobs_inv_def m Let_def intro!: exI [of _ "ps @ [p]"])
  moreover have "ids_inv ?s" using sys_invD(4) [OF inv] fresh by (auto simp: ids_inv_def m Let_def less_Suc_eq)
  moreover have "mode_inv ?s"
    using sys_invD(5) [OF inv] fresh busy by (auto simp: mode_inv_def m Let_def split: if_splits)
  moreover have "?n \<notin> past ?m" using fresh by (auto simp: past_def m)
  then have "counters_inv ?s"
    using sys_invD(6) [OF inv] fresh(2) by (auto simp: counters_inv_def m Let_def)
  ultimately show ?thesis using sys_invD(1,2) [OF inv] by (simp add: sys_inv_def m)
qed

lemma launched_params:
  assumes "launch_params m = p # ps \<or> launch_params m = [] \<and> ps = [] \<and> coll_param m = p"
  shows "coll_param (update_launch_params m) = p" and "launch_params (update_launch_params m) = ps"
  using assms by (auto simp: update_launch_params_def)

lemma start_idle_inv:
  assumes inv: "sys_inv s" and cr: "creating s = Some p" and idle: "\<not> in_progress (master s)"
    and m: "m = run_started ((update_launch_params ((master s)\<lparr>in_progress := True\<rparr>))
       \<lparr>counters := (counters (master s))(req (master s) := parts (master s) + 1)\<rparr>)"
  shows "sys_inv (s\<lparr>master := m, creating := None, jobs := jobs s @ [(req (master s), p)]\<rparr>)"
proof -
  let ?m = "master s" and ?s = "s\<lparr>master := m, creating := None, jobs := jobs s @ [(req (master s), p)]\<rparr>"
  have d: "delayed_requests ?m = []" "running ?m = 0" "active (finals s) = []" "req ?m \<notin> fst ` set (exec_log ?m)"
    using sys_invD(5) [OF inv] idle by (simp_all add: mode_inv_def Let_def)
  have "launch_params ?m = [p] \<or> launch_params ?m = [] \<and> coll_param ?m = p" "jobs s = exec_log ?m"
    using sys_invD(3) [OF inv] cr d(1) by (auto simp: jobs_inv_def Let_def)
  with launched_params [of "?m\<lparr>in_progress := True\<rparr>" p "[]"]
  have lp: "coll_param m = p" "launch_params m = []" "exec_log m = exec_log ?m @ [(req ?m, p)]" "jobs s = exec_log ?m"
    by (auto simp: m)
  have "jobs_inv ?s" using lp d by (simp add: jobs_inv_def m Let_def)
  moreover have "ids_inv ?s" using sys_invD(4) [OF inv] d lp(3) by (auto simp: ids_inv_def Let_def m)
  moreover have "mode_inv ?s"
    using sys_invD(1) [OF inv] d lp by (simp add: mode_inv_def Let_def m parts_def sched_static_def)
  moreover have "past m = past ?m" "req ?m \<notin> past ?m"
    using lp(3) d(4) idle by (auto simp: past_def m)
  then have "counters_inv ?s"
    using sys_invD(6) [OF inv] d(1) by (auto simp: counters_inv_def Let_def m)
  ultimately show ?thesis using sys_invD(1,2) [OF inv] by (simp add: sys_inv_def m)
qed

lemma start_inv:
  assumes inv: "sys_inv s" and cr: "creating s = Some p"
  shows "\<exists>r m. sched_start False (master s) = Inr (r, m) \<and>
     sys_inv (s\<lparr>master := m, creating := None, jobs := jobs s @ [(r, p)]\<rparr>)"
proof (cases "in_progress (master s)")
  case True
  then show ?thesis
    using sched_start_busy [OF sys_invD(1) [OF inv] True] start_busy_inv [OF inv cr True refl] by auto
next
  case False
  have "running (master s) = 0" "counters (master s) (req (master s)) = 0"
    using sys_invD(5) [OF inv] False by (simp_all add: mode_inv_def Let_def)
  then show ?thesis
    using sched_start_idle [OF sys_invD(1,2) [OF inv]] start_idle_inv [OF inv cr False refl] False by auto
qed

lemma check_inv:
  assumes inv: "sys_inv s" and fs: "finals s = fs @ F_check r # gs"
    and c: "check_delayed_requests (master s) = (b, m)"
  shows "sys_inv (s\<lparr>master := m, finals := fs @ (if b then F_restart r else F_complete r) # gs\<rparr>)"
proof -
  let ?m = "master s" and ?s = "s\<lparr>master := m, finals := fs @ (if b then F_restart r else F_complete r) # gs\<rparr>"
  have mode: "in_progress ?m" "running ?m = 0" "r = req ?m" "active fs = []" "active gs = []"
    "counters ?m r = 1" "exec_log ?m \<noteq> []" "last (exec_log ?m) = (req ?m, coll_param ?m)"
    using sys_invD(5) [OF inv] fs by (auto simp: mode_inv_def Let_def append_eq_Cons_conv split: if_splits)
  have r: "r \<in> fst ` set (exec_log ?m)" using last_in_set [OF mode(7)] mode(3,8) by (auto intro: rev_image_eqI)
  show ?thesis
  proof (cases "delayed_requests ?m = []")
    case True
    let ?n = "next_req ?m"
    have b: "\<not> b" and m: "m = ?m\<lparr>next_req := Suc ?n, counters := (counters ?m)(?n := 0), req := ?n, in_progress := False\<rparr>"
      using c True by (auto simp: check_delayed_requests_def update_active_request_def new_request_def)
    have fresh: "?n \<notin> fst ` set (exec_log ?m)" using sys_invD(4) [OF inv] by (auto simp: ids_inv_def Let_def)
    have "jobs_inv ?s" using sys_invD(3) [OF inv] mode(1) True by (auto simp: jobs_inv_def m Let_def split: option.splits)
    moreover have "ids_inv ?s" using sys_invD(4) [OF inv] by (auto simp: ids_inv_def m Let_def less_Suc_eq)
    moreover have "mode_inv ?s" using True b mode fresh by (simp add: mode_inv_def m Let_def)
    moreover have "?n \<noteq> r" using fresh r by blast
    then have "past m = insert r (past ?m)" "r \<notin> past ?m" "?n \<notin> insert r (past ?m)"
      using mode(1,3) r fresh by (auto simp: past_def m)
    then have "counters_inv ?s"
      using sys_invD(6) [OF inv] b mode(6) True fs by (auto simp: counters_inv_def m Let_def)
    ultimately show ?thesis using sys_invD(1,2) [OF inv] by (simp add: sys_inv_def m)
  next
    case False
    then have b: "b" and m: "m = ?m" using c by (auto simp: check_delayed_requests_def)
    have "mode_inv ?s" using False b mode by (simp add: mode_inv_def m Let_def)
    moreover have "counters_inv ?s" using sys_invD(6) [OF inv] b fs by (simp add: counters_inv_def m Let_def)
    ultimately show ?thesis using sys_invD(1-4) [OF inv] by (simp add: sys_inv_def m jobs_inv_def ids_inv_def)
  qed
qed

lemma restart_inv:
  assumes inv: "sys_inv s" and fs: "finals s = fs @ F_restart r # gs"
  shows "\<exists>m. restart_start (master s) = Inr m \<and> sys_inv (s\<lparr>master := m, finals := fs @ F_complete r # gs\<rparr>)"
proof -
  let ?m = "master s"
  have mode: "in_progress ?m" "running ?m = 0" "r = req ?m" "active fs = []" "active gs = []"
    "counters ?m r = 1" "exec_log ?m \<noteq> []" "last (exec_log ?m) = (req ?m, coll_param ?m)" "delayed_requests ?m \<noteq> []"
    using sys_invD(5) [OF inv] fs by (auto simp: mode_inv_def Let_def append_eq_Cons_conv split: if_splits)
  obtain d ds where d: "delayed_requests ?m = d # ds" using mode(9) by (cases "delayed_requests ?m") auto
  obtain p ps where ps: "length ps = length ds" "jobs s = (exec_log ?m @ [(d, p)]) @ zip ds ps"
    "launch_params ?m = p # ps @ (case creating s of None \<Rightarrow> [] | Some q \<Rightarrow> [q])"
    using sys_invD(3) [OF inv] mode(1) d
    by (auto simp: jobs_inv_def Let_def length_Suc_conv split: option.splits)
  define m where "m = run_started (update_launch_params (?m\<lparr>delayed_requests := ds, req := d, in_progress := True\<rparr>))"
  let ?s = "s\<lparr>master := m, finals := fs @ F_complete r # gs\<rparr>"
  have st: "restart_start ?m = Inr m"
    unfolding m_def by (rule restart_start_ok [OF sys_invD(1,2) [OF inv] mode(2) d])
  have m: "coll_param m = p" "launch_params m = ps @ (case creating s of None \<Rightarrow> [] | Some q \<Rightarrow> [q])"
    "exec_log m = exec_log ?m @ [(d, p)]" "delayed_requests m = ds" "req m = d" "in_progress m"
    "counters m = counters ?m" "next_req m = next_req ?m" "parts m = parts ?m" "running m = length (sub_counters ?m)"
    using launched_params [of "?m\<lparr>delayed_requests := ds, req := d, in_progress := True\<rparr>" p] ps(3)
    by (auto simp: m_def)
  have r: "r \<in> fst ` set (exec_log ?m)" using last_in_set [OF mode(7)] mode(3,8) by (auto intro: rev_image_eqI)
  have ids: "d \<notin> fst ` set (exec_log ?m)" "d \<notin> set ds" using sys_invD(4) [OF inv] d by (auto simp: ids_inv_def Let_def)
  have cd: "counters ?m d = parts ?m + 1" using sys_invD(6) [OF inv] d by (simp add: counters_inv_def Let_def)
  have "jobs_inv ?s" using ps(1,2) m by (auto simp: jobs_inv_def Let_def split: option.splits)
  moreover have "ids_inv ?s" using sys_invD(4) [OF inv] d m by (auto simp: ids_inv_def Let_def)
  moreover have "mode_inv ?s"
    using sys_invD(1) [OF inv] m mode cd by (auto simp: mode_inv_def Let_def sched_static_def parts_def)
  moreover have "past m = insert r (past ?m)" "r \<notin> past ?m"
    using mode(1,3) m r ids(1) by (auto simp: past_def)
  then have "counters_inv ?s"
    using sys_invD(6) [OF inv] d mode(6) fs m by (auto simp: counters_inv_def Let_def)
  ultimately have "sys_inv ?s" using sys_invD(1,2) [OF inv] by (simp add: sys_inv_def m_def)
  with st show ?thesis by blast
qed

lemma complete_inv:
  assumes inv: "sys_inv s" and fs: "finals s = fs @ F_complete r # gs"
  shows "\<exists>m. parent_complete r (master s) = Inr m \<and> sys_inv (s\<lparr>master := m, finals := fs @ gs\<rparr>)"
proof -
  let ?m = "master s"
  define m where "m = ?m\<lparr>counters := (counters ?m)(r := 0)\<rparr>"
  let ?s = "s\<lparr>master := m, finals := fs @ gs\<rparr>"
  have c: "r \<in> past ?m" "counters ?m r = 1" "r \<notin> set (completing fs @ completing gs)"
    using sys_invD(6) [OF inv] fs by (auto simp: counters_inv_def Let_def)
  then have pc: "parent_complete r ?m = Inr m"
    by (simp add: parent_complete_def request_complete_def complete_counter_def m_def)
  have log: "r \<in> fst ` set (exec_log ?m)" "in_progress ?m \<Longrightarrow> r \<noteq> req ?m" "r \<notin> set (delayed_requests ?m)"
    using c(1) sys_invD(4) [OF inv] by (auto simp: past_def ids_inv_def Let_def split: if_splits)
  have "req ?m \<noteq> r"
    using sys_invD(5) [OF inv] log(1,2) by (cases "in_progress ?m") (auto simp: mode_inv_def Let_def)
  moreover have "active fs @ active gs = active (finals s)" by (simp add: fs)
  ultimately have "mode_inv ?s"
    using sys_invD(5) [OF inv] by (simp add: mode_inv_def Let_def m_def)
  moreover have "counters_inv ?s"
    using sys_invD(6) [OF inv] fs c log(3) by (auto simp: counters_inv_def Let_def m_def)
  moreover have "jobs_inv ?s" "ids_inv ?s"
    using sys_invD(3,4) [OF inv] by (simp_all add: jobs_inv_def ids_inv_def Let_def m_def cong: option.case_cong)
  ultimately show ?thesis using sys_invD(1,2) [OF inv] pc by (simp add: sys_inv_def m_def)
qed

lemma running_update:
  assumes "i < length (exec_calls m)" and "0 < exec_calls m ! i"
  shows "running (m\<lparr>exec_calls := (exec_calls m)[i := k]\<rparr>) + 1 = running m + (if k = 0 then 0 else 1)"
proof -
  let ?xs = "exec_calls m"
  have "?xs = take i ?xs @ ?xs ! i # drop (Suc i) ?xs" using assms(1) by (rule id_take_nth_drop)
  then have 1: "filter ((<) 0) ?xs = filter ((<) 0) (take i ?xs) @ ?xs ! i # filter ((<) 0) (drop (Suc i) ?xs)"
    using assms(2) by (metis (mono_tags, lifting) filter.simps(2) filter_append)
  have 2: "?xs[i := k] = take i ?xs @ k # drop (Suc i) ?xs" using assms(1) by (rule upd_conv_take_nth_drop)
  show ?thesis unfolding running_def using arg_cong [OF 1, of length] by (simp add: 2)
qed

lemma worker_inv:
  assumes inv: "sys_inv s" and i: "i < length (exec_calls (master s))" "0 < exec_calls (master s) ! i"
  shows "\<exists>fin m. sub_complete i (master s) = Inr (fin, m) \<and>
     sys_inv (s\<lparr>master := m\<lparr>exec_calls := (exec_calls m)[i := exec_calls m ! i - 1]\<rparr>,
               finals := finals s @ (if \<not> fin then [] else if to_cache m then [F_check (req m)] else [F_complete (req m)])\<rparr>)"
proof -
  let ?m = "master s"
  define k where "k = exec_calls ?m ! i"
  have k: "0 < k" and sc: "sub_counters ?m ! i = int k + 1" "i < length (sub_counters ?m)"
    using i sys_invD(2) [OF inv] by (auto simp: subs_ok_def call_counter_def k_def)
  have pos: "0 < running ?m" using i by (auto simp: running_def filter_empty_conv)
  then have mode: "in_progress ?m" "active (finals s) = []" "counters ?m (req ?m) = int (running ?m) + 1"
    "exec_log ?m \<noteq> []" "last (exec_log ?m) = (req ?m, coll_param ?m)"
    using sys_invD(5) [OF inv] by (auto simp: mode_inv_def Let_def split: if_splits)
  have req: "req ?m \<notin> past ?m" "req ?m \<notin> set (delayed_requests ?m)"
    using mode(1) sys_invD(4) [OF inv] last_in_set [OF mode(4)] mode(5)
    by (auto simp: past_def ids_inv_def Let_def intro: rev_image_eqI)
  define pc where "pc = (if k = 1 then int (running ?m) else int (running ?m) + 1)"
  define m where "m = ?m\<lparr>sub_counters := (sub_counters ?m)[i := call_counter (k - 1)], counters := (counters ?m)(req ?m := pc)\<rparr>"
  define m1 where "m1 = m\<lparr>exec_calls := (exec_calls m)[i := k - 1]\<rparr>"
  define fin where "fin \<longleftrightarrow> k = 1 \<and> running ?m = 1"
  have same: "(counters ?m)(req ?m := counters ?m (req ?m)) = counters ?m" by simp
  have op: "sub_complete i ?m = Inr (fin, m)"
    using k pos mode(3) same
    by (auto simp: sub_complete_def sc(1) complete_counter_def request_complete_def fin_def m_def pc_def call_counter_def throw_if_not_def)
  have run: "running m1 + 1 = running ?m + (if k = 1 then 0 else 1)"
    using running_update [OF i, of "k - 1"] k by (auto simp: m1_def m_def running_def)
  have fields: "req m1 = req ?m" "delayed_requests m1 = delayed_requests ?m" "exec_log m1 = exec_log ?m"
    "launch_params m1 = launch_params ?m" "in_progress m1 = in_progress ?m" "coll_param m1 = coll_param ?m"
    "next_req m1 = next_req ?m" "parts m1 = parts ?m" "past m1 = past ?m" "counters m1 = (counters ?m)(req ?m := pc)"
    "to_cache m = to_cache ?m" "req m = req ?m" "exec_calls m = exec_calls ?m"
    by (simp_all add: m1_def m_def parts_def)
  have cache: "to_cache ?m" using sys_invD(1) [OF inv] by (simp add: sched_static_def)
  let ?s = "s\<lparr>master := m1, finals := finals s @ (if \<not> fin then [] else [F_check (req ?m)])\<rparr>"
  have "mode_inv ?s" using run mode pos by (auto simp: mode_inv_def Let_def fields pc_def fin_def split: if_splits)
  moreover have "counters_inv ?s"
    using sys_invD(6) [OF inv] req by (auto simp: counters_inv_def Let_def fields)
  moreover have "jobs_inv ?s" "ids_inv ?s"
    using sys_invD(3,4) [OF inv] by (simp_all add: jobs_inv_def ids_inv_def Let_def fields cong: option.case_cong)
  moreover have "subs_ok m1"
    using sys_invD(2) [OF inv] by (simp add: subs_ok_def m1_def m_def map_update)
  moreover have "sched_static m1" using sys_invD(1) [OF inv] by (simp add: sched_static_def m1_def m_def)
  ultimately have "sys_inv ?s" by (simp add: sys_inv_def)
  then show ?thesis using op cache by (auto simp: m1_def fields k_def)
qed

lemma sys_step_inv:
  assumes "sys_step s r" and "sys_inv s"
  shows "\<exists>s'. r = Inr s' \<and> sys_inv s'"
  using assms(1)
proof cases
  case (create p)
  then show ?thesis using create_inv [OF assms(2), of p] by auto
next
  case (start p)
  then show ?thesis using start_inv [OF assms(2)] by auto
next
  case (worker i)
  then show ?thesis using worker_inv [OF assms(2) worker(2,3)] by (auto simp: Let_def)
next
  case (check fs r gs b m)
  then show ?thesis using check_inv [OF assms(2) check(2,3)] by auto
next
  case (restart fs r gs)
  then show ?thesis using restart_inv [OF assms(2) restart(2)] by auto
next
  case (complete fs r gs)
  then show ?thesis using complete_inv [OF assms(2) complete(2)] by auto
qed

lemma new_sched_inv:
  assumes "0 < n" and "n < 2 ^ 31 - 1"
  shows "sys_inv (new_sched n strict p)"
  using assms
  by (simp add: sys_inv_def new_sched_def sched_static_def subs_ok_def call_counter_def jobs_inv_def ids_inv_def
      mode_inv_def counters_inv_def past_def running_def)

lemma sys_reach_inv: "sys_reach s0 s \<Longrightarrow> sys_inv s0 \<Longrightarrow> sys_inv s"
  by (induction rule: sys_reach.induct) (auto dest: sys_step_inv)

text \<open>What the invariant says of the requests a user holds.\<close>

lemma completed_job:
  assumes inv: "sys_inv s" and k: "k < length (jobs s)" and comp: "counters (master s) (fst (jobs s ! k)) = 0"
  shows "k < length (exec_log (master s)) \<and>
     (Suc k = length (exec_log (master s)) \<longrightarrow> running (master s) = 0)"
proof -
  let ?m = "master s" and ?r = "fst (jobs s ! k)"
  obtain ps where ps: "length ps = length (delayed_requests ?m)" "jobs s = exec_log ?m @ zip (delayed_requests ?m) ps"
    using sys_invD(3) [OF inv] by (auto simp: jobs_inv_def Let_def)
  have in_log: "k < length (exec_log ?m)"
  proof (rule ccontr)
    assume "\<not> k < length (exec_log ?m)"
    then have "?r \<in> set (delayed_requests ?m)" using k by (auto simp: ps nth_append)
    then have "counters ?m ?r = parts ?m + 1" using sys_invD(6) [OF inv] by (simp add: counters_inv_def Let_def)
    with comp show False by (simp add: parts_def)
  qed
  have "running ?m = 0" if last: "Suc k = length (exec_log ?m)"
  proof (cases "in_progress ?m")
    case True
    have "exec_log ?m ! k = last (exec_log ?m)" using last by (metis diff_Suc_1 last_conv_nth length_0_conv nat.distinct(1))
    then have "?r = req ?m" using in_log True sys_invD(5) [OF inv] by (simp add: ps nth_append mode_inv_def Let_def)
    then show ?thesis using True comp sys_invD(5) [OF inv] by (simp add: mode_inv_def Let_def)
  qed (use sys_invD(5) [OF inv] in \<open>simp add: mode_inv_def Let_def\<close>)
  with in_log show ?thesis by blast
qed

lemma quiescent_jobs:
  assumes inv: "sys_inv s" and "finals s = []" and "running (master s) = 0"
  shows "jobs s = exec_log (master s) \<and> (\<forall>r \<in> fst ` set (jobs s). counters (master s) r = 0)"
proof -
  let ?m = "master s"
  have idle: "\<not> in_progress ?m" using sys_invD(5) [OF inv] assms(2,3) by (auto simp: mode_inv_def Let_def)
  have j: "jobs s = exec_log ?m" using sys_invD(3) [OF inv] idle_delayed [OF inv idle] by (auto simp: jobs_inv_def Let_def)
  have "past ?m = fst ` set (exec_log ?m)" using idle by (simp add: past_def)
  then show ?thesis using sys_invD(6) [OF inv] assms(2) by (simp add: counters_inv_def Let_def j)
qed

lemma running_zero_calls: "running m = 0 \<longleftrightarrow> (\<forall>c \<in> set (exec_calls m). c = 0)"
  by (auto simp: running_def filter_empty_conv)

section \<open>Properties\<close>


definition example_started :: "nat sys" where
  "example_started =
     (case rbind (sched_start False (master (new_sched 1 False 7))) (\<lambda>(r, m).
        Inr ((new_sched 1 False 7)\<lparr>master := m, creating := None, jobs := [(r, 7)]\<rparr>)) of
        Inr s \<Rightarrow> s | Inl _ \<Rightarrow> new_sched 1 False 7)"

lemma example_started_eq:
  "rbind (sched_start False (master (new_sched 1 False 7))) (\<lambda>(r, m).
     Inr ((new_sched 1 False 7)\<lparr>master := m, creating := None, jobs := [(r, 7)]\<rparr>)) = Inr example_started"
  "jobs example_started = [(0, 7)]" "exec_calls (master example_started) = [1]"
  by (simp_all add: example_started_def new_sched_def sched_start_def preprocess_def update_launch_params_def
      prepare_subscheds_def set_counter_def int32_def reset_request_def set_request_counter_def
      calculate_request_count_def exec_start_def)


end
