(* ===== verification/SchedQueue.thy ===== *)
theory SchedQueue
  imports Prelude "HOL-Library.AList"
begin

text \<open>
  The queue of a worker: \<^verbatim>\<open>src/src/sched/queue/queue.cpp\<close> and \<^verbatim>\<open>queue.hpp\<close>. Schedules of one
  priority share a bin; the queue keeps the bins by priority, the greatest priority in use
  and a pointer to its bin. A schedule is named by a number, and what the queue reads and
  writes of it is the record \<open>sched_info\<close>. A pointer to a bin is the priority of the bin. The bins are an
  association list, whose order stands for the unspecified order of the hash table.
\<close>

section \<open>State\<close>

type_synonym sid = nat

datatype ccl_priority_mode = priority_none | priority_direct | priority_lifo

datatype ccl_sched_in_bin_status = in_bin_none | in_bin_added | in_bin_erased

record sched_info =
  attr_priority :: size_t
  is_barrier_coll :: bool
  in_bin_status :: ccl_sched_in_bin_status
  in_bin :: "size_t option"

record ccl_sched_bin =
  bin_atl_ep :: size_t
  elems :: "sid list"
  bin_priority :: size_t

record ccl_sched_queue =
  atl_eps :: "size_t list"
  bins :: "(size_t \<times> ccl_sched_bin) list"
  max_priority :: size_t
  cached_max_priority_bin :: "size_t option"

type_synonym infos = "sid \<Rightarrow> sched_info"

definition CCL_PRIORITY_BUCKET_COUNT :: size_t where
  "CCL_PRIORITY_BUCKET_COUNT = 1"

definition CCL_PRIORITY_BUCKET_SIZE :: size_t where
  "CCL_PRIORITY_BUCKET_SIZE = 8"

section \<open>Operations\<close>

definition get_priority :: "ccl_priority_mode \<Rightarrow> sched_info \<Rightarrow> size_t" where
  "get_priority mode i =
     (case mode of priority_none \<Rightarrow> 0 | priority_direct \<Rightarrow> attr_priority i | priority_lifo \<Rightarrow> attr_priority i)"

definition new_queue :: "size_t list \<Rightarrow> ccl_sched_queue" where
  "new_queue eps = \<lparr>atl_eps = eps, bins = [], max_priority = 0, cached_max_priority_bin = None\<rparr>"

text \<open>\<^verbatim>\<open>ccl_sched_bin::ccl_sched_bin\<close> and \<^verbatim>\<open>ccl_sched_bin::add\<close>\<close>

definition new_bin :: "size_t \<Rightarrow> size_t \<Rightarrow> sid \<Rightarrow> ccl_sched_bin" where
  "new_bin ep p s = \<lparr>bin_atl_ep = ep, elems = [s], bin_priority = p\<rparr>"

definition bin_add :: "sid \<Rightarrow> ccl_sched_bin \<Rightarrow> ccl_sched_bin" where
  "bin_add s b = b\<lparr>elems := elems b @ [s]\<rparr>"

text \<open>\<^verbatim>\<open>ccl_sched_bin::erase\<close>: the last schedule of the bin takes the place of the erased one.\<close>

definition swap_remove :: "nat \<Rightarrow> 'a list \<Rightarrow> 'a list" where
  "swap_remove i xs = butlast (xs[i := last xs])"

definition bin_erase ::
    "nat \<Rightarrow> ccl_sched_bin \<Rightarrow> infos \<Rightarrow> (nat \<times> ccl_sched_bin \<times> infos) result" where
  "bin_erase i b im =
     throw_if_not (0 < length (elems b)) ''unexpected sched_list size''
       (let s = elems b ! i
        in Inr (length (elems b) - 1, b\<lparr>elems := swap_remove i (elems b)\<rparr>,
                im(s := (im s)\<lparr>in_bin_status := in_bin_erased, in_bin := None\<rparr>)))"

text \<open>
  \<^verbatim>\<open>ccl_sched_queue::add\<close>: with priorities in use, a barrier gets the greatest priority of
  the queue. The second function is the part under the lock of the queue.
\<close>

definition add_priority :: "ccl_priority_mode \<Rightarrow> sched_info \<Rightarrow> ccl_sched_queue \<Rightarrow> size_t \<times> sched_info" where
  "add_priority mode i q =
     (if mode \<noteq> priority_none \<and> is_barrier_coll i
      then (max_priority q, i\<lparr>attr_priority := max_priority q\<rparr>)
      else (get_priority mode i, i))"

definition queue_insert :: "ccl_priority_mode \<Rightarrow> size_t \<Rightarrow> sid \<Rightarrow> ccl_sched_queue \<Rightarrow> ccl_sched_queue" where
  "queue_insert mode p s q =
     (case map_of (bins q) p of
        Some b \<Rightarrow> q\<lparr>bins := AList.map_entry p (bin_add s) (bins q)\<rparr>
      | None \<Rightarrow>
          (let ep = (if mode = priority_none then atl_eps q ! 0
                     else atl_eps q ! unat ((p div CCL_PRIORITY_BUCKET_SIZE) mod CCL_PRIORITY_BUCKET_COUNT));
               q1 = q\<lparr>bins := (p, new_bin ep p s) # bins q\<rparr>
           in if p \<ge> max_priority q
              then q1\<lparr>max_priority := p, cached_max_priority_bin := Some p\<rparr> else q1))"

definition queue_add ::
    "ccl_priority_mode \<Rightarrow> sid \<Rightarrow> ccl_sched_queue \<Rightarrow> infos \<Rightarrow> ccl_sched_queue \<times> infos" where
  "queue_add mode s q im =
     (let (p, i) = add_priority mode (im s) q
      in (queue_insert mode p s q, im(s := i\<lparr>in_bin_status := in_bin_added, in_bin := Some p\<rparr>)))"

text \<open>
  The loop of \<^verbatim>\<open>ccl_sched_queue::erase\<close> that looks for the next lower priority in use. On
  its own it runs forever when no priority is in use.
\<close>

partial_function (option) next_max :: "(size_t \<times> ccl_sched_bin) list \<Rightarrow> size_t \<Rightarrow> size_t option" where
  [code]: "next_max bs p = (if map_of bs p = None then next_max bs (p - 1) else Some p)"

text \<open>
  The two critical sections of \<^verbatim>\<open>ccl_sched_queue::erase\<close>: the schedule leaves its bin, and
  then, under the lock of the queue, an empty bin leaves the queue.
\<close>

definition queue_erase_sched ::
    "size_t \<Rightarrow> nat \<Rightarrow> ccl_sched_queue \<Rightarrow> infos \<Rightarrow> (nat \<times> ccl_sched_queue \<times> infos) result" where
  "queue_erase_sched p i q im =
     rbind (bin_erase i (the (map_of (bins q) p)) im) (\<lambda>(sz, b, im1).
       Inr (sz, q\<lparr>bins := AList.map_entry p (\<lambda>_. b) (bins q)\<rparr>, im1))"

definition queue_drop_bin :: "size_t \<Rightarrow> ccl_sched_queue \<Rightarrow> ccl_sched_queue option" where
  "queue_drop_bin p q =
     (if elems (the (map_of (bins q) p)) = [] then
        (let q1 = q\<lparr>bins := AList.delete p (bins q)\<rparr>
         in if bins q1 = [] then Some (q1\<lparr>max_priority := 0, cached_max_priority_bin := None\<rparr>)
            else if p = max_priority q then
              map_option (\<lambda>m. q1\<lparr>max_priority := m, cached_max_priority_bin := Some m\<rparr>)
                (next_max (bins q1) (max_priority q - 1))
            else Some q1)
      else Some q)"

text \<open>\<^verbatim>\<open>None\<close> is a call that does not return.\<close>

definition queue_erase ::
    "size_t \<Rightarrow> nat \<Rightarrow> ccl_sched_queue \<Rightarrow> infos \<Rightarrow> (ccl_sched_queue \<times> infos) result option" where
  "queue_erase p i q im =
     (case queue_erase_sched p i q im of
        Inl err \<Rightarrow> Some (Inl err)
      | Inr (sz, q1, im1) \<Rightarrow>
          if sz = 0 then map_option (\<lambda>q2. Inr (q2, im1)) (queue_drop_bin p q1)
          else Some (Inr (q1, im1)))"

definition queue_peek :: "ccl_sched_queue \<Rightarrow> size_t option" where
  "queue_peek q = cached_max_priority_bin q"

definition queue_peek_all :: "ccl_sched_queue \<Rightarrow> size_t list" where
  "queue_peek_all q = map fst (bins q)"

definition queue_clear :: "ccl_sched_queue \<Rightarrow> ccl_sched_queue" where
  "queue_clear q = q\<lparr>cached_max_priority_bin := None, bins := [], max_priority := 0\<rparr>"

section \<open>Removing by swapping with the last element\<close>

lemma swap_remove_length: "i < length xs \<Longrightarrow> length (swap_remove i xs) = length xs - 1"
  by (simp add: swap_remove_def)

lemma swap_remove_append: "swap_remove i (xs @ [x]) = (if i < length xs then xs[i := x] else xs)"
  by (auto simp: swap_remove_def list_update_append butlast_append split: nat.splits)

lemma swap_remove_mset:
  assumes "i < length xs"
  shows "mset (swap_remove i xs) = mset xs - {#xs ! i#}"
proof (cases xs rule: rev_cases)
  case (snoc ys y)
  with assms show ?thesis
    by (cases "i < length ys") (auto simp: swap_remove_append mset_update nth_append)
qed (use assms in simp)

lemma swap_remove_nth:
  assumes "i < length xs" and "j < length xs - 1"
  shows "swap_remove i xs ! j = (if j = i then last xs else xs ! j)"
  using assms by (simp add: swap_remove_def nth_butlast)

section \<open>The search for the next priority\<close>

lemma word_le_pred:
  fixes x y :: "'a::len word"
  assumes "x < y"
  shows "x \<le> y - 1" and "y - 1 \<le> y"
proof -
  have "y \<noteq> 0" using assms by auto
  with assms show "x \<le> y - 1" and "y - 1 \<le> y"
    by (auto simp: word_le_nat_alt word_less_nat_alt unat_minus_one)
qed

lemma next_max_found:
  assumes "map_of bs m \<noteq> None" and "m \<le> p" and "\<And>k. map_of bs k \<noteq> None \<Longrightarrow> k \<le> p \<Longrightarrow> k \<le> m"
  shows "next_max bs p = Some m"
  using assms(2,3)
proof (induction "unat (p - m)" arbitrary: p)
  case 0
  then have "p = m" by (simp add: unat_eq_0)
  with assms(1) show ?case by (subst next_max.simps) auto
next
  case (Suc d)
  from Suc.hyps(2) have ne: "p \<noteq> m" by auto
  with Suc.prems(1) have lt: "m < p" by simp
  then have "\<not> p \<le> m" by simp
  with Suc.prems(2) [of p] have none: "map_of bs p = None" by (cases "map_of bs p") auto
  have nz: "p - m \<noteq> 0" using ne by simp
  have "unat (p - 1 - m) = unat (p - m) - 1"
    using unat_minus_one [OF nz] by (simp add: algebra_simps)
  with Suc.hyps(2) have d: "d = unat (p - 1 - m)" by simp
  note le = word_le_pred [OF lt]
  have "k \<le> m" if "map_of bs k \<noteq> None" "k \<le> p - 1" for k
    using Suc.prems(2) [OF that(1)] that(2) le(2) by auto
  then have "next_max bs (p - 1) = Some m" using Suc.hyps(1) [OF d le(1)] by blast
  with none show ?case by (subst next_max.simps) simp
qed

section \<open>Invariant of the queue\<close>

definition bins_max :: "ccl_sched_queue \<Rightarrow> bool" where
  "bins_max q \<longleftrightarrow>
     (if bins q = [] then max_priority q = 0 \<and> cached_max_priority_bin q = None
      else cached_max_priority_bin q = Some (max_priority q) \<and> max_priority q \<in> fst ` set (bins q) \<and>
           (\<forall>p \<in> fst ` set (bins q). p \<le> max_priority q))"

definition content :: "ccl_sched_queue \<Rightarrow> size_t \<Rightarrow> sid list" where
  "content q p = (case map_of (bins q) p of None \<Rightarrow> [] | Some b \<Rightarrow> elems b)"

definition queue_inv :: "ccl_sched_queue \<Rightarrow> infos \<Rightarrow> bool" where
  "queue_inv q im \<longleftrightarrow>
     distinct (map fst (bins q)) \<and> bins_max q \<and>
     (\<forall>p. distinct (content q p)) \<and>
     (\<forall>s p. in_bin (im s) = Some p \<longleftrightarrow> s \<in> set (content q p))"

text \<open>Every bin has a schedule, except a bin whose removal is pending.\<close>

definition bins_used :: "size_t option \<Rightarrow> ccl_sched_queue \<Rightarrow> bool" where
  "bins_used pend q \<longleftrightarrow>
     (\<forall>p \<in> fst ` set (bins q). content q p = [] \<longrightarrow> pend = Some p) \<and>
     (\<forall>p. pend = Some p \<longrightarrow> p \<in> fst ` set (bins q))"

lemma map_of_keys: "map_of bs p \<noteq> None \<longleftrightarrow> p \<in> fst ` set bs"
  by (simp add: map_of_eq_None_iff)

lemma map_entry_keys: "map fst (AList.map_entry k f bs) = map fst bs"
  by (induction bs) auto

lemma map_entry_keyset: "fst ` set (AList.map_entry k f bs) = fst ` set bs"
  by (metis map_entry_keys list.set_map)

lemma map_entry_Nil: "AList.map_entry k f bs = [] \<longleftrightarrow> bs = []"
  by (cases bs) auto

lemma bins_max_map_entry:
  "bins_max (q\<lparr>bins := AList.map_entry k f (bins q)\<rparr>) = bins_max q"
  by (simp add: bins_max_def map_entry_keyset map_entry_Nil)

lemma content_map_entry:
  "content (q\<lparr>bins := AList.map_entry k f (bins q)\<rparr>) p =
     (if p = k then (case map_of (bins q) k of None \<Rightarrow> [] | Some b \<Rightarrow> elems (f b)) else content q p)"
  by (auto simp: content_def map_of_map_entry split: option.splits)

lemma queue_add_cases:
  assumes "queue_add mode s q im = (q', im')"
  obtains p i where "q' = queue_insert mode p s q"
    and "im' = im(s := i\<lparr>in_bin_status := in_bin_added, in_bin := Some p\<rparr>)"
  using assms by (auto simp: queue_add_def split: prod.splits)

lemma content_queue_insert: "content (queue_insert mode p s q) = (content q)(p := content q p @ [s])"
  by (cases "map_of (bins q) p")
    (auto simp: queue_insert_def Let_def map_of_map_entry content_def bin_add_def new_bin_def intro!: ext)

lemma queue_insert_keys: "fst ` set (bins (queue_insert mode p s q)) = insert p (fst ` set (bins q))"
  using map_of_keys [of "bins q" p]
  by (cases "map_of (bins q) p") (auto simp: queue_insert_def Let_def map_entry_keyset)

lemma queue_insert_distinct:
  "distinct (map fst (bins q)) \<Longrightarrow> distinct (map fst (bins (queue_insert mode p s q)))"
  using map_of_keys [of "bins q" p]
  by (cases "map_of (bins q) p") (auto simp: queue_insert_def Let_def map_entry_keys)

lemma queue_insert_bins_max:
  assumes "bins_max q"
  shows "bins_max (queue_insert mode p s q)"
proof (cases "map_of (bins q) p")
  case None
  with assms show ?thesis
    by (auto simp: queue_insert_def Let_def bins_max_def split: if_splits)
qed (use assms in \<open>simp add: queue_insert_def bins_max_map_entry\<close>)

lemma queue_add_inv:
  assumes add: "queue_add mode s q im = (q', im')" and inv: "queue_inv q im" and new: "in_bin (im s) = None"
  shows "queue_inv q' im'" and "bins_used pend q \<Longrightarrow> bins_used pend q'"
proof -
  obtain p i where q': "q' = queue_insert mode p s q"
    and im': "im' = im(s := i\<lparr>in_bin_status := in_bin_added, in_bin := Some p\<rparr>)"
    using queue_add_cases [OF add] by blast
  have notin: "s \<notin> set (content q k)" for k
    using inv new unfolding queue_inv_def by (metis option.distinct(1))
  have "in_bin (im' t) = Some k \<longleftrightarrow> t \<in> set (content q' k)" for t k
    using inv notin by (auto simp: q' im' content_queue_insert queue_inv_def)
  moreover have "distinct (content q' k)" for k
    using inv notin by (auto simp: q' content_queue_insert queue_inv_def)
  ultimately show "queue_inv q' im'"
    using inv queue_insert_bins_max queue_insert_distinct by (simp add: queue_inv_def q')
  show "bins_used pend q'" if "bins_used pend q"
    using that by (auto simp: bins_used_def q' content_queue_insert queue_insert_keys)
qed

lemma queue_erase_sched_ok:
  assumes inv: "queue_inv q im" and i: "i < length (content q p)"
  shows "\<exists>q1 im1. queue_erase_sched p i q im = Inr (length (content q p) - 1, q1, im1) \<and>
     content q1 = (content q)(p := swap_remove i (content q p)) \<and> queue_inv q1 im1 \<and>
     fst ` set (bins q1) = fst ` set (bins q) \<and>
     im1 = im(content q p ! i := (im (content q p ! i))\<lparr>in_bin_status := in_bin_erased, in_bin := None\<rparr>)"
proof -
  from i obtain b where b: "map_of (bins q) p = Some b" and c: "content q p = elems b"
    by (auto simp: content_def split: option.splits)
  define s where "s = elems b ! i"
  define q1 where "q1 = q\<lparr>bins := AList.map_entry p (\<lambda>_. b\<lparr>elems := swap_remove i (elems b)\<rparr>) (bins q)\<rparr>"
  define im1 where "im1 = im(s := (im s)\<lparr>in_bin_status := in_bin_erased, in_bin := None\<rparr>)"
  have er: "queue_erase_sched p i q im = Inr (length (content q p) - 1, q1, im1)"
    using i unfolding c by (auto simp: queue_erase_sched_def bin_erase_def b Let_def q1_def im1_def s_def throw_if_not_def)
  have cq: "content q1 = (content q)(p := swap_remove i (content q p))"
    by (auto simp: q1_def content_map_entry b c intro!: ext)
  have d: "distinct (content q p)" using inv by (simp add: queue_inv_def)
  have s: "s \<in> set (content q p)" using i by (simp add: c s_def)
  have ms: "mset (swap_remove i (content q p)) = mset (remove1 s (content q p))"
    using swap_remove_mset [OF i] by (simp add: c s_def)
  have ds: "distinct (swap_remove i (content q p))"
    using mset_eq_imp_distinct_iff [OF ms] d by simp
  have ss: "set (swap_remove i (content q p)) = set (content q p) - {s}"
    using mset_eq_setD [OF ms] d by simp
  have other: "s \<notin> set (content q k)" if "k \<noteq> p" for k
    using inv s that unfolding queue_inv_def by (metis option.inject)
  have "in_bin (im1 t) = Some k \<longleftrightarrow> t \<in> set (content q1 k)" for t k
    using inv other by (auto simp: im1_def cq ss queue_inv_def)
  moreover have "distinct (content q1 k)" for k using inv ds by (simp add: cq queue_inv_def)
  moreover have "bins_max q1" "distinct (map fst (bins q1))"
    using inv by (simp_all add: q1_def bins_max_map_entry map_entry_keys queue_inv_def)
  ultimately have "queue_inv q1 im1" by (simp add: queue_inv_def)
  then show ?thesis using er cq by (auto simp: q1_def map_entry_keyset im1_def s_def c)
qed

lemma content_unique:
  "queue_inv q im \<Longrightarrow> s \<in> set (content q p) \<Longrightarrow> s \<in> set (content q k) \<Longrightarrow> p = k"
  unfolding queue_inv_def by (metis option.inject)

lemma content_key: "content q p \<noteq> [] \<Longrightarrow> p \<in> fst ` set (bins q)"
  by (auto simp: content_def split: option.splits dest!: map_of_SomeD intro: rev_image_eqI)

text \<open>Removing an empty bin always returns, and finds the greatest priority that is left.\<close>

lemma queue_drop_bin_ok:
  assumes inv: "queue_inv q im" and key: "p \<in> fst ` set (bins q)"
  shows "\<exists>q1. queue_drop_bin p q = Some q1 \<and> queue_inv q1 im \<and> content q1 = content q \<and>
     fst ` set (bins q1) = fst ` set (bins q) - (if content q p = [] then {p} else {})"
proof (cases "content q p = []")
  case True
  define bs where "bs = AList.delete p (bins q)"
  have keys: "fst ` set bs = fst ` set (bins q) - {p}"
    by (metis bs_def delete_keys list.set_map set_removeAll)
  have emp: "elems (the (map_of (bins q) p)) = []"
    using True key map_of_keys [of "bins q" p] by (auto simp: content_def split: option.splits)
  have c: "content (q\<lparr>bins := bs, max_priority := m, cached_max_priority_bin := k\<rparr>) = content q"
      "content (q\<lparr>bins := bs\<rparr>) = content q" for m k
    using True by (auto simp: content_def bs_def delete_conv' intro!: ext)
  have d: "distinct (map fst bs)"
    using inv by (simp add: bs_def delete_keys distinct_removeAll queue_inv_def)
  have mx: "bins_max q" using inv by (simp add: queue_inv_def)
  from key have ne: "bins q \<noteq> []" by auto
  consider "bs = []" | "bs \<noteq> []" "p = max_priority q" | "bs \<noteq> []" "p \<noteq> max_priority q" by blast
  then show ?thesis
  proof cases
    case 1
    have "queue_drop_bin p q = Some (q\<lparr>bins := bs, max_priority := 0, cached_max_priority_bin := None\<rparr>)"
      using emp 1 by (simp add: queue_drop_bin_def bs_def [symmetric])
    moreover have "queue_inv (q\<lparr>bins := bs, max_priority := 0, cached_max_priority_bin := None\<rparr>) im"
      using inv d by (simp add: queue_inv_def c) (simp add: bins_max_def 1)
    ultimately show ?thesis using keys True by (simp add: c)
  next
    case 2
    define m where "m = Max (fst ` set bs)"
    have m: "m \<in> fst ` set bs" "k \<in> fst ` set bs \<Longrightarrow> k \<le> m" for k
      using 2(1) by (auto simp: m_def)
    have "m \<in> fst ` set (bins q)" "m \<noteq> p" using m(1) keys by simp_all
    moreover have "\<forall>k \<in> fst ` set (bins q). k \<le> p" using mx ne 2(2) by (simp add: bins_max_def)
    ultimately have lt: "m < p" by (auto simp: order.strict_iff_order)
    have "next_max bs (p - 1) = Some m"
      by (rule next_max_found) (simp_all only: map_of_keys m word_le_pred(1) [OF lt])
    then have "queue_drop_bin p q = Some (q\<lparr>bins := bs, max_priority := m, cached_max_priority_bin := Some m\<rparr>)"
      using emp 2(1) by (simp add: queue_drop_bin_def bs_def [symmetric] 2(2) [symmetric])
    moreover have "queue_inv (q\<lparr>bins := bs, max_priority := m, cached_max_priority_bin := Some m\<rparr>) im"
      using inv d 2(1) m by (simp add: queue_inv_def c bins_max_def)
    ultimately show ?thesis using keys True by (simp add: c)
  next
    case 3
    have "queue_drop_bin p q = Some (q\<lparr>bins := bs\<rparr>)"
      using emp 3 by (simp add: queue_drop_bin_def bs_def [symmetric])
    moreover have "bins_max (q\<lparr>bins := bs\<rparr>)" using mx ne 3 keys by (auto simp: bins_max_def)
    ultimately show ?thesis using d inv keys True by (simp add: c queue_inv_def)
  qed
next
  case False
  then have "queue_drop_bin p q = Some q"
    by (auto simp: queue_drop_bin_def content_def split: option.splits)
  with False inv show ?thesis by simp
qed

section \<open>The contract a worker relies on\<close>

text \<open>
  A worker looks at the bin of the greatest priority, or at all bins, and removes schedules
  that are complete. The state of the queue is paired with what the schedules know of it.
\<close>

locale priority_bins =
  fixes qinv :: "'q \<Rightarrow> bool"
    and bin_of :: "'q \<Rightarrow> size_t \<Rightarrow> sid list"
    and peek :: "'q \<Rightarrow> size_t option"
    and peek_all :: "'q \<Rightarrow> size_t list"
    and remove :: "size_t \<Rightarrow> nat \<Rightarrow> 'q \<Rightarrow> 'q result option"
  assumes peek_max: "qinv q \<Longrightarrow> peek q = Some p \<Longrightarrow> bin_of q p \<noteq> [] \<and> (\<forall>k. bin_of q k \<noteq> [] \<longrightarrow> k \<le> p)"
    and peek_none: "qinv q \<Longrightarrow> peek q = None \<Longrightarrow> bin_of q k = []"
    and peek_all_bins: "qinv q \<Longrightarrow> distinct (peek_all q) \<and> set (peek_all q) = {k. bin_of q k \<noteq> []}"
    and bins_distinct: "qinv q \<Longrightarrow> distinct (bin_of q p)"
    and bins_disjoint: "qinv q \<Longrightarrow> p \<noteq> k \<Longrightarrow> set (bin_of q p) \<inter> set (bin_of q k) = {}"
    and remove_ok: "qinv q \<Longrightarrow> i < length (bin_of q p) \<Longrightarrow>
          \<exists>q'. remove p i q = Some (Inr q') \<and> qinv q' \<and> bin_of q' = (bin_of q)(p := swap_remove i (bin_of q p))"
begin

lemma peek_iff: "qinv q \<Longrightarrow> peek q = None \<longleftrightarrow> (\<forall>k. bin_of q k = [])"
  using peek_max [of q] peek_none [of q] by (cases "peek q") auto

lemma peek_in_all: "qinv q \<Longrightarrow> peek q = Some p \<Longrightarrow> p \<in> set (peek_all q)"
  using peek_max peek_all_bins by blast

lemma remove_set:
  assumes "qinv q" and "i < length (bin_of q p)" and "remove p i q = Some (Inr q')"
  shows "(\<Union>k. set (bin_of q' k)) = (\<Union>k. set (bin_of q k)) - {bin_of q p ! i}"
proof -
  let ?s = "bin_of q p ! i"
  have q': "bin_of q' = (bin_of q)(p := swap_remove i (bin_of q p))"
    using remove_ok [OF assms(1,2)] assms(3) by auto
  have ms: "mset (swap_remove i (bin_of q p)) = mset (remove1 ?s (bin_of q p))"
    using swap_remove_mset [OF assms(2)] by simp
  have "set (swap_remove i (bin_of q p)) = set (bin_of q p) - {?s}"
    using mset_eq_setD [OF ms] bins_distinct [OF assms(1)] by simp
  moreover have "?s \<notin> set (bin_of q k)" if "k \<noteq> p" for k
    using bins_disjoint [OF assms(1), of p k] nth_mem [OF assms(2)] that by auto
  ultimately show ?thesis by (auto simp: q' split: if_splits)
qed

end

definition queue_ready :: "ccl_sched_queue \<times> infos \<Rightarrow> bool" where
  "queue_ready = (\<lambda>(q, im). queue_inv q im \<and> bins_used None q)"

lemma queue_erase_ok:
  assumes "queue_ready (q, im)" and i: "i < length (content q p)"
  shows "\<exists>q'. queue_erase p i q im = Some (Inr (q', im(content q p ! i :=
        (im (content q p ! i))\<lparr>in_bin_status := in_bin_erased, in_bin := None\<rparr>))) \<and>
     queue_ready (q', im(content q p ! i := (im (content q p ! i))\<lparr>in_bin_status := in_bin_erased, in_bin := None\<rparr>)) \<and>
     content q' = (content q)(p := swap_remove i (content q p))"
proof -
  have inv: "queue_inv q im" and used: "bins_used None q" using assms(1) by (auto simp: queue_ready_def)
  obtain q1 im1 where er: "queue_erase_sched p i q im = Inr (length (content q p) - 1, q1, im1)"
    and c: "content q1 = (content q)(p := swap_remove i (content q p))" and inv1: "queue_inv q1 im1"
    and k: "fst ` set (bins q1) = fst ` set (bins q)"
    and im1: "im1 = im(content q p ! i := (im (content q p ! i))\<lparr>in_bin_status := in_bin_erased, in_bin := None\<rparr>)"
    using queue_erase_sched_ok [OF inv i] by blast
  have "content q p \<noteq> []" using i by auto
  then have key: "p \<in> fst ` set (bins q1)" unfolding k by (rule content_key)
  have len: "length (content q1 p) = length (content q p) - 1" by (simp add: c swap_remove_length [OF i])
  have used1: "content q1 x \<noteq> []" if "x \<in> fst ` set (bins q1)" "x \<noteq> p" for x
    using used that k by (auto simp: bins_used_def c)
  show ?thesis
  proof (cases "length (content q p) - 1 = 0")
    case True
    obtain q2 where d: "queue_drop_bin p q1 = Some q2" and inv2: "queue_inv q2 im1" and c2: "content q2 = content q1"
      and k2: "fst ` set (bins q2) = fst ` set (bins q1) - {p}"
      using queue_drop_bin_ok [OF inv1 key] len True by auto
    have "bins_used None q2" using used1 by (auto simp: bins_used_def k2 c2)
    with inv2 have "queue_ready (q2, im1)" by (simp add: queue_ready_def)
    moreover have "queue_erase p i q im = Some (Inr (q2, im1))" using True er d by (simp add: queue_erase_def)
    ultimately show ?thesis using c2 by (auto simp: c im1)
  next
    case False
    have "bins_used None q1" using used1 len False by (force simp: bins_used_def)
    with inv1 have "queue_ready (q1, im1)" by (simp add: queue_ready_def)
    moreover have "queue_erase p i q im = Some (Inr (q1, im1))" using False er by (simp add: queue_erase_def)
    ultimately show ?thesis by (auto simp: c im1)
  qed
qed

interpretation pq: priority_bins queue_ready "\<lambda>(q, im). content q" "\<lambda>(q, im). queue_peek q"
    "\<lambda>(q, im). queue_peek_all q" "\<lambda>p i (q, im). queue_erase p i q im"
proof (unfold_locales; clarify?)
  fix q im p k
  assume r: "queue_ready (q, im)"
  have used: "content q k \<noteq> [] \<longleftrightarrow> k \<in> fst ` set (bins q)" for k
    using r content_key [of q k] by (auto simp: queue_ready_def bins_used_def)
  show "queue_peek q = Some p \<Longrightarrow> content q p \<noteq> [] \<and> (\<forall>k. content q k \<noteq> [] \<longrightarrow> k \<le> p)"
    using r unfolding used by (auto simp: queue_ready_def queue_inv_def bins_max_def queue_peek_def split: if_splits)
  show "queue_peek q = None \<Longrightarrow> content q k = []"
    using r used [of k] by (auto simp: queue_ready_def queue_inv_def bins_max_def queue_peek_def split: if_splits)
  show "distinct (queue_peek_all q) \<and> set (queue_peek_all q) = {k. content q k \<noteq> []}"
    using r unfolding used by (simp add: queue_peek_all_def queue_ready_def queue_inv_def)
  show "distinct (content q p)" using r by (simp add: queue_ready_def queue_inv_def)
  show "p \<noteq> k \<Longrightarrow> set (content q p) \<inter> set (content q k) = {}"
    using r content_unique by (auto simp: queue_ready_def)
next
  fix q im i p
  assume "queue_ready (q, im)" "i < length (content q p)"
  then show "\<exists>q'. queue_erase p i q im = Some (Inr q') \<and> queue_ready q' \<and>
      (case q' of (q, im) \<Rightarrow> content q) = (content q)(p := swap_remove i (content q p))"
    using queue_erase_ok by fastforce
qed

section \<open>Adding while a worker erases\<close>

text \<open>
  Threads add schedules at any time, also between the two critical sections of an erase by
  the worker; the third component is the bin whose removal is pending.
\<close>

type_synonym queue_state = "ccl_sched_queue \<times> infos \<times> size_t option"

inductive queue_step :: "ccl_priority_mode \<Rightarrow> queue_state \<Rightarrow> queue_state \<Rightarrow> bool" for mode where
  add: "in_bin (im s) = None \<Longrightarrow> queue_add mode s q im = (q', im') \<Longrightarrow>
    queue_step mode (q, im, pend) (q', im', pend)"
| erase_sched: "i < length (content q p) \<Longrightarrow> queue_erase_sched p i q im = Inr (sz, q', im') \<Longrightarrow>
    queue_step mode (q, im, None) (q', im', if sz = 0 then Some p else None)"
| drop_bin: "queue_drop_bin p q = Some q' \<Longrightarrow> queue_step mode (q, im, Some p) (q', im, None)"

inductive_cases queue_stepE: "queue_step mode st st'"

definition queue_start :: "size_t list \<Rightarrow> infos \<Rightarrow> queue_state" where
  "queue_start eps im = (new_queue eps, im, None)"

definition queue_state_inv :: "queue_state \<Rightarrow> bool" where
  "queue_state_inv = (\<lambda>(q, im, pend). queue_inv q im \<and> bins_used pend q)"

lemma queue_state_inv_start: "(\<And>s. in_bin (im s) = None) \<Longrightarrow> queue_state_inv (queue_start eps im)"
  by (simp add: queue_state_inv_def queue_start_def new_queue_def queue_inv_def bins_max_def content_def bins_used_def)

lemma queue_step_inv:
  assumes "queue_step mode st st'" and "queue_state_inv st"
  shows "queue_state_inv st'"
  using assms
proof (cases rule: queue_step.cases)
  case (add im s q q' im' pend)
  with assms(2) queue_add_inv [OF add(4) _ add(3)] show ?thesis by (simp add: queue_state_inv_def)
next
  case (erase_sched i q p im sz q' im')
  with assms(2) have inv: "queue_inv q im" and used: "bins_used None q" by (auto simp: queue_state_inv_def)
  from queue_erase_sched_ok [OF inv erase_sched(3)] erase_sched(4)
  have sz: "sz = length (content q p) - 1" and inv': "queue_inv q' im'"
    and c: "content q' = (content q)(p := swap_remove i (content q p))"
    and k: "fst ` set (bins q') = fst ` set (bins q)" by auto
  have len: "length (content q' p) = sz" by (simp add: c sz swap_remove_length [OF erase_sched(3)])
  have "content q p \<noteq> []" using erase_sched(3) by auto
  then have "p \<in> fst ` set (bins q)" by (rule content_key)
  moreover have "content q' x \<noteq> []" if "x \<in> fst ` set (bins q)" "x \<noteq> p" for x
  proof -
    have "content q x \<noteq> []" using used that(1) unfolding bins_used_def by blast
    with that(2) show ?thesis by (simp add: c)
  qed
  moreover have "content q' p \<noteq> []" if "sz \<noteq> 0" using len that by auto
  ultimately have "bins_used (if sz = 0 then Some p else None) q'"
    unfolding bins_used_def k by (metis option.inject option.distinct(1))
  with inv' erase_sched show ?thesis by (simp add: queue_state_inv_def)
next
  case (drop_bin p q q' im)
  with assms(2) have inv: "queue_inv q im" and used: "bins_used (Some p) q" by (auto simp: queue_state_inv_def)
  then have key: "p \<in> fst ` set (bins q)" by (simp add: bins_used_def)
  from queue_drop_bin_ok [OF inv key] drop_bin(3)
  have "queue_inv q' im" "content q' = content q"
    "fst ` set (bins q') = fst ` set (bins q) - (if content q p = [] then {p} else {})" by auto
  moreover from this(2,3) used have "bins_used None q'"
    unfolding bins_used_def by (cases "content q p = []") auto
  ultimately show ?thesis using drop_bin by (simp add: queue_state_inv_def)
qed

lemma queue_reachable_inv:
  "(queue_step mode)\<^sup>*\<^sup>* st st' \<Longrightarrow> queue_state_inv st \<Longrightarrow> queue_state_inv st'"
  by (induction rule: rtranclp_induct) (auto intro: queue_step_inv)

lemma bins_used_peek:
  assumes "queue_state_inv (q, im, pend)"
  shows "queue_peek q = None \<longleftrightarrow> bins q = []"
    and "queue_peek q = Some p \<Longrightarrow> p \<in> fst ` set (bins q) \<and> (\<forall>k \<in> fst ` set (bins q). k \<le> p)"
  using assms by (auto simp: queue_state_inv_def queue_inv_def bins_max_def queue_peek_def split: if_splits)

lemma pending_drop_returns:
  assumes "queue_state_inv (q, im, Some p)"
  shows "\<exists>q'. queue_drop_bin p q = Some q'"
proof -
  have "queue_inv q im" "p \<in> fst ` set (bins q)"
    using assms by (auto simp: queue_state_inv_def bins_used_def)
  then show ?thesis using queue_drop_bin_ok by blast
qed

section \<open>Properties\<close>


definition example_infos :: infos where
  "example_infos = (\<lambda>s. \<lparr>attr_priority = of_nat s, is_barrier_coll = False, in_bin_status = in_bin_none, in_bin = None\<rparr>)"


end
