(* ===== verification/Worker.thy ===== *)
theory Worker
  imports Sched SchedQueue
begin

text \<open>
  A worker: \<^verbatim>\<open>src/src/exec/thread/worker.cpp\<close> and the queue for strictly ordered starts,
  \<^verbatim>\<open>src/src/sched/queue/strict_queue.cpp\<close>. The worker makes progress on the schedules of the bin of the
  greatest priority, and from time to time on those of all bins; a schedule that is finished leaves the
  queue and is completed. Polling the transport is the parameter \<open>poll\<close>. Calls of \<^verbatim>\<open>complete\<close>
  and \<^verbatim>\<open>do_progress\<close> on schedules are recorded in \<open>completed\<close> and \<open>progressed\<close>.
\<close>

section \<open>State\<close>

record ccl_strict_sched_queue =
  strict_queue :: "sid list"
  active_queue :: "sid list"
  is_queue_empty :: bool

record ('e, 'w) ccl_worker =
  sched_queue :: ccl_sched_queue
  strict :: ccl_strict_sched_queue
  infos :: infos
  scheds :: "sid \<Rightarrow> 'e ccl_sched"
  world :: 'w
  do_work_counter :: size_t
  wait_value :: size_t
  completed :: "sid list"
  progressed :: "sid list"

definition CCL_WORKER_PROCESS_ALL_ITERS :: size_t where
  "CCL_WORKER_PROCESS_ALL_ITERS = 4096"

section \<open>The strict queue\<close>

definition strict_add :: "sid \<Rightarrow> ccl_strict_sched_queue \<Rightarrow> ccl_strict_sched_queue" where
  "strict_add s sq = sq\<lparr>strict_queue := strict_queue sq @ [s], is_queue_empty := False\<rparr>"

definition strict_clear :: "ccl_strict_sched_queue \<Rightarrow> ccl_strict_sched_queue" where
  "strict_clear sq = sq\<lparr>strict_queue := [], active_queue := [], is_queue_empty := True\<rparr>"

definition strict_peek :: "ccl_strict_sched_queue \<Rightarrow> infos \<Rightarrow> ccl_strict_sched_queue \<times> infos" where
  "strict_peek sq im =
     (if active_queue sq = [] \<and> \<not> is_queue_empty sq then
        (sq\<lparr>active_queue := strict_queue sq, strict_queue := active_queue sq, is_queue_empty := True\<rparr>,
         (\<lambda>s. if s \<in> set (strict_queue sq) then (im s)\<lparr>in_bin_status := in_bin_none\<rparr> else im s))
      else (sq, im))"

section \<open>Waiting for work\<close>

text \<open>\<^verbatim>\<open>update_wait_condition\<close> on the counter \<^verbatim>\<open>wait.value\<close>, with \<open>worker_wait\<close> from the environment.\<close>

datatype wait_update = wait_increment | wait_decrement

definition update_wait_condition :: "bool \<Rightarrow> wait_update \<Rightarrow> size_t \<Rightarrow> size_t \<Rightarrow> size_t result" where
  "update_wait_condition worker_wait type delta v =
     (if delta = 0 \<or> \<not> worker_wait then Inr v
      else case type of
        wait_increment \<Rightarrow> Inr (v + delta)
      | wait_decrement \<Rightarrow> throw_if_not (delta \<le> v) ''decrement should be less or equal'' (Inr (v - delta)))"

section \<open>Processing\<close>

definition worker_add ::
    "ccl_priority_mode \<Rightarrow> bool \<Rightarrow> bool \<Rightarrow> sid \<Rightarrow> ('e, 'w) ccl_worker \<Rightarrow> ('e, 'w) ccl_worker result" where
  "worker_add mode worker_wait strict_order s W =
     rbind (update_wait_condition worker_wait wait_increment 1 (wait_value W)) (\<lambda>v.
       let W1 = W\<lparr>wait_value := v\<rparr>
       in if strict_order then Inr (W1\<lparr>strict := strict_add s (strict W1)\<rparr>)
          else (let (q, im) = queue_add mode s (sched_queue W1) (infos W1)
                in Inr (W1\<lparr>sched_queue := q, infos := im\<rparr>)))"

definition progress_sched ::
    "('e, 'w) entry_ops \<Rightarrow> sid \<Rightarrow> ('e, 'w) ccl_worker \<Rightarrow> ('e, 'w) ccl_worker result" where
  "progress_sched ops s W =
     rbind (sched_do_progress ops (scheds W s) (world W)) (\<lambda>(sc, w).
       Inr (W\<lparr>scheds := (scheds W)(s := sc), world := w, progressed := progressed W @ [s]\<rparr>))"

text \<open>
  The loop of \<^verbatim>\<open>process_sched_bin\<close>; \<open>n\<close> is the variable \<^verbatim>\<open>bin_size\<close>. The value \<open>None\<close> is a
  call that does not return.
\<close>

function bin_loop ::
    "('e, 'w) entry_ops \<Rightarrow> size_t \<Rightarrow> nat \<Rightarrow> nat \<Rightarrow> nat \<Rightarrow> ('e, 'w) ccl_worker \<Rightarrow>
     (nat \<times> ('e, 'w) ccl_worker) result option" where
  "bin_loop ops p i n cnt W =
     (if i < n then
        let s = elems (the (map_of (bins (sched_queue W)) p)) ! i in
        case progress_sched ops s W of
          Inl err \<Rightarrow> Some (Inl err)
        | Inr W1 \<Rightarrow>
            if sched_finished (scheds W1 s) then
              (case queue_erase p i (sched_queue W1) (infos W1) of
                 None \<Rightarrow> None
               | Some (Inl err) \<Rightarrow> Some (Inl err)
               | Some (Inr (q, im)) \<Rightarrow>
                   bin_loop ops p i (n - 1) (Suc cnt)
                     (W1\<lparr>sched_queue := q, infos := im, completed := completed W1 @ [s]\<rparr>))
            else bin_loop ops p (Suc i) n cnt W1
      else Some (Inr (cnt, W)))"
  by pat_completeness auto
termination
  by (relation "measure (\<lambda>(ops, p, i, n, cnt, W). n - i)") auto

declare bin_loop.simps [simp del]

definition process_sched_bin ::
    "('w \<Rightarrow> 'w result) \<Rightarrow> ('e, 'w) entry_ops \<Rightarrow> size_t \<Rightarrow> ('e, 'w) ccl_worker \<Rightarrow>
     (nat \<times> ('e, 'w) ccl_worker) result option" where
  "process_sched_bin poll ops p W =
     (let bin_size = length (elems (the (map_of (bins (sched_queue W)) p)))
      in if bin_size = 0 then Some (Inr (0, W))
         else case poll (world W) of
                Inl err \<Rightarrow> Some (Inl err)
              | Inr w \<Rightarrow> bin_loop ops p 0 bin_size 0 (W\<lparr>world := w\<rparr>))"

fun process_bins ::
    "('w \<Rightarrow> 'w result) \<Rightarrow> ('e, 'w) entry_ops \<Rightarrow> size_t list \<Rightarrow> nat \<Rightarrow> ('e, 'w) ccl_worker \<Rightarrow>
     (nat \<times> ('e, 'w) ccl_worker) result option" where
  "process_bins poll ops [] cnt W = Some (Inr (cnt, W))"
| "process_bins poll ops (p # ps) cnt W =
     (case process_sched_bin poll ops p W of
        None \<Rightarrow> None
      | Some (Inl err) \<Rightarrow> Some (Inl err)
      | Some (Inr (c, W1)) \<Rightarrow> process_bins poll ops ps (cnt + c) W1)"

definition process_sched_queue ::
    "('w \<Rightarrow> 'w result) \<Rightarrow> ('e, 'w) entry_ops \<Rightarrow> bool \<Rightarrow> ('e, 'w) ccl_worker \<Rightarrow>
     (nat \<times> ('e, 'w) ccl_worker) result option" where
  "process_sched_queue poll ops process_all W =
     (if process_all then process_bins poll ops (queue_peek_all (sched_queue W)) 0 W
      else case queue_peek (sched_queue W) of
             None \<Rightarrow> Some (Inr (0, W))
           | Some p \<Rightarrow> process_sched_bin poll ops p W)"

text \<open>The loop of \<^verbatim>\<open>process_strict_sched_queue\<close>; the result has what is left of the active queue.\<close>

fun strict_loop ::
    "ccl_priority_mode \<Rightarrow> ('e, 'w) entry_ops \<Rightarrow> sid list \<Rightarrow> nat \<Rightarrow> ('e, 'w) ccl_worker \<Rightarrow>
     (sid list \<times> ('e, 'w) ccl_worker) result" where
  "strict_loop mode ops [] erased W = Inr ([], W)"
| "strict_loop mode ops (s # ss) erased W =
     (if in_bin_status (infos W s) = in_bin_erased then
        throw_if_not (in_bin (infos W s) = None) ''erased sched should be without bin''
          (throw_if_not (Suc erased = 1) ''only single sched in active strict queue can be erased since previous call''
            (strict_loop mode ops ss (Suc erased) (W\<lparr>completed := completed W @ [s]\<rparr>)))
      else
        rbind (if in_bin_status (infos W s) = in_bin_none then
                 throw_if_not (in_bin (infos W s) = None) ''unexpected bin''
                   (let (q, im) = queue_add mode s (sched_queue W) (infos W)
                    in Inr (W\<lparr>sched_queue := q, infos := im\<rparr>))
               else Inr W)
          (\<lambda>W1. throw_if_not (in_bin_status (infos W1 s) = in_bin_added) ''unexpected in_bin_status''
            (rbind (progress_sched ops s W1) (\<lambda>W2.
              if \<not> sched_is_strict_order_satisfied (scheds W2 s) then Inr (s # ss, W2)
              else strict_loop mode ops ss erased (W2\<lparr>completed := completed W2 @ [s]\<rparr>)))))"

definition process_strict_sched_queue ::
    "ccl_priority_mode \<Rightarrow> ('e, 'w) entry_ops \<Rightarrow> ('e, 'w) ccl_worker \<Rightarrow> ('e, 'w) ccl_worker result" where
  "process_strict_sched_queue mode ops W =
     (let (sq, im) = strict_peek (strict W) (infos W); W1 = W\<lparr>strict := sq, infos := im\<rparr>
      in if active_queue sq = [] then Inr W1
         else rbind (strict_loop mode ops (active_queue sq) 0 W1) (\<lambda>(left, W2).
                Inr (W2\<lparr>strict := (strict W2)\<lparr>active_queue := left\<rparr>\<rparr>)))"

definition do_work ::
    "ccl_priority_mode \<Rightarrow> ('w \<Rightarrow> 'w result) \<Rightarrow> ('e, 'w) entry_ops \<Rightarrow> ('e, 'w) ccl_worker \<Rightarrow>
     (nat \<times> ('e, 'w) ccl_worker) result option" where
  "do_work mode poll ops W =
     (let W1 = W\<lparr>do_work_counter := do_work_counter W + 1\<rparr>
      in case process_strict_sched_queue mode ops W1 of
           Inl err \<Rightarrow> Some (Inl err)
         | Inr W2 \<Rightarrow> process_sched_queue poll ops (do_work_counter W2 mod CCL_WORKER_PROCESS_ALL_ITERS = 0) W2)"

section \<open>One pass over a bin\<close>

lemma swap_remove_take: "i < length xs \<Longrightarrow> take i (swap_remove i xs) = take i xs"
  by (intro nth_equalityI) (auto simp: swap_remove_length swap_remove_nth)

lemma swap_remove_drop:
  assumes "i < length xs"
  shows "mset (drop i (swap_remove i xs)) = mset (drop (Suc i) xs)"
proof -
  have "mset (take i xs) + mset (drop i (swap_remove i xs)) = mset (swap_remove i xs)"
    using swap_remove_take [OF assms] by (metis append_take_drop_id mset_append)
  also have "\<dots> = mset (take i xs) + mset (drop (Suc i) xs)"
    using swap_remove_mset [OF assms] id_take_nth_drop [OF assms]
    by (metis add_mset_add_single add_mset_diff_bothsides diff_zero mset.simps(2) mset_append union_mset_add_mset_right)
  finally show ?thesis by simp
qed

lemma content_elems: "i < length (content q p) \<Longrightarrow> elems (the (map_of (bins q) p)) = content q p"
  by (auto simp: content_def split: option.splits)

lemma progress_sched_eq:
  assumes "progress_sched ops s W = Inr W1"
  shows "sched_queue W1 = sched_queue W" "infos W1 = infos W" "completed W1 = completed W"
    "progressed W1 = progressed W @ [s]" "t \<noteq> s \<Longrightarrow> scheds W1 t = scheds W t"
    "strict W1 = strict W" "wait_value W1 = wait_value W" "do_work_counter W1 = do_work_counter W"
  using assms by (auto simp: progress_sched_def result_simps)

text \<open>
  What a pass over the schedules from position \<open>i\<close> on does: \<open>ds\<close> are finished and completed, \<open>us\<close>
  are not finished and stay.
\<close>

definition bin_pass ::
    "size_t \<Rightarrow> sid list \<Rightarrow> sid list \<Rightarrow> sid list \<Rightarrow> sid list \<Rightarrow> ('e, 'w) ccl_worker \<Rightarrow> ('e, 'w) ccl_worker \<Rightarrow> bool" where
  "bin_pass p kept todo ds us W W' \<longleftrightarrow>
     mset todo = mset (ds @ us) \<and> completed W' = completed W @ ds \<and>
     (\<exists>ls. progressed W' = progressed W @ ls \<and> mset ls = mset todo) \<and>
     mset (content (sched_queue W') p) = mset (kept @ us) \<and>
     (\<forall>k. k \<noteq> p \<longrightarrow> content (sched_queue W') k = content (sched_queue W) k) \<and>
     (\<forall>s \<in> set ds. sched_finished (scheds W' s)) \<and> (\<forall>s \<in> set us. \<not> sched_finished (scheds W' s)) \<and>
     (\<forall>s. s \<notin> set todo \<longrightarrow> scheds W' s = scheds W s) \<and> queue_ready (sched_queue W', infos W')"

lemma bin_loop_pass:
  assumes "queue_ready (sched_queue W, infos W)" and "n = length (content (sched_queue W) p)"
    and "bin_loop ops p i n cnt W = Some (Inr (cnt', W'))"
  shows "\<exists>ds us. bin_pass p (take i (content (sched_queue W) p)) (drop i (content (sched_queue W) p)) ds us W W' \<and>
     cnt' = cnt + length ds"
  using assms
proof (induction "n - i" arbitrary: i n cnt W rule: less_induct)
  case (less i n cnt W)
  let ?c = "content (sched_queue W) p"
  show ?case
  proof (cases "i < n")
    case False
    with less.prems have "cnt' = cnt" "W' = W" "drop i ?c = []" "take i ?c = ?c"
      by (auto simp: bin_loop.simps [of ops p i])
    with less.prems(1) show ?thesis by (intro exI [of _ "[]"]) (simp add: bin_pass_def)
  next
    case True
    define s where "s = ?c ! i"
    have i: "i < length ?c" using True less.prems(2) by simp
    have d: "distinct ?c" using pq.bins_distinct [OF less.prems(1)] by simp
    have dr: "drop i ?c = s # drop (Suc i) ?c" using i by (simp add: Cons_nth_drop_Suc s_def)
    have sn: "s \<notin> set (drop (Suc i) ?c)" using distinct_drop [OF d, of i] by (simp add: dr)
    have el: "elems (the (map_of (bins (sched_queue W)) p)) ! i = s" by (simp add: content_elems [OF i] s_def)
    obtain W1 where W1: "progress_sched ops s W = Inr W1"
      using less.prems(3) True by (auto simp: bin_loop.simps [of ops p i] el split: sum.splits)
    note eq = progress_sched_eq [OF W1]
    show ?thesis
    proof (cases "sched_finished (scheds W1 s)")
      case True
      obtain q im where er: "queue_erase p i (sched_queue W1) (infos W1) = Some (Inr (q, im))"
        and rd: "queue_ready (q, im)" and c: "content q = (content (sched_queue W))(p := swap_remove i ?c)"
        using queue_erase_ok [OF less.prems(1) i] by (auto simp: eq)
      define W2 where "W2 = W1\<lparr>sched_queue := q, infos := im, completed := completed W1 @ [s]\<rparr>"
      have n: "n - 1 = length (content (sched_queue W2) p)"
        using less.prems(2) by (simp add: W2_def c swap_remove_length [OF i])
      have dec: "n - 1 - i < n - i" using \<open>i < n\<close> by simp
      have lp: "bin_loop ops p i (n - 1) (Suc cnt) W2 = Some (Inr (cnt', W'))"
        using less.prems(3) \<open>i < n\<close> W1 True er by (simp add: bin_loop.simps [of ops p i n] el W2_def)
      obtain ds us where b: "bin_pass p (take i (content (sched_queue W2) p)) (drop i (content (sched_queue W2) p)) ds us W2 W'"
        and cnt: "cnt' = Suc cnt + length ds"
        using less.hyps [OF dec _ n lp] rd by (auto simp: W2_def)
      have ms: "mset (drop i (content (sched_queue W2) p)) = mset (drop (Suc i) ?c)"
        by (simp add: W2_def c swap_remove_drop [OF i])
      have "s \<notin> set (drop i (content (sched_queue W2) p))" using mset_eq_setD [OF ms] sn by simp
      with b have fs: "sched_finished (scheds W' s)" using True by (simp add: bin_pass_def W2_def)
      have "bin_pass p (take i ?c) (drop i ?c) (s # ds) us W W'"
        using b fs ms mset_eq_setD [OF ms] unfolding bin_pass_def dr
        by (auto simp: W2_def eq c swap_remove_take [OF i])
      with cnt show ?thesis by (intro exI [of _ "s # ds"] exI [of _ us]) simp
    next
      case False
      have lp: "bin_loop ops p (Suc i) n cnt W1 = Some (Inr (cnt', W'))"
        using less.prems(3) \<open>i < n\<close> W1 False by (simp add: bin_loop.simps [of ops p i n] el)
      obtain ds us where b: "bin_pass p (take (Suc i) ?c) (drop (Suc i) ?c) ds us W1 W'" and cnt: "cnt' = cnt + length ds"
        using less.hyps [OF diff_less_mono2 [OF lessI \<open>i < n\<close>] _ _ lp] less.prems(1,2) by (auto simp: eq)
      with sn False have "\<not> sched_finished (scheds W' s)" by (simp add: bin_pass_def)
      then have "bin_pass p (take i ?c) (drop i ?c) ds (s # us) W W'"
        using b unfolding bin_pass_def dr by (auto simp: eq take_Suc_conv_app_nth [OF i] s_def)
      with cnt show ?thesis by blast
    qed
  qed
qed

text \<open>The pass itself always returns, and throws only what a schedule throws.\<close>

lemma bin_loop_returns:
  assumes "queue_ready (sched_queue W, infos W)" and "n = length (content (sched_queue W) p)"
  shows "bin_loop ops p i n cnt W \<noteq> None \<and>
     (\<forall>err. bin_loop ops p i n cnt W = Some (Inl err) \<longrightarrow> (\<exists>s V. progress_sched ops s V = Inl err))"
  using assms
proof (induction "n - i" arbitrary: i n cnt W rule: less_induct)
  case (less i n cnt W)
  let ?c = "content (sched_queue W) p"
  show ?case
  proof (cases "i < n")
    case False
    then show ?thesis by (simp add: bin_loop.simps [of ops p i])
  next
    case True
    define s where "s = ?c ! i"
    have i: "i < length ?c" using True less.prems(2) by simp
    have el: "elems (the (map_of (bins (sched_queue W)) p)) ! i = s" by (simp add: content_elems [OF i] s_def)
    show ?thesis
    proof (cases "progress_sched ops s W")
      case (Inl e)
      then show ?thesis using True by (auto simp: bin_loop.simps [of ops p i n] el)
    next
      case (Inr W1)
      note eq = progress_sched_eq [OF Inr]
      show ?thesis
      proof (cases "sched_finished (scheds W1 s)")
        case fin: True
        obtain q im where er: "queue_erase p i (sched_queue W1) (infos W1) = Some (Inr (q, im))"
          and rd: "queue_ready (q, im)" and c: "content q = (content (sched_queue W))(p := swap_remove i ?c)"
          using queue_erase_ok [OF less.prems(1) i] by (auto simp: eq)
        define W2 where "W2 = W1\<lparr>sched_queue := q, infos := im, completed := completed W1 @ [s]\<rparr>"
        have n: "n - 1 = length (content (sched_queue W2) p)"
          using less.prems(2) by (simp add: W2_def c swap_remove_length [OF i])
        have dec: "n - 1 - i < n - i" using True by simp
        have "bin_loop ops p i n cnt W = bin_loop ops p i (n - 1) (Suc cnt) W2"
          using True Inr fin er by (simp add: bin_loop.simps [of ops p i n] el W2_def)
        then show ?thesis using less.hyps [OF dec _ n, of "Suc cnt"] rd by (simp add: W2_def)
      next
        case False
        have "bin_loop ops p i n cnt W = bin_loop ops p (Suc i) n cnt W1"
          using True Inr False by (simp add: bin_loop.simps [of ops p i n] el)
        then show ?thesis
          using less.hyps [OF diff_less_mono2 [OF lessI True], of W1 cnt] less.prems by (simp add: eq)
      qed
    qed
  qed
qed

section \<open>One pass over the queue\<close>

text \<open>
  The contract of a pass over the schedules \<open>todo\<close>: each of them gets exactly one progress call; the
  finished ones, \<open>ds\<close>, are completed and leave their bins, the others, \<open>us\<close>, stay.
\<close>

definition queue_pass :: "sid list \<Rightarrow> sid list \<Rightarrow> sid list \<Rightarrow> ('e, 'w) ccl_worker \<Rightarrow> ('e, 'w) ccl_worker \<Rightarrow> bool" where
  "queue_pass todo ds us W W' \<longleftrightarrow>
     mset todo = mset (ds @ us) \<and> completed W' = completed W @ ds \<and>
     (\<exists>ls. progressed W' = progressed W @ ls \<and> mset ls = mset todo) \<and>
     (\<forall>k. mset (content (sched_queue W') k) = filter_mset (\<lambda>s. s \<notin> set ds) (mset (content (sched_queue W) k))) \<and>
     (\<forall>s \<in> set ds. sched_finished (scheds W' s)) \<and> (\<forall>s \<in> set us. \<not> sched_finished (scheds W' s)) \<and>
     (\<forall>s. s \<notin> set todo \<longrightarrow> scheds W' s = scheds W s) \<and> queue_ready (sched_queue W', infos W')"

lemma bin_pass_queue_pass:
  assumes ready: "queue_ready (sched_queue W, infos W)"
    and b: "bin_pass p [] (content (sched_queue W) p) ds us (W\<lparr>world := w\<rparr>) W'"
  shows "queue_pass (content (sched_queue W) p) ds us W W'"
proof -
  let ?c = "content (sched_queue W)"
  have ms: "mset (?c p) = mset (ds @ us)" using b by (simp add: bin_pass_def)
  have "distinct (?c p)" using pq.bins_distinct [OF ready] by simp
  then have "distinct (ds @ us)" using mset_eq_imp_distinct_iff [OF ms] by simp
  then have "filter (\<lambda>s. s \<notin> set ds) (ds @ us) = us"
    by (auto simp: filter_empty_conv filter_id_conv)
  then have p: "filter_mset (\<lambda>s. s \<notin> set ds) (mset (?c p)) = mset us"
    unfolding ms by (metis mset_filter)
  have k: "filter_mset (\<lambda>s. s \<notin> set ds) (mset (?c k)) = mset (?c k)" if "k \<noteq> p" for k
  proof -
    have "set (?c k) \<inter> set ds = {}" using pq.bins_disjoint [OF ready, of p k] that mset_eq_setD [OF ms] by auto
    then have "filter (\<lambda>s. s \<notin> set ds) (?c k) = ?c k" by (auto simp: filter_id_conv)
    then show ?thesis by (metis mset_filter)
  qed
  show ?thesis unfolding queue_pass_def
  proof (intro conjI allI)
    fix k show "mset (content (sched_queue W') k) = filter_mset (\<lambda>s. s \<notin> set ds) (mset (?c k))"
      using b p k [of k] by (cases "k = p") (auto simp: bin_pass_def)
  qed (use b in \<open>auto simp: bin_pass_def\<close>)
qed

lemma queue_pass_append:
  assumes a: "queue_pass t1 ds1 us1 W W1" and b: "queue_pass t2 ds2 us2 W1 W2" and "set t1 \<inter> set t2 = {}"
  shows "queue_pass (t1 @ t2) (ds1 @ ds2) (us1 @ us2) W W2"
proof -
  have sets: "set t1 = set ds1 \<union> set us1" "set t2 = set ds2 \<union> set us2"
    using a b mset_eq_setD [of t1 "ds1 @ us1"] mset_eq_setD [of t2 "ds2 @ us2"] by (auto simp: queue_pass_def)
  have keep: "scheds W2 s = scheds W1 s" if "s \<in> set t1" for s
    using b that assms(3) by (auto simp: queue_pass_def)
  obtain l1 l2 where "progressed W1 = progressed W @ l1" "mset l1 = mset t1"
    "progressed W2 = progressed W1 @ l2" "mset l2 = mset t2"
    using a b by (auto simp: queue_pass_def)
  then have "\<exists>ls. progressed W2 = progressed W @ ls \<and> mset ls = mset (t1 @ t2)"
    by (intro exI [of _ "l1 @ l2"]) simp
  moreover have "mset (content (sched_queue W2) k) =
      filter_mset (\<lambda>s. s \<notin> set (ds1 @ ds2)) (mset (content (sched_queue W) k))" for k
    using a b by (simp add: queue_pass_def filter_filter_mset conj_commute)
  ultimately show ?thesis
    using a b keep sets by (auto simp: queue_pass_def)
qed

lemma queue_pass_Nil: "queue_ready (sched_queue W, infos W) \<Longrightarrow> queue_pass [] [] [] W W"
  by (simp add: queue_pass_def)

lemma process_sched_bin_pass:
  assumes ready: "queue_ready (sched_queue W, infos W)" and ne: "content (sched_queue W) p \<noteq> []"
    and "process_sched_bin poll ops p W = Some (Inr (cnt, W'))"
  shows "\<exists>ds us. queue_pass (content (sched_queue W) p) ds us W W' \<and> cnt = length ds"
proof -
  let ?c = "content (sched_queue W) p"
  have el: "elems (the (map_of (bins (sched_queue W)) p)) = ?c" using ne by (intro content_elems [of 0]) simp
  obtain w where "bin_loop ops p 0 (length ?c) 0 (W\<lparr>world := w\<rparr>) = Some (Inr (cnt, W'))"
    using assms(3) ne by (auto simp: process_sched_bin_def el Let_def split: sum.splits)
  then have "\<exists>ds us. bin_pass p [] ?c ds us (W\<lparr>world := w\<rparr>) W' \<and> cnt = length ds"
    using bin_loop_pass [of "W\<lparr>world := w\<rparr>" "length ?c" p ops 0 0 cnt W'] ready by simp
  then show ?thesis using bin_pass_queue_pass [OF ready] by blast
qed

lemma queue_pass_cong:
  assumes "mset t = mset t'"
  shows "queue_pass t ds us W W' = queue_pass t' ds us W W'"
  using assms mset_eq_setD [OF assms] by (simp add: queue_pass_def)

lemma queue_pass_others:
  assumes ready: "queue_ready (sched_queue W, infos W)" and q: "queue_pass (content (sched_queue W) p) ds us W W1"
    and "k \<noteq> p"
  shows "mset (content (sched_queue W1) k) = mset (content (sched_queue W) k)"
proof -
  have "set ds \<subseteq> set (content (sched_queue W) p)"
    using q mset_eq_setD [of "content (sched_queue W) p" "ds @ us"] by (auto simp: queue_pass_def)
  then have "set (content (sched_queue W) k) \<inter> set ds = {}"
    using pq.bins_disjoint [OF ready, of p k] assms(3) by auto
  then have "filter (\<lambda>s. s \<notin> set ds) (content (sched_queue W) k) = content (sched_queue W) k"
    by (auto simp: filter_id_conv)
  then show ?thesis using q by (metis (no_types, lifting) mset_filter queue_pass_def)
qed

lemma process_sched_bin_returns:
  assumes "queue_ready (sched_queue W, infos W)" and "content (sched_queue W) p \<noteq> []"
  shows "process_sched_bin poll ops p W \<noteq> None"
proof -
  have el: "elems (the (map_of (bins (sched_queue W)) p)) = content (sched_queue W) p"
    using assms(2) by (intro content_elems [of 0]) simp
  show ?thesis
    using bin_loop_returns [of "W\<lparr>world := w\<rparr>" for w] assms
    by (auto simp: process_sched_bin_def el Let_def split: sum.splits)
qed

lemma process_bins_pass:
  assumes "queue_ready (sched_queue W, infos W)" and "distinct ps"
    and "\<And>p. p \<in> set ps \<Longrightarrow> content (sched_queue W) p \<noteq> []"
  shows "process_bins poll ops ps n W \<noteq> None \<and>
     (\<forall>cnt W'. process_bins poll ops ps n W = Some (Inr (cnt, W')) \<longrightarrow>
       (\<exists>ds us. queue_pass (concat (map (content (sched_queue W)) ps)) ds us W W' \<and> cnt = n + length ds))"
  using assms
proof (induction ps arbitrary: n W)
  case Nil
  then show ?case using queue_pass_Nil by fastforce
next
  case (Cons p ps)
  let ?c = "content (sched_queue W)"
  have ret: "process_sched_bin poll ops p W \<noteq> None"
    using process_sched_bin_returns [OF Cons.prems(1)] Cons.prems(3) by simp
  show ?case
  proof (cases "\<exists>c W1. process_sched_bin poll ops p W = Some (Inr (c, W1))")
    case False
    then show ?thesis using ret by (auto split: option.splits sum.splits)
  next
    case True
    then obtain c W1 where W1: "process_sched_bin poll ops p W = Some (Inr (c, W1))" by blast
    obtain ds us where q: "queue_pass (?c p) ds us W W1" and c: "c = length ds"
      using process_sched_bin_pass [OF Cons.prems(1) _ W1] Cons.prems(3) by auto
    have rd: "queue_ready (sched_queue W1, infos W1)" using q by (simp add: queue_pass_def)
    note same = queue_pass_others [OF Cons.prems(1) q]
    have notp: "k \<noteq> p" if "k \<in> set ps" for k using Cons.prems(2) that by auto
    have ne: "content (sched_queue W1) k \<noteq> []" if "k \<in> set ps" for k
      using same [OF notp [OF that]] Cons.prems(3) that by (metis list.set_intros(2) mset_zero_iff)
    have ms: "mset (concat (map (content (sched_queue W1)) ps)) = mset (concat (map ?c ps))"
      using same notp by (induction ps) auto
    have disj: "set (?c p) \<inter> set (concat (map ?c ps)) = {}"
      using pq.bins_disjoint [OF Cons.prems(1), of p] notp by fastforce
    have IH: "process_bins poll ops ps (n + c) W1 \<noteq> None"
      "process_bins poll ops ps (n + c) W1 = Some (Inr (cnt, W')) \<Longrightarrow>
         \<exists>ds us. queue_pass (concat (map ?c ps)) ds us W1 W' \<and> cnt = n + c + length ds" for cnt W'
      using Cons.IH [OF rd _ ne, of "n + c"] Cons.prems(2) unfolding queue_pass_cong [OF ms] by auto
    show ?thesis
    proof (intro conjI allI impI)
      show "process_bins poll ops (p # ps) n W \<noteq> None" using IH(1) W1 by simp
      fix cnt W' assume "process_bins poll ops (p # ps) n W = Some (Inr (cnt, W'))"
      then obtain ds2 us2 where "queue_pass (concat (map ?c ps)) ds2 us2 W1 W'" "cnt = n + c + length ds2"
        using IH(2) [of cnt W'] W1 by auto
      with queue_pass_append [OF q _ disj] c
      show "\<exists>ds us. queue_pass (concat (map ?c (p # ps))) ds us W W' \<and> cnt = n + length ds"
        by (intro exI [of _ "ds @ ds2"] exI [of _ "us @ us2"]) simp
    qed
  qed
qed

text \<open>The schedules a call of \<^verbatim>\<open>process_sched_queue\<close> looks at.\<close>

definition pass_todo :: "bool \<Rightarrow> ccl_sched_queue \<Rightarrow> sid list" where
  "pass_todo process_all q =
     (if process_all then concat (map (content q) (queue_peek_all q))
      else case queue_peek q of None \<Rightarrow> [] | Some p \<Rightarrow> content q p)"

lemma process_sched_queue_pass:
  assumes ready: "queue_ready (sched_queue W, infos W)"
  shows "process_sched_queue poll ops process_all W \<noteq> None \<and>
     (\<forall>cnt W'. process_sched_queue poll ops process_all W = Some (Inr (cnt, W')) \<longrightarrow>
       (\<exists>ds us. queue_pass (pass_todo process_all (sched_queue W)) ds us W W' \<and> cnt = length ds))"
proof (cases process_all)
  case True
  have "distinct (queue_peek_all (sched_queue W))" "\<And>p. p \<in> set (queue_peek_all (sched_queue W)) \<Longrightarrow> content (sched_queue W) p \<noteq> []"
    using pq.peek_all_bins [OF ready] by auto
  with process_bins_pass [OF ready, of _ poll ops 0] True show ?thesis
    by (simp add: process_sched_queue_def pass_todo_def)
next
  case False
  show ?thesis
  proof (cases "queue_peek (sched_queue W)")
    case None
    then show ?thesis using False queue_pass_Nil [OF ready] by (fastforce simp: process_sched_queue_def pass_todo_def)
  next
    case (Some p)
    then have "content (sched_queue W) p \<noteq> []" using pq.peek_max [OF ready] by simp
    with process_sched_bin_returns [OF ready this] process_sched_bin_pass [OF ready this] False Some
    show ?thesis by (auto simp: process_sched_queue_def pass_todo_def)
  qed
qed

section \<open>Strict order of starts\<close>

lemma queue_add_infos: "queue_add mode s q im = (q', im') \<Longrightarrow> t \<noteq> s \<Longrightarrow> im' t = im t"
  by (erule queue_add_cases) simp

definition strict_pass ::
    "sid list \<Rightarrow> sid list \<Rightarrow> sid list \<Rightarrow> ('e, 'w) ccl_worker \<Rightarrow> ('e, 'w) ccl_worker \<Rightarrow> bool" where
  "strict_pass ss dn left W W' \<longleftrightarrow>
     ss = dn @ left \<and> completed W' = completed W @ dn \<and>
     (\<forall>s \<in> set dn. in_bin_status (infos W s) = in_bin_erased \<or> sched_is_strict_order_satisfied (scheds W' s)) \<and>
     (left \<noteq> [] \<longrightarrow> \<not> sched_is_strict_order_satisfied (scheds W' (hd left))) \<and>
     (\<forall>s. s \<notin> set (dn @ take 1 left) \<longrightarrow> scheds W' s = scheds W s \<and> infos W' s = infos W s)"

lemma strict_loop_pass:
  assumes "strict_loop mode ops ss erased W = Inr (left, W')" and "distinct ss"
  shows "\<exists>dn. strict_pass ss dn left W W'"
  using assms
proof (induction ss arbitrary: erased W)
  case (Cons s ss)
  note d = Cons.prems(2)
  show ?case
  proof (cases "in_bin_status (infos W s) = in_bin_erased")
    case True
    let ?W = "W\<lparr>completed := completed W @ [s]\<rparr>"
    have "strict_loop mode ops ss (Suc erased) ?W = Inr (left, W')"
      using Cons.prems(1) True by (auto simp: result_simps)
    then obtain dn where "strict_pass ss dn left ?W W'" using Cons.IH d by auto
    then have "strict_pass (s # ss) (s # dn) left W W'" using True by (auto simp: strict_pass_def)
    then show ?thesis by blast
  next
    case False
    obtain W1 where W1: "scheds W1 = scheds W" "completed W1 = completed W" "\<And>t. t \<noteq> s \<Longrightarrow> infos W1 t = infos W t"
      and rest: "rbind (progress_sched ops s W1) (\<lambda>W2.
        if \<not> sched_is_strict_order_satisfied (scheds W2 s) then Inr (s # ss, W2)
        else strict_loop mode ops ss erased (W2\<lparr>completed := completed W2 @ [s]\<rparr>)) = Inr (left, W')"
    proof (cases "in_bin_status (infos W s) = in_bin_none")
      case True
      obtain q im where "queue_add mode s (sched_queue W) (infos W) = (q, im)" by fastforce
      with Cons.prems(1) True False queue_add_infos [OF this] show ?thesis
        by (intro that [of "W\<lparr>sched_queue := q, infos := im\<rparr>"]) (auto simp: throw_if_not_eq_Inr rbind_eq_Inr split: if_splits)
    next
      case notnone: False
      with Cons.prems(1) False show ?thesis
        by (intro that [of W]) (auto simp: throw_if_not_eq_Inr split: if_splits)
    qed
    obtain W2 where W2: "progress_sched ops s W1 = Inr W2" using rest by (auto simp: rbind_eq_Inr)
    note eq = progress_sched_eq [OF W2]
    show ?thesis
    proof (cases "sched_is_strict_order_satisfied (scheds W2 s)")
      case True
      let ?W = "W2\<lparr>completed := completed W2 @ [s]\<rparr>"
      have "strict_loop mode ops ss erased ?W = Inr (left, W')" using rest W2 True by simp
      then obtain dn where dn: "strict_pass ss dn left ?W W'" using Cons.IH d by auto
      have ns: "s \<notin> set ss" using d by simp
      have "s \<notin> set (dn @ take 1 left)" using dn ns by (auto simp: strict_pass_def dest: in_set_takeD)
      then have "scheds W' s = scheds W2 s" using dn by (simp add: strict_pass_def)
      moreover have "infos W1 t = infos W t" if "t \<in> set dn" for t
      proof (rule W1(3))
        show "t \<noteq> s" using that dn ns by (auto simp: strict_pass_def)
      qed
      ultimately have "strict_pass (s # ss) (s # dn) left W W'"
        using dn ns True eq W1 by (auto simp: strict_pass_def)
      then show ?thesis by blast
    next
      case False
      then have "left = s # ss" "W' = W2" using rest W2 by auto
      then have "strict_pass (s # ss) [] left W W'" using False eq W1 by (auto simp: strict_pass_def)
      then show ?thesis by blast
    qed
  qed
qed (auto simp: strict_pass_def)

section \<open>Properties\<close>


definition example_worker :: "(unit, unit) ccl_worker" where
  "example_worker =
     (let (q, im) = queue_add priority_none 5 (new_queue [0]) example_infos
      in \<lparr>sched_queue = q, strict = \<lparr>strict_queue = [], active_queue = [], is_queue_empty = True\<rparr>, infos = im,
          scheds = (\<lambda>_. empty_sched), world = (), do_work_counter = 0, wait_value = 0,
          completed = [], progressed = []\<rparr>)"

definition example_unit_ops :: "(unit, unit) entry_ops" where
  "example_unit_ops = \<lparr>op_start = (\<lambda>p w. Inr (complete, p, w)), op_update = (\<lambda>p w. Inr (complete, p, w)),
     update_time_expired = (\<lambda>_ _. False)\<rparr>"

lemma example_worker_ready: "queue_ready (sched_queue example_worker, infos example_worker)"
proof -
  obtain q im where a: "queue_add priority_none 5 (new_queue [0]) example_infos = (q, im)" by fastforce
  have "queue_state_inv (queue_start [0] example_infos)"
    by (rule queue_state_inv_start) (simp add: example_infos_def)
  then have "queue_inv (new_queue [0]) example_infos" "bins_used None (new_queue [0])"
    by (simp_all add: queue_state_inv_def queue_start_def)
  with queue_add_inv [OF a] have "queue_inv q im" "bins_used None q" by (simp_all add: example_infos_def)
  then show ?thesis by (simp add: example_worker_def a queue_ready_def)
qed

lemma example_worker_runs:
  "\<exists>W'. process_sched_queue Inr example_unit_ops False example_worker = Some (Inr (1, W'))"
  by (simp add: process_sched_queue_def queue_peek_def example_worker_def queue_add_def add_priority_def example_infos_def
      queue_insert_def new_queue_def get_priority_def Let_def new_bin_def process_sched_bin_def bin_loop.simps
      progress_sched_def sched_do_progress_def progress_from.simps empty_sched_def sched_finished_def
      queue_erase_def queue_erase_sched_def bin_erase_def throw_if_not_def swap_remove_def queue_drop_bin_def)



definition example_strict_worker :: "(unit, unit) ccl_worker" where
  "example_strict_worker =
     \<lparr>sched_queue = new_queue [0], strict = strict_add 3 \<lparr>strict_queue = [], active_queue = [], is_queue_empty = True\<rparr>,
      infos = example_infos, scheds = (\<lambda>_. empty_sched), world = (), do_work_counter = 0, wait_value = 0,
      completed = [], progressed = []\<rparr>"

definition example_strict_peek :: "ccl_strict_sched_queue \<times> infos" where
  "example_strict_peek = strict_peek (strict example_strict_worker) (infos example_strict_worker)"

lemma example_strict_runs:
  "\<exists>W'. process_strict_sched_queue priority_none example_unit_ops example_strict_worker = Inr W'"
  "active_queue (fst example_strict_peek) = [3]"
  by (simp_all add: process_strict_sched_queue_def example_strict_worker_def example_strict_peek_def strict_peek_def
      strict_add_def example_infos_def queue_add_def add_priority_def progress_sched_def sched_do_progress_def
      progress_from.simps empty_sched_def sched_is_strict_order_satisfied_def)


end
