(* ===== verification/Datatype.thy ===== *)
theory Datatype
  imports Prelude
begin

text \<open>
  The storage of datatypes: \<^verbatim>\<open>src/src/common/datatype/datatype.cpp\<close> and \<^verbatim>\<open>datatype.hpp\<close>. A
  datatype is named by the underlying \<^verbatim>\<open>int\<close> of the enumeration \<^verbatim>\<open>ccl::datatype\<close>; the first twelve are
  predefined, users create others with a size of their own.
\<close>

section \<open>State\<close>

type_synonym dtype_idx = int

definition last_predefined_dt :: dtype_idx where
  "last_predefined_dt = 11"

record ccl_datatype =
  m_idx :: dtype_idx
  m_size :: size_t

definition default_datatype :: ccl_datatype where
  "default_datatype = \<lparr>m_idx = 0, m_size = 1\<rparr>"

type_synonym dtype_table = "dtype_idx \<rightharpoonup> ccl_datatype \<times> string"

record ccl_datatype_storage =
  custom_idx :: dtype_idx
  predefined_table :: dtype_table
  custom_table :: dtype_table

section \<open>Operations\<close>

text \<open>\<^verbatim>\<open>operator++\<close> on the underlying \<^verbatim>\<open>int\<close>\<close>

definition next_dtype :: "dtype_idx \<Rightarrow> dtype_idx" where
  "next_dtype d = int32 (d + 1)"

definition is_predefined_datatype :: "dtype_idx \<Rightarrow> bool" where
  "is_predefined_datatype idx \<longleftrightarrow> idx \<ge> 0 \<and> idx \<le> last_predefined_dt"

definition datatype_names :: "string list" where
  "datatype_names = [''INT8'', ''UINT8'', ''INT16'', ''UINT16'', ''INT32'', ''UINT32'', ''INT64'', ''UINT64'',
     ''FLOAT16'', ''FLOAT32'', ''FLOAT64'', ''BFLOAT16'']"

definition datatype_to_string :: "dtype_idx \<Rightarrow> string" where
  "datatype_to_string d =
     (if 0 \<le> d \<and> nat d < length datatype_names then datatype_names ! nat d else ''CUSTOM_TYPE'')"

definition mk_datatype :: "dtype_idx \<Rightarrow> size_t \<Rightarrow> ccl_datatype result" where
  "mk_datatype idx sz = throw_if_not (sz > 0) ''unexpected datatype size'' (Inr \<lparr>m_idx = idx, m_size = sz\<rparr>)"

definition dtype_size :: "ccl_datatype \<Rightarrow> size_t result" where
  "dtype_size d = throw_if_not (m_size d > 0) ''non-positive datatype size'' (Inr (m_size d))"

definition create_internal ::
    "dtype_table \<Rightarrow> dtype_idx \<Rightarrow> size_t \<Rightarrow> string \<Rightarrow> dtype_table result" where
  "create_internal table idx sz name =
     throw_if_not (table idx = None) ''datatype index is busy''
       (rbind (mk_datatype idx sz) (\<lambda>d. Inr (table(idx \<mapsto> (d, name)))))"

definition get_datatype :: "dtype_idx \<Rightarrow> ccl_datatype_storage \<Rightarrow> ccl_datatype" where
  "get_datatype idx st =
     (case (if is_predefined_datatype idx then predefined_table st else custom_table st) idx of
        Some (d, _) \<Rightarrow> d | None \<Rightarrow> default_datatype)"

definition datatype_name :: "ccl_datatype \<Rightarrow> ccl_datatype_storage \<Rightarrow> string" where
  "datatype_name d st =
     (case (if is_predefined_datatype (m_idx d) then predefined_table st else custom_table st) (m_idx d) of
        Some (_, name) \<Rightarrow> name | None \<Rightarrow> ''undefined'')"

definition predefined_size :: "dtype_idx \<Rightarrow> size_t" where
  "predefined_size idx =
     (if idx = 0 then 1 else if idx = 1 then 1 else if idx = 2 then 2 else if idx = 3 then 2
      else if idx = 4 then 4 else if idx = 5 then 4 else if idx = 6 then 8 else if idx = 7 then 8
      else if idx = 8 then 2 else if idx = 9 then 4 else if idx = 10 then 8 else if idx = 11 then 2 else 0)"

definition predefined_name :: "dtype_idx \<Rightarrow> string" where
  "predefined_name idx =
     (if idx = 0 then ''int8'' else if idx = 1 then ''uint8'' else if idx = 2 then ''int16''
      else if idx = 3 then ''uint16'' else if idx = 4 then ''int32'' else if idx = 5 then ''uint32''
      else if idx = 6 then ''int64'' else if idx = 7 then ''uint64'' else if idx = 8 then ''float16''
      else if idx = 9 then ''float32'' else if idx = 10 then ''float64'' else if idx = 11 then ''bfloat16'' else '''')"

text \<open>The constructor of the storage: its loop over the predefined datatypes, with the checks of each round.\<close>

primrec fill_predefined :: "dtype_idx list \<Rightarrow> ccl_datatype_storage \<Rightarrow> ccl_datatype_storage result" where
  "fill_predefined [] st = Inr st"
| "fill_predefined (idx # ids) st =
     rbind (create_internal (predefined_table st) idx (predefined_size idx) (predefined_name idx)) (\<lambda>tab.
       let st1 = st\<lparr>predefined_table := tab\<rparr>; d = get_datatype idx st1
       in throw_if_not (m_idx d = idx) ''unexpected datatype idx''
            (rbind (dtype_size d) (\<lambda>sz. throw_if_not (sz = predefined_size idx) ''unexpected datatype size''
              (throw_if_not (datatype_name d st1 = predefined_name idx) ''unexpected datatype name''
                (fill_predefined ids st1)))))"

definition new_datatype_storage :: "ccl_datatype_storage result" where
  "new_datatype_storage =
     fill_predefined [0..last_predefined_dt]
       \<lparr>custom_idx = next_dtype last_predefined_dt, predefined_table = Map.empty, custom_table = Map.empty\<rparr>"

text \<open>The loop of \<^verbatim>\<open>create_by_datatype_size\<close> runs forever when every index is taken.\<close>

definition idx_taken :: "ccl_datatype_storage \<Rightarrow> dtype_idx \<Rightarrow> bool" where
  "idx_taken st idx \<longleftrightarrow> custom_table st idx \<noteq> None \<or> is_predefined_datatype idx"

definition next_custom :: "dtype_idx \<Rightarrow> dtype_idx" where
  "next_custom idx = (if next_dtype idx < 0 then 0 else next_dtype idx)"

partial_function (option) find_custom :: "ccl_datatype_storage \<Rightarrow> dtype_idx \<Rightarrow> dtype_idx option" where
  [code]: "find_custom st idx = (if idx_taken st idx then find_custom st (next_custom idx) else Some idx)"

fun decimal :: "nat \<Rightarrow> string" where
  "decimal n = (if n < 10 then [char_of (48 + n)] else decimal (n div 10) @ [char_of (48 + n mod 10)])"

definition custom_name :: "dtype_idx \<Rightarrow> string" where
  "custom_name idx = ''DTYPE_'' @ (if idx < 0 then ''-'' @ decimal (nat (- idx)) else decimal (nat idx))"

definition create_by_datatype_size ::
    "size_t \<Rightarrow> ccl_datatype_storage \<Rightarrow> (dtype_idx \<times> ccl_datatype_storage) result option" where
  "create_by_datatype_size sz st =
     map_option (\<lambda>idx.
       rbind (create_internal (custom_table st) idx sz (custom_name idx)) (\<lambda>tab.
         Inr (idx, st\<lparr>custom_idx := idx, custom_table := tab\<rparr>)))
       (find_custom st (custom_idx st))"

definition free_datatype :: "dtype_idx \<Rightarrow> ccl_datatype_storage \<Rightarrow> ccl_datatype_storage result" where
  "free_datatype idx st =
     (if is_predefined_datatype idx then Inl (CclThrow ''attempt to free predefined datatype'')
      else if custom_table st idx = None then Inl (CclThrow ''attempt to free non-existing datatype'')
      else Inr (st\<lparr>custom_table := (custom_table st)(idx := None)\<rparr>))"

section \<open>Invariant\<close>

definition predefined_ok :: "ccl_datatype_storage \<Rightarrow> bool" where
  "predefined_ok st \<longleftrightarrow>
     (\<forall>idx. predefined_table st idx =
        (if is_predefined_datatype idx
         then Some (\<lparr>m_idx = idx, m_size = predefined_size idx\<rparr>, predefined_name idx) else None))"

definition storage_inv :: "ccl_datatype_storage \<Rightarrow> bool" where
  "storage_inv st \<longleftrightarrow> predefined_ok st \<and> finite (dom (custom_table st)) \<and>
     0 \<le> custom_idx st \<and> custom_idx st < 2 ^ 31 \<and>
     (\<forall>idx d name. custom_table st idx = Some (d, name) \<longrightarrow>
        last_predefined_dt < idx \<and> idx < 2 ^ 31 \<and> m_idx d = idx \<and> 0 < m_size d)"

lemma fill_step:
  assumes "predefined_table st idx = None" and "is_predefined_datatype idx"
  shows "fill_predefined (idx # ids) st = fill_predefined ids
     (st\<lparr>predefined_table := (predefined_table st)(idx \<mapsto> (\<lparr>m_idx = idx, m_size = predefined_size idx\<rparr>, predefined_name idx))\<rparr>)"
proof -
  have "0 < predefined_size idx"
    using assms(2) unfolding predefined_size_def is_predefined_datatype_def last_predefined_dt_def
    by (simp, presburger)
  with assms show ?thesis
    by (simp add: create_internal_def mk_datatype_def get_datatype_def datatype_name_def dtype_size_def Let_def)
qed

lemma fill_predefined_ok:
  assumes "distinct ids" and "\<And>i. i \<in> set ids \<Longrightarrow> is_predefined_datatype i \<and> predefined_table st i = None"
  shows "fill_predefined ids st = Inr (st\<lparr>predefined_table := (\<lambda>i. if i \<in> set ids
     then Some (\<lparr>m_idx = i, m_size = predefined_size i\<rparr>, predefined_name i) else predefined_table st i)\<rparr>)"
  using assms
proof (induction ids arbitrary: st)
  case (Cons idx ids)
  let ?e = "\<lambda>i. (\<lparr>m_idx = i, m_size = predefined_size i\<rparr>, predefined_name i)"
  let ?st = "st\<lparr>predefined_table := (predefined_table st)(idx \<mapsto> ?e idx)\<rparr>"
  have "fill_predefined (idx # ids) st = fill_predefined ids ?st"
    using Cons.prems(2) by (intro fill_step) auto
  also have "\<dots> = Inr (?st\<lparr>predefined_table := (\<lambda>i. if i \<in> set ids then Some (?e i) else predefined_table ?st i)\<rparr>)"
    using Cons.prems by (intro Cons.IH) auto
  also have "(\<lambda>i. if i \<in> set ids then Some (?e i) else predefined_table ?st i) =
      (\<lambda>i. if i \<in> set (idx # ids) then Some (?e i) else predefined_table st i)" by auto
  finally show ?case by simp
qed simp

lemma new_datatype_storage_ok:
  "\<exists>st. new_datatype_storage = Inr st \<and> storage_inv st \<and> custom_table st = Map.empty"
proof -
  let ?ids = "[0..last_predefined_dt]"
  have "next_dtype last_predefined_dt = 12" by (simp add: next_dtype_def last_predefined_dt_def int32_id)
  then show ?thesis
    unfolding new_datatype_storage_def
    by (subst fill_predefined_ok) (auto simp: is_predefined_datatype_def storage_inv_def predefined_ok_def)
qed

section \<open>The search for a free index\<close>

lemma find_custom_unfold:
  "find_custom st idx = (if idx_taken st idx then find_custom st (next_custom idx) else Some idx)"
  by (rule find_custom.simps)

lemma next_custom_simps:
  "0 \<le> idx \<Longrightarrow> idx < 2 ^ 31 - 1 \<Longrightarrow> next_custom idx = idx + 1"
  "next_custom (2 ^ 31 - 1) = 0"
  by (simp_all add: next_custom_def next_dtype_def int32_id) (simp add: int32_def)

lemma find_custom_up:
  assumes "0 \<le> c" and "c \<le> f" and "f < 2 ^ 31" and "\<not> idx_taken st f"
  shows "\<exists>i. find_custom st c = Some i \<and> \<not> idx_taken st i \<and> c \<le> i \<and> i < 2 ^ 31"
  using assms(1,2)
proof (induction "nat (f - c)" arbitrary: c)
  case 0
  then have "c = f" by simp
  with assms show ?case by (subst find_custom_unfold) auto
next
  case (Suc d)
  show ?case
  proof (cases "idx_taken st c")
    case True
    have c: "next_custom c = c + 1" using Suc.hyps(2) Suc.prems assms(3) by (intro next_custom_simps(1)) auto
    have "\<exists>i. find_custom st (c + 1) = Some i \<and> \<not> idx_taken st i \<and> c + 1 \<le> i \<and> i < 2 ^ 31"
      by (rule Suc.hyps(1)) (use Suc.hyps(2) Suc.prems in auto)
    then show ?thesis using True by (subst find_custom_unfold) (auto simp: c)
  next
    case False
    then show ?thesis using Suc.prems assms(3) by (subst find_custom_unfold) auto
  qed
qed

text \<open>With a free index anywhere the search returns, wrapping around at the greatest \<^verbatim>\<open>int\<close>.\<close>

lemma find_custom_wraps:
  assumes "0 \<le> c" and "c < 2 ^ 31" and all: "\<And>i. c \<le> i \<Longrightarrow> i < 2 ^ 31 \<Longrightarrow> idx_taken st i"
  shows "find_custom st c = find_custom st 0"
  using assms
proof (induction "nat (2 ^ 31 - 1 - c)" arbitrary: c)
  case 0
  then have "c = 2 ^ 31 - 1" by simp
  with 0 show ?case by (subst find_custom_unfold) (simp add: next_custom_simps(2) [simplified])
next
  case (Suc d)
  have c: "next_custom c = c + 1" using Suc.hyps(2) Suc.prems by (intro next_custom_simps(1)) auto
  have "find_custom st (c + 1) = find_custom st 0"
    by (rule Suc.hyps(1)) (use Suc.hyps(2) Suc.prems in auto)
  then show ?case using Suc.prems by (subst find_custom_unfold) (simp add: c)
qed

lemma find_custom_returns:
  assumes "0 \<le> c" and "c < 2 ^ 31" and "0 \<le> f" and "f < 2 ^ 31" and "\<not> idx_taken st f"
  shows "\<exists>i. find_custom st c = Some i \<and> \<not> idx_taken st i \<and> 0 \<le> i \<and> i < 2 ^ 31"
proof (cases "\<exists>g. c \<le> g \<and> g < 2 ^ 31 \<and> \<not> idx_taken st g")
  case True
  then show ?thesis using find_custom_up [OF assms(1)] assms(1) by (metis order_trans)
next
  case False
  then have "find_custom st c = find_custom st 0" using assms(1,2) by (intro find_custom_wraps) auto
  then show ?thesis using find_custom_up [OF _ assms(3-5)] by auto
qed

lemma free_idx_exists:
  assumes "storage_inv st" and "card (dom (custom_table st)) < 2 ^ 31 - 12"
  shows "\<exists>f. 0 \<le> f \<and> f < 2 ^ 31 \<and> \<not> idx_taken st f"
proof (rule ccontr)
  assume none: "\<not> ?thesis"
  have "{12..<2 ^ 31} \<subseteq> dom (custom_table st)"
  proof
    fix f :: int assume "f \<in> {12..<2 ^ 31}"
    with none have "idx_taken st f" by auto
    with \<open>f \<in> _\<close> show "f \<in> dom (custom_table st)"
      by (auto simp: idx_taken_def is_predefined_datatype_def last_predefined_dt_def)
  qed
  then have "card {12..<2 ^ 31 :: int} \<le> card (dom (custom_table st))"
    using assms(1) by (intro card_mono) (simp_all add: storage_inv_def)
  with assms(2) show False by simp
qed

section \<open>Properties\<close>

lemma get_custom: "\<not> is_predefined_datatype idx \<Longrightarrow> custom_table st idx = Some (d, n) \<Longrightarrow> get_datatype idx st = d"
  by (simp add: get_datatype_def)


definition example_storage :: ccl_datatype_storage where
  "example_storage = (case new_datatype_storage of Inr st \<Rightarrow> st
     | Inl _ \<Rightarrow> \<lparr>custom_idx = 0, predefined_table = Map.empty, custom_table = Map.empty\<rparr>)"

lemma example_storage_ok: "storage_inv example_storage \<and> custom_table example_storage = Map.empty"
proof -
  obtain st where st: "new_datatype_storage = Inr st" "storage_inv st" "custom_table st = Map.empty"
    using new_datatype_storage_ok by blast
  show ?thesis unfolding example_storage_def st(1) using st(2,3) by simp
qed


end
