(* ===== verification/CollParam.thy ===== *)
theory CollParam
  imports Datatype
begin

text \<open>
  The parameters of a collective operation: \<^verbatim>\<open>src/src/coll/coll_param.cpp\<close>, the checks of
  \<^verbatim>\<open>src/src/coll/coll_check.cpp\<close> and the storage of user-defined reductions,
  \<^verbatim>\<open>src/src/coll/reduction/reduction.cpp\<close>, in the host build. Pointers are 64-bit words; of a communicator the
  parameters use the identity, the rank and the size.
\<close>

section \<open>Types\<close>

datatype ccl_coll_type =
    coll_allgather | coll_allgatherv | coll_allreduce | coll_alltoall | coll_alltoallv | coll_barrier
  | coll_bcast | coll_broadcast | coll_recv | coll_reduce | coll_reduce_scatter | coll_send
  | coll_partial | coll_undefined | coll_last_value

text \<open>\<^verbatim>\<open>ctype > ccl_coll_last_regular\<close>\<close>

definition coll_irregular :: "ccl_coll_type \<Rightarrow> bool" where
  "coll_irregular c \<longleftrightarrow> c = coll_partial \<or> c = coll_undefined \<or> c = coll_last_value"

type_synonym ptr = "64 word"

record ccl_comm =
  comm_id :: nat
  comm_rank :: nat
  comm_size :: nat

text \<open>The enumeration \<^verbatim>\<open>ccl::reduction\<close> by its underlying \<^verbatim>\<open>int\<close>\<close>

type_synonym reduction = int

definition red_sum :: reduction where "red_sum = 0"
definition red_avg :: reduction where "red_avg = 4"
definition red_custom :: reduction where "red_custom = 5"
definition red_predefined_ops :: reduction where "red_predefined_ops = 6"
definition red_max_ops :: reduction where "red_max_ops = 2 ^ 31 - 1 - 6"

record ccl_coll_attr =
  reduction_fn :: "nat option"
  priority :: size_t
  synchronous :: bool
  to_cache :: bool
  match_id :: string
  attr_group_id :: int
  is_vector_buf :: bool

record ccl_coll_param =
  ctype :: ccl_coll_type
  send_bufs :: "ptr list"
  recv_bufs :: "ptr list"
  send_counts :: "size_t list"
  recv_counts :: "size_t list"
  cnt :: size_t
  dtype :: ccl_datatype
  reduction_op :: reduction
  root :: int
  peer_rank :: int
  group_id :: int
  stream :: "nat option"
  comm :: "ccl_comm option"
  is_validate :: bool
  is_pt2pt :: bool

definition CCL_INVALID_IDX :: int where
  "CCL_INVALID_IDX = - 1"

definition empty_param :: "bool \<Rightarrow> ccl_coll_param" where
  "empty_param in_is_validate =
     \<lparr>ctype = coll_last_value, send_bufs = [], recv_bufs = [], send_counts = [], recv_counts = [], cnt = 0,
      dtype = default_datatype, reduction_op = red_sum, root = CCL_INVALID_IDX, peer_rank = CCL_INVALID_IDX,
      group_id = CCL_INVALID_IDX, stream = None, comm = None, is_validate = in_is_validate, is_pt2pt = False\<rparr>"

definition param_comm :: "ccl_coll_param \<Rightarrow> ccl_comm" where
  "param_comm p = (case comm p of Some c \<Rightarrow> c | None \<Rightarrow> \<lparr>comm_id = 0, comm_rank = 0, comm_size = 0\<rparr>)"

section \<open>User-defined reductions\<close>

definition is_custom :: "reduction \<Rightarrow> bool result" where
  "is_custom r = throw_if_not (r < red_max_ops) ''reduction type is not a valid enum'' (Inr (\<not> r < red_predefined_ops))"

definition type_to_idx :: "reduction \<Rightarrow> int" where
  "type_to_idx r = int32 (r - red_predefined_ops)"

definition idx_to_type :: "int \<Rightarrow> reduction result" where
  "idx_to_type i =
     (let r = int32 (red_predefined_ops + i)
      in throw_if_not (r < red_max_ops) ''reduction type is not a valid enum'' (Inr r))"

datatype internal_reduction = int_sum | int_prod | int_min | int_max | int_avg | int_pre_mul_sum | int_num_redops

record ccl_reduction_data =
  op_type :: internal_reduction
  scalar_arg_is_ptr :: bool
  scalar_arg :: "64 word"

type_synonym redtype_table = "(int \<times> ccl_reduction_data) list"

text \<open>The loop of \<^verbatim>\<open>create\<close>: the lowest free index up to \<open>max_index\<close>; \<open>n\<close> rounds are left.\<close>

fun lowest_free :: "redtype_table \<Rightarrow> nat \<Rightarrow> int \<Rightarrow> int option" where
  "lowest_free tab 0 idx = None"
| "lowest_free tab (Suc n) idx = (if map_of tab idx = None then Some idx else lowest_free tab n (idx + 1))"

definition redtype_create :: "ccl_reduction_data \<Rightarrow> redtype_table \<Rightarrow> (int \<times> redtype_table) result" where
  "redtype_create redop tab =
     (let max_index = red_max_ops - red_predefined_ops
      in if int32 (int (length tab)) < max_index then
           (case lowest_free tab (nat max_index) 1 of
              Some idx \<Rightarrow> Inr (idx, (idx, redop) # tab)
            | None \<Rightarrow> Inl (CclThrow ''no available slot for new custom reduction type''))
         else Inl (CclThrow ''no available slot for new custom reduction type''))"

definition redtype_free :: "int \<Rightarrow> redtype_table \<Rightarrow> redtype_table" where
  "redtype_free idx tab = filter (\<lambda>(i, _). i \<noteq> idx) tab"

definition redtype_get :: "reduction \<Rightarrow> redtype_table \<Rightarrow> ccl_reduction_data result" where
  "redtype_get r tab =
     (case map_of tab (type_to_idx r) of
        Some d \<Rightarrow> Inr d
      | None \<Rightarrow> Inl (CclThrow ''user-defined reduction type not found in the storage''))"

text \<open>
  \<^verbatim>\<open>reduction_create_pre_mul_sum_impl\<close>: \<open>scalar\<close> is the pointer, \<open>value\<close> the bytes it points to, as the copy
  of the datatype's size gives them.
\<close>

definition reduction_create_pre_mul_sum ::
    "bool \<Rightarrow> 64 word \<Rightarrow> 64 word \<Rightarrow> redtype_table \<Rightarrow> (reduction \<times> redtype_table) result" where
  "reduction_create_pre_mul_sum scalar_device scalar value tab =
     (let d = \<lparr>op_type = int_pre_mul_sum, scalar_arg_is_ptr = scalar_device,
               scalar_arg = (if scalar_device then scalar else value)\<rparr>
      in rbind (redtype_create d tab) (\<lambda>(idx, tab1).
           rbind (idx_to_type idx) (\<lambda>r. Inr (r, tab1))))"

definition reduction_destroy :: "reduction \<Rightarrow> redtype_table \<Rightarrow> redtype_table result" where
  "reduction_destroy r tab =
     rbind (is_custom r) (\<lambda>c. throw_if_not c ''cannot destroy built-in reduction type''
       (Inr (redtype_free (type_to_idx r) tab)))"

section \<open>Reading parameters\<close>

text \<open>
  An index out of range is not caught for \<^verbatim>\<open>ccl_coll_last_value\<close>; the value read then is
  unspecified in C++, here it is 0.
\<close>

definition vec_at :: "'a::zero list \<Rightarrow> nat \<Rightarrow> 'a" where
  "vec_at xs i = (if i < length xs then xs ! i else 0)"

definition get_send_buf :: "nat \<Rightarrow> ccl_coll_param \<Rightarrow> ptr result" where
  "get_send_buf i p =
     throw_if_not (i < length (send_bufs p) \<or> ctype p = coll_last_value \<and> i = length (send_bufs p)) ''unexpected idx''
       (Inr (vec_at (send_bufs p) i))"

definition get_recv_buf :: "nat \<Rightarrow> ccl_coll_param \<Rightarrow> ptr result" where
  "get_recv_buf i p = throw_if_not (i < length (recv_bufs p)) ''unexpected idx'' (Inr (recv_bufs p ! i))"

definition get_send_count :: "nat \<Rightarrow> ccl_coll_param \<Rightarrow> size_t result" where
  "get_send_count i p =
     throw_if_not (i < length (send_counts p) \<or> ctype p = coll_last_value \<and> i = length (send_counts p)) ''unexpected idx''
       (Inr (vec_at (send_counts p) i))"

definition get_recv_count :: "nat \<Rightarrow> ccl_coll_param \<Rightarrow> size_t result" where
  "get_recv_count i p = throw_if_not (i < length (recv_counts p)) ''unexpected idx'' (Inr (recv_counts p ! i))"

section \<open>Validation\<close>

definition size_is :: "'a list \<Rightarrow> ccl_coll_param \<Rightarrow> bool" where
  "size_is xs p \<longleftrightarrow> int32 (int (length xs)) = int (comm_size (param_comm p))"

definition validate_alltoallv :: "ccl_coll_param \<Rightarrow> unit result" where
  "validate_alltoallv p =
     (let r = comm_rank (param_comm p) in
      throw_if_not (length (send_bufs p) = 1 \<or> size_is (send_bufs p) p) ''send_bufs size''
     (throw_if_not (length (recv_bufs p) = 1 \<or> size_is (recv_bufs p) p) ''recv_bufs size''
     (throw_if_not (vec_at (send_counts p) r = vec_at (recv_counts p) r) ''send_count[rank]''
     (throw_if_not (length (send_counts p) > 1 \<longrightarrow> size_is (send_counts p) p) ''send_counts size''
     (throw_if_not (length (recv_counts p) > 1 \<longrightarrow> size_is (recv_counts p) p) ''recv_counts size'' (Inr ()))))))"

definition validate_allgatherv :: "ccl_coll_param \<Rightarrow> unit result" where
  "validate_allgatherv p =
     throw_if_not (length (recv_bufs p) = 1 \<or> size_is (recv_bufs p) p) ''recv_bufs size''
     (throw_if_not (length (send_counts p) = 1) ''unexpected send_counts size''
     (rbind (get_send_count 0 p) (\<lambda>sc.
      throw_if_not (sc = vec_at (recv_counts p) (comm_rank (param_comm p))) ''send_count''
     (throw_if_not (length (recv_counts p) > 1 \<longrightarrow> size_is (recv_counts p) p) ''recv_counts size'' (Inr ())))))"

definition validate_uniform :: "ccl_coll_param \<Rightarrow> unit result" where
  "validate_uniform p =
     throw_if_not (length (send_bufs p) = length (send_counts p)) ''send_bufs size''
     (throw_if_not (length (recv_bufs p) = length (recv_counts p)) ''recv_bufs size''
     (rbind (if ctype p = coll_bcast then
               rbind (get_send_buf 0 p) (\<lambda>sb. rbind (get_recv_buf 0 p) (\<lambda>rb. throw_if_not (sb = rb) ''send_buf'' (Inr ())))
             else Inr ()) (\<lambda>_.
      rbind (if ctype p = coll_allreduce \<or> ctype p = coll_reduce_scatter \<or> ctype p = coll_reduce then
               (if reduction_op p = red_avg then Inl (CclThrow ''average operation is not supported for the scheduler path'')
                else rbind (is_custom (reduction_op p)) (\<lambda>c.
                  if c then Inl (CclThrow ''user-defined reduction operation is not supported for the scheduler path'') else Inr ()))
             else Inr ()) (\<lambda>_.
      throw_if_not (length (send_counts p) = 1) ''unexpected send_counts size''
     (rbind (get_send_count 0 p) (\<lambda>sc. rbind (get_recv_count 0 p) (\<lambda>rc.
      if ctype p = coll_reduce_scatter
      then throw_if_not (sc = rc * of_nat (comm_size (param_comm p))) ''send_count'' (Inr ())
      else throw_if_not (sc = rc) ''send_count'' (Inr ())))))))) "

definition validate :: "ccl_coll_param \<Rightarrow> unit result" where
  "validate p =
     (if coll_irregular (ctype p) \<or> ctype p = coll_barrier then Inr ()
      else throw_if_not (send_counts p \<noteq> []) ''empty send_counts''
          (throw_if_not (recv_counts p \<noteq> []) ''empty recv_counts''
          (throw_if_not (send_bufs p \<noteq> []) ''empty send_bufs''
          (throw_if_not (recv_bufs p \<noteq> []) ''empty recv_bufs''
          (case ctype p of
             coll_alltoallv \<Rightarrow> validate_alltoallv p
           | coll_allgatherv \<Rightarrow> validate_allgatherv p
           | coll_recv \<Rightarrow> Inr () | coll_send \<Rightarrow> Inr ()
           | _ \<Rightarrow> validate_uniform p)))))"

text \<open>\<^verbatim>\<open>get_all_non_zero_bufs\<close>; the sums of the counts are sums of \<^verbatim>\<open>size_t\<close>.\<close>

fun bufs_of_counts :: "nat \<Rightarrow> size_t list \<Rightarrow> ccl_coll_param \<Rightarrow> ptr list result" where
  "bufs_of_counts i [] p = Inr []"
| "bufs_of_counts i (c # cs) p =
     rbind (if c \<noteq> 0 then rbind (get_recv_buf i p) (\<lambda>b. Inr [b]) else Inr []) (\<lambda>bs.
       rbind (bufs_of_counts (Suc i) cs p) (\<lambda>bs'. Inr (bs @ bs')))"

definition opt_buf :: "bool \<Rightarrow> ptr result \<Rightarrow> ptr list result" where
  "opt_buf b r = (if b then rbind r (\<lambda>x. Inr [x]) else Inr [])"

definition get_all_non_zero_bufs :: "ccl_coll_param \<Rightarrow> ptr list result" where
  "get_all_non_zero_bufs p =
     (case ctype p of
        coll_alltoallv \<Rightarrow>
          rbind (opt_buf (sum_list (send_counts p) > 0) (get_send_buf 0 p)) (\<lambda>a.
          rbind (opt_buf (sum_list (recv_counts p) > 0) (get_recv_buf 0 p)) (\<lambda>b. Inr (a @ b)))
      | coll_allgatherv \<Rightarrow>
          rbind (get_send_count 0 p) (\<lambda>sc. rbind (opt_buf (sc \<noteq> 0) (get_send_buf 0 p)) (\<lambda>a.
          rbind (if sum_list (recv_counts p) > 0 then
                   (if length (recv_bufs p) = 1 then rbind (get_recv_buf 0 p) (\<lambda>b. Inr [b])
                    else bufs_of_counts 0 (recv_counts p) p)
                 else Inr []) (\<lambda>b. Inr (a @ b))))
      | coll_barrier \<Rightarrow> Inr [] | coll_recv \<Rightarrow> Inr [] | coll_send \<Rightarrow> Inr []
      | coll_partial \<Rightarrow> Inr [] | coll_undefined \<Rightarrow> Inr [] | coll_last_value \<Rightarrow> Inr []
      | _ \<Rightarrow>
          rbind (get_send_count 0 p) (\<lambda>sc. rbind (opt_buf (sc \<noteq> 0) (get_send_buf 0 p)) (\<lambda>a.
          rbind (get_recv_count 0 p) (\<lambda>rc. rbind (opt_buf (rc \<noteq> 0) (get_recv_buf 0 p)) (\<lambda>b. Inr (a @ b))))))"

section \<open>Copying\<close>

text \<open>\<^verbatim>\<open>ccl_coll_param::copy\<close>: all fields but \<^verbatim>\<open>group_id\<close>\<close>

definition copy_param :: "ccl_coll_param \<Rightarrow> ccl_coll_param \<Rightarrow> ccl_coll_param result" where
  "copy_param self other =
     (let p = self\<lparr>ctype := ctype other, send_bufs := send_bufs other, recv_bufs := recv_bufs other,
                   send_counts := send_counts other, recv_counts := recv_counts other, cnt := cnt other,
                   dtype := dtype other, reduction_op := reduction_op other, root := root other,
                   comm := comm other, stream := stream other, peer_rank := peer_rank other,
                   is_validate := is_validate other, is_pt2pt := is_pt2pt other\<rparr>
      in if is_validate p then rbind (validate p) (\<lambda>_. Inr p) else Inr p)"

definition copy_constructor :: "ccl_coll_param \<Rightarrow> ccl_coll_param result" where
  "copy_constructor other = copy_param (empty_param True) other"

definition assign_param :: "ccl_coll_param \<Rightarrow> ccl_coll_param \<Rightarrow> ccl_coll_param result" where
  "assign_param self other = (if is_validate self then copy_param self other else Inr self)"

section \<open>Creating parameters\<close>

text \<open>
  \<open>ga\<close> is \<^verbatim>\<open>group_impl::is_group_active\<close> and \<open>deps\<close> the number of dependencies, which the host build
  supports in groups only.
\<close>

definition copy_deps :: "bool \<Rightarrow> nat \<Rightarrow> unit result" where
  "copy_deps ga deps = (if ga then Inr () else throw_if_not (deps = 0) ''host deps are not supported yet'' (Inr ()))"

definition set_common_fields ::
    "ccl_datatype_storage \<Rightarrow> bool \<Rightarrow> dtype_idx \<Rightarrow> ccl_comm \<Rightarrow> nat option \<Rightarrow> nat \<Rightarrow> ccl_coll_param \<Rightarrow> ccl_coll_param result" where
  "set_common_fields st ga d c s deps p =
     rbind (copy_deps ga deps) (\<lambda>_. Inr (p\<lparr>dtype := get_datatype d st, comm := Some c, stream := s\<rparr>))"

definition finish_param ::
    "ccl_datatype_storage \<Rightarrow> bool \<Rightarrow> dtype_idx \<Rightarrow> ccl_comm \<Rightarrow> nat option \<Rightarrow> nat \<Rightarrow> ccl_coll_param \<Rightarrow> ccl_coll_param result" where
  "finish_param st ga d c s deps p =
     rbind (set_common_fields st ga d c s deps p) (\<lambda>p1. rbind (validate p1) (\<lambda>_. Inr p1))"

definition create_allgather_param where
  "create_allgather_param st ga send_buf recv_buf n d c s deps =
     finish_param st ga d c s deps
       ((empty_param True)\<lparr>ctype := coll_allgather, send_bufs := [send_buf], send_counts := [n],
                           recv_bufs := [recv_buf], recv_counts := [n]\<rparr>)"

text \<open>
  Arrays are given by their elements: the receive counts have one element per rank, \<open>recv_ptrs\<close> are the
  pointers at \<open>recv_buf\<close> when it is an array of buffers.
\<close>

definition create_allgatherv_param where
  "create_allgatherv_param st ga send_buf send_count recv_buf recv_ptrs rcounts d attr c s deps =
     finish_param st ga d c s deps
       ((empty_param True)\<lparr>ctype := coll_allgatherv, send_bufs := [send_buf], send_counts := [send_count],
          recv_bufs := (if is_vector_buf attr then take (comm_size c) recv_ptrs else [recv_buf]),
          recv_counts := take (comm_size c) rcounts\<rparr>)"

definition create_allreduce_param where
  "create_allreduce_param st ga send_buf recv_buf n d red c s deps =
     finish_param st ga d c s deps
       ((empty_param True)\<lparr>ctype := coll_allreduce, cnt := n, send_bufs := [send_buf], send_counts := [n],
                           recv_bufs := [recv_buf], recv_counts := [n], reduction_op := red\<rparr>)"

definition create_alltoall_param where
  "create_alltoall_param st ga send_buf recv_buf n d c s deps =
     finish_param st ga d c s deps
       ((empty_param True)\<lparr>ctype := coll_alltoall, send_bufs := [send_buf], send_counts := [n],
                           recv_bufs := [recv_buf], recv_counts := [n]\<rparr>)"

definition create_alltoallv_param where
  "create_alltoallv_param st ga send_buf send_ptrs scounts recv_buf recv_ptrs rcounts d attr c s deps =
     finish_param st ga d c s deps
       ((empty_param True)\<lparr>ctype := coll_alltoallv,
          send_bufs := (if is_vector_buf attr then take (comm_size c) send_ptrs else [send_buf]),
          send_counts := take (comm_size c) scounts,
          recv_bufs := (if is_vector_buf attr then take (comm_size c) recv_ptrs else [recv_buf]),
          recv_counts := take (comm_size c) rcounts\<rparr>)"

definition create_barrier_param where
  "create_barrier_param st ga c s deps =
     finish_param st ga 0 c s deps
       ((empty_param True)\<lparr>ctype := coll_barrier, send_counts := [0], recv_counts := [0]\<rparr>)"

definition create_bcast_param where
  "create_bcast_param st ga buf n d rt c s deps =
     finish_param st ga d c s deps
       ((empty_param True)\<lparr>ctype := coll_bcast, send_bufs := [buf], send_counts := [n],
                           recv_bufs := [buf], recv_counts := [n], root := rt\<rparr>)"

definition create_broadcast_param where
  "create_broadcast_param st ga send_buf recv_buf n d rt c s deps =
     finish_param st ga d c s deps
       ((empty_param True)\<lparr>ctype := coll_broadcast, send_bufs := [send_buf], send_counts := [n],
                           recv_bufs := [recv_buf], recv_counts := [n], root := rt\<rparr>)"

definition create_reduce_param where
  "create_reduce_param st ga send_buf recv_buf n d red rt c s deps =
     finish_param st ga d c s deps
       ((empty_param True)\<lparr>ctype := coll_reduce, send_bufs := [send_buf], send_counts := [n],
                           recv_bufs := [recv_buf], recv_counts := [n], reduction_op := red, root := rt\<rparr>)"

definition create_reduce_scatter_param where
  "create_reduce_scatter_param st ga send_buf recv_buf recv_count d red c s deps =
     finish_param st ga d c s deps
       ((empty_param True)\<lparr>ctype := coll_reduce_scatter, send_bufs := [send_buf],
          send_counts := [of_nat (comm_size c) * recv_count],
          recv_bufs := [recv_buf], recv_counts := [recv_count], reduction_op := red\<rparr>)"

definition create_recv_param where
  "create_recv_param st ga recv_buf recv_count d peer c s deps =
     finish_param st ga d c s deps
       ((empty_param True)\<lparr>ctype := coll_recv, send_bufs := [recv_buf], send_counts := [recv_count],
          recv_bufs := [recv_buf], recv_counts := [recv_count], peer_rank := peer, is_pt2pt := True\<rparr>)"

definition create_send_param where
  "create_send_param st ga send_buf send_count d peer c s deps =
     finish_param st ga d c s deps
       ((empty_param True)\<lparr>ctype := coll_send, send_bufs := [send_buf], send_counts := [send_count],
          recv_bufs := [send_buf], recv_counts := [send_count], peer_rank := peer, is_pt2pt := True\<rparr>)"

section \<open>Checks of the user's input\<close>

definition ccl_coll_validate_user_input :: "bool \<Rightarrow> ccl_coll_param \<Rightarrow> ccl_coll_attr \<Rightarrow> unit result" where
  "ccl_coll_validate_user_input transport_ofi p attr =
     throw_if_not (transport_ofi \<or> reduction_fn attr = None) ''custom reduction is supported for OFI transport only''
    (throw_if_not (is_predefined_datatype (m_idx (dtype p)) \<or> transport_ofi) ''custom datatype is supported for OFI transport only''
    (throw_if_not (ctype p \<noteq> coll_allreduce \<and> ctype p \<noteq> coll_reduce \<or> is_predefined_datatype (m_idx (dtype p)) \<or>
                   reduction_fn attr \<noteq> None) ''custom datatype requires custom reduction''
    (throw_if_not (ctype p = coll_allreduce \<or> reduction_fn attr = None) ''custom reduction is supported for allreduce only''
    (throw_if_not (ctype p = coll_allgatherv \<or> \<not> is_vector_buf attr) ''vector buffer is not supported''
    (if ctype p = coll_bcast \<or> ctype p = coll_broadcast \<or> ctype p = coll_reduce
     then throw_if_not (root p < int (comm_size (param_comm p))) ''unexpected root'' (Inr ())
     else Inr ())))))"

section \<open>What validation gives\<close>

definition readable :: "ccl_coll_param \<Rightarrow> bool" where
  "readable p \<longleftrightarrow> (\<exists>sb rb sc rc. get_send_buf 0 p = Inr sb \<and> get_recv_buf 0 p = Inr rb \<and>
     get_send_count 0 p = Inr sc \<and> get_recv_count 0 p = Inr rc)"

lemma vec_at_0: "xs \<noteq> [] \<Longrightarrow> vec_at xs 0 = hd xs"
  by (simp add: vec_at_def hd_conv_nth)

lemma readable_iff:
  "send_bufs p \<noteq> [] \<Longrightarrow> recv_bufs p \<noteq> [] \<Longrightarrow> send_counts p \<noteq> [] \<Longrightarrow> recv_counts p \<noteq> [] \<Longrightarrow>
   get_send_buf 0 p = Inr (hd (send_bufs p)) \<and> get_recv_buf 0 p = Inr (hd (recv_bufs p)) \<and>
   get_send_count 0 p = Inr (hd (send_counts p)) \<and> get_recv_count 0 p = Inr (hd (recv_counts p))"
  by (simp add: get_send_buf_def get_recv_buf_def get_send_count_def get_recv_count_def vec_at_0 hd_conv_nth)

lemma validate_nonempty:
  assumes "validate p = Inr ()" and "\<not> coll_irregular (ctype p)" and "ctype p \<noteq> coll_barrier"
  shows "send_counts p \<noteq> []" "recv_counts p \<noteq> []" "send_bufs p \<noteq> []" "recv_bufs p \<noteq> []"
  using assms by (auto simp: validate_def throw_if_not_eq_Inr)

lemma bufs_of_counts_ok:
  "i + length cs \<le> length (recv_bufs p) \<Longrightarrow> \<exists>bs. bufs_of_counts i cs p = Inr bs \<and> set bs \<subseteq> set (recv_bufs p)"
proof (induction cs arbitrary: i)
  case (Cons c cs)
  have "Suc i + length cs \<le> length (recv_bufs p)" using Cons.prems by simp
  from Cons.IH [OF this] obtain bs where "bufs_of_counts (Suc i) cs p = Inr bs" "set bs \<subseteq> set (recv_bufs p)" by blast
  moreover have "recv_bufs p ! i \<in> set (recv_bufs p)" using Cons.prems by auto
  ultimately show ?case using Cons.prems by (auto simp: get_recv_buf_def throw_if_not_def)
qed simp

lemma size_is_length:
  "length xs < 2 ^ 31 \<Longrightarrow> size_is xs p \<longleftrightarrow> length xs = comm_size (param_comm p)"
  by (simp add: size_is_def int32_id)

lemma allgatherv_lengths:
  assumes "validate p = Inr ()" and "ctype p = coll_allgatherv"
    and "length (recv_bufs p) < 2 ^ 31" and "length (recv_counts p) < 2 ^ 31"
  shows "length (recv_bufs p) = 1 \<or> length (recv_counts p) \<le> length (recv_bufs p)"
proof -
  have ne: "recv_counts p \<noteq> []" "recv_bufs p \<noteq> []"
    using validate_nonempty [OF assms(1)] assms(2) by (simp_all add: coll_irregular_def)
  from assms(1,2) have "length (recv_bufs p) = 1 \<or> size_is (recv_bufs p) p"
      "length (recv_counts p) > 1 \<longrightarrow> size_is (recv_counts p) p"
    by (auto simp: validate_def coll_irregular_def throw_if_not_eq_Inr validate_allgatherv_def rbind_eq_Inr)
  moreover have "1 \<le> length (recv_bufs p)" "\<not> length (recv_counts p) > 1 \<Longrightarrow> length (recv_counts p) = 1"
    using ne by (cases "recv_bufs p"; cases "recv_counts p"; auto)+
  ultimately show ?thesis
    using size_is_length [OF assms(3), of p] size_is_length [OF assms(4), of p] by fastforce
qed

lemma validated_bufs:
  assumes v: "validate p = Inr ()" and "length (recv_bufs p) < 2 ^ 31" and "length (recv_counts p) < 2 ^ 31"
  shows "\<exists>bs. get_all_non_zero_bufs p = Inr bs \<and> set bs \<subseteq> set (send_bufs p) \<union> set (recv_bufs p)"
proof (cases "coll_irregular (ctype p) \<or> ctype p = coll_barrier")
  case True
  then show ?thesis by (auto simp: get_all_non_zero_bufs_def coll_irregular_def)
next
  case False
  note ne = validate_nonempty [OF v]
  have r: "get_send_buf 0 p = Inr (hd (send_bufs p))" "get_recv_buf 0 p = Inr (hd (recv_bufs p))"
    "get_send_count 0 p = Inr (hd (send_counts p))" "get_recv_count 0 p = Inr (hd (recv_counts p))"
    using readable_iff [of p] ne False by simp_all
  have hd: "hd (send_bufs p) \<in> set (send_bufs p)" "hd (recv_bufs p) \<in> set (recv_bufs p)" using ne False by simp_all
  show ?thesis
  proof (cases "ctype p = coll_allgatherv")
    case True
    have "\<exists>bs. (if length (recv_bufs p) = 1 then rbind (get_recv_buf 0 p) (\<lambda>b. Inr [b]) else bufs_of_counts 0 (recv_counts p) p) = Inr bs \<and>
        set bs \<subseteq> set (recv_bufs p)"
      using bufs_of_counts_ok [of 0 "recv_counts p" p] allgatherv_lengths [OF v True assms(2,3)] hd r by auto
    then show ?thesis using True r hd by (auto simp: get_all_non_zero_bufs_def opt_buf_def)
  next
    case nag: False
    show ?thesis using False nag r hd
      by (cases "ctype p") (auto simp: get_all_non_zero_bufs_def opt_buf_def coll_irregular_def)
  qed
qed

lemma copy_constructor_eq:
  assumes "copy_constructor p = Inr q"
  shows "q = p\<lparr>group_id := CCL_INVALID_IDX\<rparr>"
  using assms by (cases p) (auto simp: copy_constructor_def copy_param_def empty_param_def Let_def rbind_eq_Inr split: if_splits)

lemma validate_group_id [simp]: "validate (p\<lparr>group_id := g\<rparr>) = validate p"
  by (simp add: validate_def validate_alltoallv_def validate_allgatherv_def validate_uniform_def get_send_count_def
      get_recv_count_def get_send_buf_def get_recv_buf_def size_is_def param_comm_def cong: ccl_coll_type.case_cong)

lemma copy_constructor_ok:
  assumes "validate p = Inr ()"
  shows "copy_constructor p = Inr (p\<lparr>group_id := CCL_INVALID_IDX\<rparr>)"
proof -
  have "copy_constructor p = (if is_validate p then rbind (validate (p\<lparr>group_id := CCL_INVALID_IDX\<rparr>)) (\<lambda>_. Inr (p\<lparr>group_id := CCL_INVALID_IDX\<rparr>))
      else Inr (p\<lparr>group_id := CCL_INVALID_IDX\<rparr>))"
    by (cases p) (simp add: copy_constructor_def copy_param_def empty_param_def Let_def)
  then show ?thesis using assms by simp
qed

section \<open>Allocation of reduction types\<close>

lemma lowest_free_Some:
  assumes "lowest_free tab n i = Some k"
  shows "map_of tab k = None \<and> i \<le> k \<and> k < i + int n \<and> (\<forall>j. i \<le> j \<and> j < k \<longrightarrow> map_of tab j \<noteq> None)"
  using assms
proof (induction n arbitrary: i)
  case (Suc n)
  show ?case
  proof (cases "map_of tab i = None")
    case False
    with Suc.prems have "lowest_free tab n (i + 1) = Some k" by auto
    from Suc.IH [OF this] False show ?thesis
      by (auto simp: order_le_less) (metis add1_zle_eq option.distinct(1) order_le_less)+
  qed (use Suc.prems in auto)
qed simp

text \<open>Some index among the first \<open>length tab + 1\<close> is free.\<close>

lemma lowest_free_bound:
  assumes "length tab < n"
  shows "\<exists>k. lowest_free tab n i = Some k \<and> k \<le> i + int (length tab)"
proof -
  have "\<exists>j. i \<le> j \<and> j \<le> i + int (length tab) \<and> map_of tab j = None"
  proof (rule ccontr)
    assume "\<not> ?thesis"
    then have "{i..i + int (length tab)} \<subseteq> fst ` set tab"
      by (auto simp: map_of_eq_None_iff subset_iff)
    then have "card {i..i + int (length tab)} \<le> card (fst ` set tab)" by (intro card_mono) auto
    also have "\<dots> \<le> length tab" by (metis card_image_le card_length finite_set order_trans)
    finally show False by simp
  qed
  then obtain j where j: "i \<le> j" "j \<le> i + int (length tab)" "map_of tab j = None" by blast
  have "\<exists>k. lowest_free tab n i = Some k" if "j < i + int n" "i \<le> j" for n i
    using that
  proof (induction n arbitrary: i)
    case (Suc n)
    show ?case
    proof (cases "map_of tab i = None")
      case False
      then have "i \<noteq> j" using j(3) by auto
      with Suc.prems Suc.IH [of "i + 1"] False show ?thesis by auto
    qed simp
  qed simp
  then obtain k where k: "lowest_free tab n i = Some k" using j(1,2) assms by fastforce
  moreover have "k \<le> j" using lowest_free_Some [OF k] j(1,3) by (meson linorder_not_le)
  ultimately show ?thesis using j(2) by auto
qed

lemma filter_free_idx: "map_of tab k = None \<Longrightarrow> filter (\<lambda>(i, _). i \<noteq> k) tab = tab"
  by (auto simp: map_of_eq_None_iff filter_id_conv intro: rev_image_eqI)

lemma reduction_type_idx:
  assumes "1 \<le> k" and "k < red_max_ops - red_predefined_ops"
  shows "idx_to_type k = Inr (red_predefined_ops + k)" "type_to_idx (red_predefined_ops + k) = k"
    "is_custom (red_predefined_ops + k) = Inr True"
  using assms
  by (simp_all add: idx_to_type_def type_to_idx_def is_custom_def red_predefined_ops_def red_max_ops_def int32_id Let_def)

lemma redtype_create_ok:
  assumes "length tab < 2 ^ 31 - 15"
  shows "\<exists>k. redtype_create d tab = Inr (k, (k, d) # tab) \<and> map_of tab k = None \<and> 1 \<le> k \<and>
     k < red_max_ops - red_predefined_ops"
proof -
  let ?max = "red_max_ops - red_predefined_ops"
  have max: "?max = 2 ^ 31 - 13" by (simp add: red_max_ops_def red_predefined_ops_def)
  have "length tab < nat ?max" using assms by (simp add: max)
  then obtain k where k: "lowest_free tab (nat ?max) 1 = Some k" "k \<le> 1 + int (length tab)"
    using lowest_free_bound by blast
  have "int32 (int (length tab)) < ?max" using assms by (simp add: max int32_id)
  then have "redtype_create d tab = Inr (k, (k, d) # tab)" using k(1) by (simp add: redtype_create_def Let_def)
  moreover have "map_of tab k = None" "1 \<le> k" using lowest_free_Some [OF k(1)] by auto
  moreover have "k < ?max" using k(2) assms by (simp add: max)
  ultimately show ?thesis by blast
qed

section \<open>Properties\<close>


definition example_comm :: ccl_comm where
  "example_comm = \<lparr>comm_id = 1, comm_rank = 1, comm_size = 2\<rparr>"

definition example_param :: ccl_coll_param where
  "example_param = (empty_param True)\<lparr>ctype := coll_send, send_bufs := [4096], send_counts := [16], recv_bufs := [4096],
     recv_counts := [16], peer_rank := 0, comm := Some example_comm, group_id := 3, is_pt2pt := True\<rparr>"



definition example_attr :: ccl_coll_attr where
  "example_attr = \<lparr>reduction_fn = None, priority = 0, synchronous = False, to_cache = False, match_id = [],
     attr_group_id = - 1, is_vector_buf = False\<rparr>"


text \<open>
  C30: A user-defined reduction can be looked up again: while the table has room, creating one returns a value of the
  enumeration that counts as user-defined and gives the stored data; other reductions keep their data, and destroying the new
  one gives the table from before.
\<close>

theorem user_reduction_roundtrip:
  assumes "length tab < 2 ^ 31 - 15"
  shows "\<exists>r tab'. reduction_create_pre_mul_sum dev scalar val tab = Inr (r, tab') \<and> is_custom r = Inr True \<and>
     redtype_get r tab' = Inr \<lparr>op_type = int_pre_mul_sum, scalar_arg_is_ptr = dev, scalar_arg = (if dev then scalar else val)\<rparr> \<and>
     (\<forall>r'. type_to_idx r' \<noteq> type_to_idx r \<longrightarrow> redtype_get r' tab' = redtype_get r' tab) \<and>
     reduction_destroy r tab' = Inr tab"
proof -
  let ?d = "\<lparr>op_type = int_pre_mul_sum, scalar_arg_is_ptr = dev, scalar_arg = (if dev then scalar else val)\<rparr>"
  obtain k where k: "redtype_create ?d tab = Inr (k, (k, ?d) # tab)" "map_of tab k = None" "1 \<le> k"
    "k < red_max_ops - red_predefined_ops"
    using redtype_create_ok [OF assms] by blast
  note t = reduction_type_idx [OF k(3,4)]
  have c: "reduction_create_pre_mul_sum dev scalar val tab = Inr (red_predefined_ops + k, (k, ?d) # tab)"
    using k(1) t(1) by (simp add: reduction_create_pre_mul_sum_def)
  moreover have "redtype_get (red_predefined_ops + k) ((k, ?d) # tab) = Inr ?d" by (simp add: redtype_get_def t(2))
  moreover have "\<forall>r'. type_to_idx r' \<noteq> k \<longrightarrow> redtype_get r' ((k, ?d) # tab) = redtype_get r' tab"
    by (simp add: redtype_get_def)
  moreover have "reduction_destroy (red_predefined_ops + k) ((k, ?d) # tab) = Inr tab"
    using filter_free_idx [OF k(2)] by (simp add: reduction_destroy_def t redtype_free_def)
  ultimately show ?thesis
    using t(2,3) by (intro exI [of _ "red_predefined_ops + k"] exI [of _ "(k, ?d) # tab"]) simp
qed

theorem user_reduction_roundtrip_witness:
  "\<exists>r tab'. reduction_create_pre_mul_sum False 0 7 [] = Inr (r, tab') \<and> is_custom r = Inr True \<and>
     reduction_destroy r tab' = Inr []"
  using user_reduction_roundtrip [of "[]" False 0 7] by auto



end
