(* ===== verification/SchedCache.thy ===== *)
theory SchedCache
  imports CollParam
begin

text \<open>
  The cache of schedules: the keys of \<^verbatim>\<open>src/src/sched/cache/key.cpp\<close> and the table of
  \<^verbatim>\<open>src/src/sched/cache/cache.cpp\<close> and \<^verbatim>\<open>cache.hpp\<close>. Pointers that only name an object, the
  communicator and the reduction function, are numbers; \<open>string_hash\<close> stands for \<^verbatim>\<open>std::hash<std::string>\<close>.
\<close>

section \<open>Keys\<close>

datatype ccl_cache_key_type = cache_key_full | cache_key_match_id

record key_fields =
  f_ctype :: ccl_coll_type
  f_buf1 :: ptr
  f_buf2 :: ptr
  f_dtype :: dtype_idx
  f_reduction :: reduction
  f_count1 :: size_t
  f_count2 :: size_t
  f_root :: int
  f_peer_rank :: int
  f_group_id :: int
  f_comm :: nat
  f_reduction_fn :: nat

record ccl_sched_key =
  f :: key_fields
  vec1 :: "size_t list"
  vec2 :: "size_t list"
  key_match_id :: string
  has_hasher_result :: bool
  hasher_result :: size_t

definition key_fields_init :: key_fields where
  "key_fields_init =
     \<lparr>f_ctype = coll_undefined, f_buf1 = 0, f_buf2 = 0, f_dtype = 0, f_reduction = red_sum, f_count1 = 0, f_count2 = 0,
      f_root = 0, f_peer_rank = CCL_INVALID_IDX, f_group_id = CCL_INVALID_IDX, f_comm = 0, f_reduction_fn = 0\<rparr>"

definition new_key :: ccl_sched_key where
  "new_key = \<lparr>f = key_fields_init, vec1 = [], vec2 = [], key_match_id = [], has_hasher_result = False, hasher_result = 0\<rparr>"

text \<open>\<^verbatim>\<open>memset\<close> of the fields with zeroes; \<^verbatim>\<open>ccl_coll_allgather\<close> is the first value of its enumeration.\<close>

definition key_fields_zero :: key_fields where
  "key_fields_zero =
     \<lparr>f_ctype = coll_allgather, f_buf1 = 0, f_buf2 = 0, f_dtype = 0, f_reduction = 0, f_count1 = 0, f_count2 = 0,
      f_root = 0, f_peer_rank = 0, f_group_id = 0, f_comm = 0, f_reduction_fn = 0\<rparr>"

definition fn_ptr :: "nat option \<Rightarrow> nat" where
  "fn_ptr g = (case g of None \<Rightarrow> 0 | Some n \<Rightarrow> Suc n)"

definition comm_ptr :: "ccl_coll_param \<Rightarrow> nat" where
  "comm_ptr p = (case comm p of None \<Rightarrow> 0 | Some c \<Rightarrow> Suc (comm_id c))"

definition upd_f :: "(key_fields \<Rightarrow> key_fields) \<Rightarrow> ccl_sched_key \<Rightarrow> ccl_sched_key" where
  "upd_f g k = k\<lparr>f := g (f k)\<rparr>"

definition key_set ::
    "ccl_cache_key_type \<Rightarrow> ccl_coll_param \<Rightarrow> ccl_coll_attr \<Rightarrow> ccl_sched_key \<Rightarrow> ccl_sched_key result" where
  "key_set kt p attr k0 =
     (let k1 = (if kt = cache_key_full then k0\<lparr>f := key_fields_zero\<rparr> else k0);
          k = (upd_f (\<lambda>x. x\<lparr>f_reduction_fn := fn_ptr (reduction_fn attr), f_ctype := ctype p, f_dtype := m_idx (dtype p),
                            f_comm := comm_ptr p\<rparr>) k1)\<lparr>key_match_id := match_id attr\<rparr>
      in case ctype p of
           coll_allgather \<Rightarrow> rbind (get_send_count 0 p) (\<lambda>c. Inr (upd_f (\<lambda>x. x\<lparr>f_count1 := c\<rparr>) k))
         | coll_allgatherv \<Rightarrow>
             rbind (get_send_count 0 p) (\<lambda>c. Inr ((upd_f (\<lambda>x. x\<lparr>f_count1 := c\<rparr>) k)\<lparr>vec1 := recv_counts p\<rparr>))
         | coll_allreduce \<Rightarrow>
             rbind (get_send_count 0 p) (\<lambda>c. Inr (upd_f (\<lambda>x. x\<lparr>f_count1 := c, f_reduction := reduction_op p\<rparr>) k))
         | coll_alltoall \<Rightarrow> rbind (get_send_count 0 p) (\<lambda>c. Inr (upd_f (\<lambda>x. x\<lparr>f_count1 := c\<rparr>) k))
         | coll_alltoallv \<Rightarrow> Inr (k\<lparr>vec1 := send_counts p, vec2 := recv_counts p\<rparr>)
         | coll_barrier \<Rightarrow> Inr k
         | coll_bcast \<Rightarrow> rbind (get_send_count 0 p) (\<lambda>c. Inr (upd_f (\<lambda>x. x\<lparr>f_count1 := c, f_root := root p\<rparr>) k))
         | coll_broadcast \<Rightarrow> rbind (get_send_count 0 p) (\<lambda>c. Inr (upd_f (\<lambda>x. x\<lparr>f_count1 := c, f_root := root p\<rparr>) k))
         | coll_reduce \<Rightarrow>
             rbind (get_send_count 0 p) (\<lambda>c.
               Inr (upd_f (\<lambda>x. x\<lparr>f_count1 := c, f_reduction := reduction_op p, f_root := root p\<rparr>) k))
         | coll_reduce_scatter \<Rightarrow>
             rbind (get_send_count 0 p) (\<lambda>c. Inr (upd_f (\<lambda>x. x\<lparr>f_count1 := c, f_reduction := reduction_op p\<rparr>) k))
         | coll_recv \<Rightarrow>
             rbind (get_recv_count 0 p) (\<lambda>c.
               Inr (upd_f (\<lambda>x. x\<lparr>f_count1 := c, f_peer_rank := peer_rank p, f_group_id := group_id p\<rparr>) k))
         | coll_send \<Rightarrow>
             rbind (get_send_count 0 p) (\<lambda>c.
               Inr (upd_f (\<lambda>x. x\<lparr>f_count1 := c, f_peer_rank := peer_rank p, f_group_id := group_id p\<rparr>) k))
         | _ \<Rightarrow> Inl (CclThrow ''unexpected coll_type''))"

definition key_check :: "ccl_sched_key \<Rightarrow> ccl_coll_param \<Rightarrow> ccl_coll_attr \<Rightarrow> bool result" where
  "key_check k p attr =
     (let x = f k;
          res = (fn_ptr (reduction_fn attr) = f_reduction_fn x \<or> ctype p = f_ctype x \<or>
                 m_idx (dtype p) = f_dtype x \<or> comm_ptr p = f_comm x);
          on_send = (\<lambda>b. rbind (get_send_count 0 p) (\<lambda>c. Inr (res \<and> c = f_count1 x \<and> b)))
      in case f_ctype x of
           coll_allgather \<Rightarrow> on_send True
         | coll_allgatherv \<Rightarrow> on_send (recv_counts p = vec1 k)
         | coll_allreduce \<Rightarrow> on_send (reduction_op p = f_reduction x)
         | coll_alltoall \<Rightarrow> on_send True
         | coll_alltoallv \<Rightarrow> Inr (res \<and> send_counts p = vec1 k \<and> recv_counts p = vec2 k)
         | coll_barrier \<Rightarrow> Inr res
         | coll_bcast \<Rightarrow> on_send (root p = f_root x)
         | coll_broadcast \<Rightarrow> on_send (root p = f_root x)
         | coll_reduce \<Rightarrow> on_send (reduction_op p = f_reduction x \<and> root p = f_root x)
         | coll_reduce_scatter \<Rightarrow> on_send (reduction_op p = f_reduction x)
         | coll_recv \<Rightarrow>
             rbind (get_recv_count 0 p) (\<lambda>c.
               Inr (res \<and> c = f_count1 x \<and> peer_rank p = f_peer_rank x \<and> group_id p = f_group_id x))
         | coll_send \<Rightarrow> on_send (peer_rank p = f_peer_rank x \<and> group_id p = f_group_id x)
         | _ \<Rightarrow> Inl (CclThrow ''unexpected coll_type''))"

definition key_eq :: "ccl_cache_key_type \<Rightarrow> ccl_sched_key \<Rightarrow> ccl_sched_key \<Rightarrow> bool" where
  "key_eq kt k l \<longleftrightarrow>
     (kt = cache_key_full \<longrightarrow> f k = f l \<and> vec1 k = vec1 l \<and> vec2 k = vec2 l) \<and> key_match_id k = key_match_id l"

definition coll_num :: "ccl_coll_type \<Rightarrow> size_t" where
  "coll_num c =
     (case c of coll_allgather \<Rightarrow> 0 | coll_allgatherv \<Rightarrow> 1 | coll_allreduce \<Rightarrow> 2 | coll_alltoall \<Rightarrow> 3
      | coll_alltoallv \<Rightarrow> 4 | coll_barrier \<Rightarrow> 5 | coll_bcast \<Rightarrow> 6 | coll_broadcast \<Rightarrow> 7 | coll_recv \<Rightarrow> 8
      | coll_reduce \<Rightarrow> 9 | coll_reduce_scatter \<Rightarrow> 10 | coll_send \<Rightarrow> 11 | coll_partial \<Rightarrow> 12
      | coll_undefined \<Rightarrow> 13 | coll_last_value \<Rightarrow> 14)"

definition compute_hash :: "(string \<Rightarrow> size_t) \<Rightarrow> ccl_cache_key_type \<Rightarrow> ccl_sched_key \<Rightarrow> size_t" where
  "compute_hash string_hash kt k =
     string_hash (key_match_id k) +
     (if kt = cache_key_full then
        coll_num (f_ctype (f k)) + of_int (f_dtype (f k)) + of_int (f_reduction (f k)) + f_count1 (f k) + f_count2 (f k) +
        of_int (f_root (f k)) + f_buf1 (f k) + f_buf2 (f k) + of_nat (f_comm (f k)) + of_nat (f_reduction_fn (f k)) +
        sum_list (vec1 k) + sum_list (vec2 k)
      else 0)"

text \<open>\<^verbatim>\<open>ccl_sched_key_hasher\<close>: the result is kept in the key.\<close>

definition key_hash :: "(string \<Rightarrow> size_t) \<Rightarrow> ccl_cache_key_type \<Rightarrow> ccl_sched_key \<Rightarrow> size_t \<times> ccl_sched_key" where
  "key_hash string_hash kt k =
     (if has_hasher_result k then (hasher_result k, k)
      else let h = compute_hash string_hash kt k in (h, k\<lparr>has_hasher_result := True, hasher_result := h\<rparr>))"

section \<open>The table\<close>

text \<open>
  A schedule is a number. Finding a key in the hash table means finding an element with the same hash
  that compares equal.
\<close>

record ccl_sched_cache =
  table :: "(ccl_sched_key \<times> nat) list"
  reference_counter :: size_t

definition key_found :: "(string \<Rightarrow> size_t) \<Rightarrow> ccl_cache_key_type \<Rightarrow> ccl_sched_key \<Rightarrow> ccl_sched_key \<Rightarrow> bool" where
  "key_found sh kt k l \<longleftrightarrow> fst (key_hash sh kt k) = fst (key_hash sh kt l) \<and> key_eq kt l k"

definition find_unsafe :: "(string \<Rightarrow> size_t) \<Rightarrow> ccl_cache_key_type \<Rightarrow> ccl_sched_key \<Rightarrow> ccl_sched_cache \<Rightarrow> nat option" where
  "find_unsafe sh kt k c = map_option snd (find (\<lambda>(l, _). key_found sh kt k l) (table c))"

text \<open>\<^verbatim>\<open>emplace\<close> inserts only if the key is not there; the flag says whether it was inserted.\<close>

definition emplace ::
    "(string \<Rightarrow> size_t) \<Rightarrow> ccl_cache_key_type \<Rightarrow> ccl_sched_key \<Rightarrow> nat \<Rightarrow> ccl_sched_cache \<Rightarrow> bool \<times> ccl_sched_cache" where
  "emplace sh kt k s c =
     (case find_unsafe sh kt k c of
        Some _ \<Rightarrow> (False, c)
      | None \<Rightarrow> (True, c\<lparr>table := (snd (key_hash sh kt k), s) # table c\<rparr>))"

definition find_or_create ::
    "(string \<Rightarrow> size_t) \<Rightarrow> ccl_cache_key_type \<Rightarrow> ccl_sched_key \<Rightarrow> nat \<Rightarrow> ccl_sched_cache \<Rightarrow> (nat \<times> bool) \<times> ccl_sched_cache" where
  "find_or_create sh kt k new c =
     (case find_unsafe sh kt k c of
        Some s \<Rightarrow> ((s, False), c\<lparr>reference_counter := reference_counter c + 1\<rparr>)
      | None \<Rightarrow> ((new, True), snd (emplace sh kt k new (c\<lparr>reference_counter := reference_counter c + 1\<rparr>))))"

definition recache ::
    "(string \<Rightarrow> size_t) \<Rightarrow> ccl_cache_key_type \<Rightarrow> ccl_sched_key \<Rightarrow> ccl_sched_key \<Rightarrow> ccl_sched_cache \<Rightarrow> ccl_sched_cache result" where
  "recache sh kt old new c =
     (case find_unsafe sh kt old c of
        None \<Rightarrow> Inl (CclThrow ''old_key wasn't found'')
      | Some s \<Rightarrow>
          let c1 = c\<lparr>table := filter (\<lambda>(l, _). \<not> key_found sh kt old l) (table c)\<rparr>; (ok, c2) = emplace sh kt new s c1
          in throw_if_not ok ''emplace'' (Inr c2))"

definition release :: "ccl_sched_cache \<Rightarrow> ccl_sched_cache" where
  "release c = c\<lparr>reference_counter := reference_counter c - 1\<rparr>"

text \<open>\<^verbatim>\<open>try_flush\<close> returns the schedules it deletes.\<close>

definition try_flush :: "bool \<Rightarrow> ccl_sched_cache \<Rightarrow> bool \<times> nat list \<times> ccl_sched_cache" where
  "try_flush enable_cache_flush c =
     (if \<not> enable_cache_flush then (True, [], c)
      else if reference_counter c = 0 then (True, map snd (table c), c\<lparr>table := []\<rparr>)
      else (False, [], c))"

section \<open>Which operations share a schedule\<close>

definition uses_count :: "ccl_coll_type \<Rightarrow> bool" where
  "uses_count t \<longleftrightarrow> t \<noteq> coll_barrier \<and> t \<noteq> coll_alltoallv"

definition uses_reduction :: "ccl_coll_type \<Rightarrow> bool" where
  "uses_reduction t \<longleftrightarrow> t = coll_allreduce \<or> t = coll_reduce \<or> t = coll_reduce_scatter"

definition uses_root :: "ccl_coll_type \<Rightarrow> bool" where
  "uses_root t \<longleftrightarrow> t = coll_bcast \<or> t = coll_broadcast \<or> t = coll_reduce"

definition uses_peer :: "ccl_coll_type \<Rightarrow> bool" where
  "uses_peer t \<longleftrightarrow> t = coll_send \<or> t = coll_recv"

definition first_count :: "ccl_coll_param \<Rightarrow> size_t" where
  "first_count p = hd (if ctype p = coll_recv then recv_counts p else send_counts p)"

text \<open>Two calls are the same operation if they agree on everything that matters for their collective.\<close>

definition same_op :: "ccl_coll_param \<Rightarrow> ccl_coll_attr \<Rightarrow> ccl_coll_param \<Rightarrow> ccl_coll_attr \<Rightarrow> bool" where
  "same_op p a q b \<longleftrightarrow>
     ctype p = ctype q \<and> m_idx (dtype p) = m_idx (dtype q) \<and> comm_ptr p = comm_ptr q \<and>
     reduction_fn a = reduction_fn b \<and> match_id a = match_id b \<and>
     (uses_count (ctype p) \<longrightarrow> first_count p = first_count q) \<and>
     (uses_reduction (ctype p) \<longrightarrow> reduction_op p = reduction_op q) \<and>
     (uses_root (ctype p) \<longrightarrow> root p = root q) \<and>
     (uses_peer (ctype p) \<longrightarrow> peer_rank p = peer_rank q \<and> group_id p = group_id q) \<and>
     (ctype p = coll_allgatherv \<or> ctype p = coll_alltoallv \<longrightarrow> recv_counts p = recv_counts q) \<and>
     (ctype p = coll_alltoallv \<longrightarrow> send_counts p = send_counts q)"

definition full_key :: "ccl_coll_param \<Rightarrow> ccl_coll_attr \<Rightarrow> ccl_sched_key" where
  "full_key p a =
     \<lparr>f = \<lparr>f_ctype = ctype p, f_buf1 = 0, f_buf2 = 0, f_dtype = m_idx (dtype p),
           f_reduction = (if uses_reduction (ctype p) then reduction_op p else 0),
           f_count1 = (if uses_count (ctype p) then first_count p else 0), f_count2 = 0,
           f_root = (if uses_root (ctype p) then root p else 0),
           f_peer_rank = (if uses_peer (ctype p) then peer_rank p else 0),
           f_group_id = (if uses_peer (ctype p) then group_id p else 0),
           f_comm = comm_ptr p, f_reduction_fn = fn_ptr (reduction_fn a)\<rparr>,
      vec1 = (if ctype p = coll_allgatherv then recv_counts p else if ctype p = coll_alltoallv then send_counts p else []),
      vec2 = (if ctype p = coll_alltoallv then recv_counts p else []),
      key_match_id = match_id a, has_hasher_result = False, hasher_result = 0\<rparr>"

lemmas uses_defs = uses_count_def uses_reduction_def uses_root_def uses_peer_def

lemma validated_counts:
  assumes "validate p = Inr ()" and "\<not> coll_irregular (ctype p)" and "ctype p \<noteq> coll_barrier"
  shows "get_send_count 0 p = Inr (hd (send_counts p))" "get_recv_count 0 p = Inr (hd (recv_counts p))"
  using readable_iff [of p] validate_nonempty [OF assms] by simp_all

lemma key_set_full:
  assumes "validate p = Inr ()" and "\<not> coll_irregular (ctype p)"
  shows "key_set cache_key_full p a new_key = Inr (full_key p a)"
proof (cases "ctype p = coll_barrier")
  case True
  then show ?thesis
    by (simp add: key_set_def full_key_def upd_f_def new_key_def key_fields_zero_def uses_defs)
next
  case False
  note c = validated_counts [OF assms False]
  show ?thesis using assms(2) False
    by (cases "ctype p")
      (simp_all add: key_set_def full_key_def upd_f_def new_key_def key_fields_zero_def uses_defs first_count_def c
        coll_irregular_def)
qed

lemma fn_ptr_inject: "fn_ptr x = fn_ptr y \<longleftrightarrow> x = y"
  by (auto simp: fn_ptr_def split: option.splits)

lemma full_key_eq: "key_eq cache_key_full (full_key p a) (full_key q b) \<longleftrightarrow> same_op p a q b"
proof (cases "ctype p = ctype q")
  case True
  then show ?thesis
    by (cases "ctype q") (auto simp: key_eq_def full_key_def same_op_def uses_defs fn_ptr_inject)
qed (auto simp: key_eq_def full_key_def same_op_def)

section \<open>Hashing\<close>

definition hash_ok :: "(string \<Rightarrow> size_t) \<Rightarrow> ccl_cache_key_type \<Rightarrow> ccl_sched_key \<Rightarrow> bool" where
  "hash_ok sh kt k \<longleftrightarrow> (has_hasher_result k \<longrightarrow> hasher_result k = compute_hash sh kt k)"

lemma key_hash_ok: "hash_ok sh kt k \<Longrightarrow> fst (key_hash sh kt k) = compute_hash sh kt k"
  by (simp add: key_hash_def hash_ok_def Let_def)

lemma key_hash_snd:
  "hash_ok sh kt k \<Longrightarrow> hash_ok sh kt (snd (key_hash sh kt k))"
  "key_eq kt (snd (key_hash sh kt k)) l = key_eq kt k l"
  by (auto simp: key_hash_def hash_ok_def Let_def key_eq_def compute_hash_def)

lemma key_eq_hash: "key_eq kt k l \<Longrightarrow> compute_hash sh kt k = compute_hash sh kt l"
  by (auto simp: key_eq_def compute_hash_def)

lemma key_eq_equiv: "key_eq kt k k" "key_eq kt k l \<Longrightarrow> key_eq kt l k" "key_eq kt k l \<Longrightarrow> key_eq kt l m \<Longrightarrow> key_eq kt k m"
  by (auto simp: key_eq_def)

lemma key_eq_iff: "key_eq kt k l \<Longrightarrow> key_eq kt x k = key_eq kt x l"
  using key_eq_equiv(2,3) by blast

lemma key_eq_absorb: "key_eq kt x m \<Longrightarrow> key_eq kt x k = key_eq kt k m"
  using key_eq_equiv(2,3) by blast

lemma key_found_eq:
  assumes "hash_ok sh kt k" and "hash_ok sh kt l"
  shows "key_found sh kt k l \<longleftrightarrow> key_eq kt l k"
  using key_eq_hash [of kt l k sh] by (auto simp: key_found_def key_hash_ok [OF assms(1)] key_hash_ok [OF assms(2)])

section \<open>The table as a map\<close>

definition cache_inv :: "(string \<Rightarrow> size_t) \<Rightarrow> ccl_cache_key_type \<Rightarrow> ccl_sched_cache \<Rightarrow> bool" where
  "cache_inv sh kt c \<longleftrightarrow> (\<forall>(l, s) \<in> set (table c). hash_ok sh kt l)"

text \<open>The abstract cache: a map from keys, up to equality of keys, to schedules.\<close>

definition cached :: "ccl_cache_key_type \<Rightarrow> ccl_sched_cache \<Rightarrow> ccl_sched_key \<Rightarrow> nat option" where
  "cached kt c k = map_option snd (find (\<lambda>(l, _). key_eq kt l k) (table c))"

lemma find_cong_set: "(\<And>x. x \<in> set xs \<Longrightarrow> P x = Q x) \<Longrightarrow> find P xs = find Q xs"
  by (induction xs) auto

lemma find_unsafe_cached:
  assumes "cache_inv sh kt c" and "hash_ok sh kt k"
  shows "find_unsafe sh kt k c = cached kt c k"
proof -
  have "find (\<lambda>(l, _). key_found sh kt k l) (table c) = find (\<lambda>(l, _). key_eq kt l k) (table c)"
    using assms by (intro find_cong_set) (auto simp: cache_inv_def key_found_eq)
  then show ?thesis by (simp add: find_unsafe_def cached_def)
qed

lemma cached_cong: "key_eq kt k l \<Longrightarrow> cached kt c k = cached kt c l"
  unfolding cached_def
  by (intro arg_cong [where f = "map_option snd"] find_cong_set) (simp add: key_eq_iff split_def)

lemma emplace_cached:
  assumes "cache_inv sh kt c" and "hash_ok sh kt k" and "cached kt c k = None"
  shows "\<exists>c'. emplace sh kt k s c = (True, c') \<and> cache_inv sh kt c' \<and> reference_counter c' = reference_counter c \<and>
     cached kt c' = (\<lambda>l. if key_eq kt k l then Some s else cached kt c l)"
proof -
  let ?c = "c\<lparr>table := (snd (key_hash sh kt k), s) # table c\<rparr>"
  have "emplace sh kt k s c = (True, ?c)"
    using assms by (simp add: emplace_def find_unsafe_cached)
  moreover have "cache_inv sh kt ?c" using assms(1) key_hash_snd(1) [OF assms(2)] by (simp add: cache_inv_def)
  moreover have "cached kt ?c = (\<lambda>l. if key_eq kt k l then Some s else cached kt c l)"
    by (auto simp: cached_def key_hash_snd(2))
  ultimately show ?thesis by simp
qed

lemma cached_filter:
  assumes "cache_inv sh kt c" and "hash_ok sh kt k"
  shows "cached kt (c\<lparr>table := filter (\<lambda>(l, _). \<not> key_found sh kt k l) (table c)\<rparr>) =
     (\<lambda>l. if key_eq kt k l then None else cached kt c l)"
proof
  fix m
  have eq: "filter (\<lambda>(l, _). \<not> key_found sh kt k l) (table c) = filter (\<lambda>(l, _). \<not> key_eq kt l k) (table c)"
    using assms by (intro filter_cong) (auto simp: cache_inv_def key_found_eq)
  have "find (\<lambda>(l, _). key_eq kt l m) (filter (\<lambda>(l, _). \<not> key_eq kt l k) xs) =
      (if key_eq kt k m then None else find (\<lambda>(l, _). key_eq kt l m) xs)" for xs :: "(ccl_sched_key \<times> nat) list"
  proof (induction xs)
    case (Cons x xs)
    then show ?case
      using key_eq_absorb [of kt "fst x" m k] by (cases "key_eq kt (fst x) m") (auto simp: split_def)
  qed simp
  then show "cached kt (c\<lparr>table := filter (\<lambda>(l, _). \<not> key_found sh kt k l) (table c)\<rparr>) m =
      (if key_eq kt k m then None else cached kt c m)"
    by (simp add: cached_def eq)
qed

lemma reference_counter_frame [simp]:
  "cached kt (c\<lparr>reference_counter := r\<rparr>) = cached kt c"
  "cache_inv sh kt (c\<lparr>reference_counter := r\<rparr>) = cache_inv sh kt c"
  by (simp_all add: cached_def cache_inv_def fun_eq_iff)

lemma find_or_create_cached:
  assumes inv: "cache_inv sh kt c" and k: "hash_ok sh kt k"
    and "find_or_create sh kt k new c = ((s, created), c')"
  shows "s = (case cached kt c k of Some t \<Rightarrow> t | None \<Rightarrow> new) \<and> created = (cached kt c k = None) \<and>
     cached kt c' = (\<lambda>l. if key_eq kt k l then Some s else cached kt c l) \<and>
     reference_counter c' = reference_counter c + 1 \<and> cache_inv sh kt c'"
proof (cases "cached kt c k")
  case None
  let ?c = "c\<lparr>reference_counter := reference_counter c + 1\<rparr>"
  have c: "cached kt ?c = cached kt c" "cache_inv sh kt ?c" using inv by simp_all
  obtain c1 where "emplace sh kt k new ?c = (True, c1)" "cache_inv sh kt c1" "reference_counter c1 = reference_counter ?c"
    "cached kt c1 = (\<lambda>l. if key_eq kt k l then Some new else cached kt c l)"
    using emplace_cached [OF c(2) k, of new, unfolded c(1), OF None] by blast
  with None assms(3) show ?thesis by (auto simp: find_or_create_def find_unsafe_cached [OF inv k])
next
  case (Some t)
  have eq: "(\<lambda>l. if key_eq kt k l then Some t else cached kt c l) = cached kt c"
    using Some cached_cong [of kt k _ c] by auto
  have "s = t" "\<not> created" "c' = c\<lparr>reference_counter := reference_counter c + 1\<rparr>"
    using assms(3) Some by (simp_all add: find_or_create_def find_unsafe_cached [OF inv k])
  then show ?thesis using Some inv eq by auto
qed

lemma recache_cached:
  assumes inv: "cache_inv sh kt c" and old: "hash_ok sh kt old" and new: "hash_ok sh kt new"
  shows "recache sh kt old new c =
       (case cached kt c old of
          None \<Rightarrow> Inl (CclThrow ''old_key wasn't found'')
        | Some s \<Rightarrow> if \<not> key_eq kt old new \<and> cached kt c new \<noteq> None then Inl (CclThrow ''emplace'')
                    else recache sh kt old new c) \<and>
     (\<forall>s. cached kt c old = Some s \<longrightarrow> key_eq kt old new \<or> cached kt c new = None \<longrightarrow>
       (\<exists>c'. recache sh kt old new c = Inr c' \<and> cache_inv sh kt c' \<and> reference_counter c' = reference_counter c \<and>
          cached kt c' = (\<lambda>l. if key_eq kt new l then Some s else if key_eq kt old l then None else cached kt c l)))"
proof (cases "cached kt c old")
  case None
  then show ?thesis by (simp add: recache_def find_unsafe_cached [OF inv old])
next
  case (Some s)
  let ?c = "c\<lparr>table := filter (\<lambda>(l, _). \<not> key_found sh kt old l) (table c)\<rparr>"
  have inv1: "cache_inv sh kt ?c" using inv by (auto simp: cache_inv_def)
  note c = cached_filter [OF inv old]
  have r: "recache sh kt old new c = (let (ok, c2) = emplace sh kt new s ?c in throw_if_not ok ''emplace'' (Inr c2))"
    using Some by (simp add: recache_def find_unsafe_cached [OF inv old] Let_def)
  show ?thesis
  proof (cases "cached kt ?c new = None")
    case True
    obtain c' where "emplace sh kt new s ?c = (True, c')" "cache_inv sh kt c'" "reference_counter c' = reference_counter ?c"
      "cached kt c' = (\<lambda>l. if key_eq kt new l then Some s else cached kt ?c l)"
      using emplace_cached [OF inv1 new True] by blast
    with True Some show ?thesis by (auto simp: r c split: if_splits)
  next
    case False
    then have "emplace sh kt new s ?c = (False, ?c)"
      using find_unsafe_cached [OF inv1 new] by (auto simp: emplace_def)
    with False Some show ?thesis by (auto simp: r c split: if_splits)
  qed
qed

section \<open>Properties\<close>


definition example_bcast :: "int \<Rightarrow> ccl_coll_param" where
  "example_bcast rt = (empty_param True)\<lparr>ctype := coll_bcast, send_bufs := [4096], send_counts := [16], recv_bufs := [4096],
     recv_counts := [16], root := rt, comm := Some example_comm\<rparr>"

lemma example_bcast_valid: "validate (example_bcast rt) = Inr ()" "\<not> coll_irregular (ctype (example_bcast rt))"
  by (simp_all add: example_bcast_def empty_param_def validate_def coll_irregular_def validate_uniform_def get_send_buf_def
      get_recv_buf_def get_send_count_def get_recv_count_def vec_at_def)






end
