(* ===== verification/Utils.thy ===== *)
theory Utils
  imports Prelude
begin

text \<open>
  The greatest power of two that is not greater than a number, on \<^verbatim>\<open>size_t\<close>: \<^verbatim>\<open>pof2\<close> of
  \<^verbatim>\<open>src/src/common/utils/utils.cpp\<close>. Used by the recursive doubling allreduce and by the tags.
\<close>

unbundle bit_operations_syntax

section \<open>Powers of two\<close>

lemma unat_shift: "unat p < 2 ^ 63 \<Longrightarrow> unat (push_bit 1 p) = 2 * unat p" for p :: size_t
proof -
  assume "unat p < 2 ^ 63"
  moreover have "push_bit 1 p = 2 * p" by (simp add: push_bit_eq_mult)
  ultimately show ?thesis by (simp add: unat_word_ariths)
qed

text \<open>
  The loop of \<^verbatim>\<open>pof2\<close>: it ends because a number without the highest bit is below \<open>2 ^ 63\<close>; the
  measure is the distance to that bound, and the guard keeps the shifted value positive.
\<close>

function pof2_loop :: "size_t \<Rightarrow> size_t \<Rightarrow> size_t" where
  "pof2_loop number p =
     (if 0 < p \<and> p < 2 ^ 63 \<and> p \<le> number then pof2_loop number (push_bit 1 p) else p)"
  by auto
termination
proof (relation "measure (\<lambda>(number, p). 2 ^ 64 - unat p)")
  fix number p :: size_t
  assume "0 < p \<and> p < 2 ^ 63 \<and> p \<le> number"
  then have p: "0 < unat p" "unat p < 2 ^ 63" by (simp_all add: word_less_nat_alt)
  with unat_shift [of p] show "((number, push_bit 1 p), number, p) \<in> measure (\<lambda>(number, p). 2 ^ 64 - unat p)" by simp
qed simp

declare pof2_loop.simps [simp del]

definition pof2 :: "size_t \<Rightarrow> size_t" where
  "pof2 number =
     (let last_bit_mask = push_bit 63 1
      in if number AND last_bit_mask \<noteq> 0 then last_bit_mask
         else drop_bit 1 (pof2_loop number 1))"

lemma pof2_loop_eq:
  assumes "unat number < 2 ^ 63" and "unat p = 2 ^ k" and "2 ^ k \<le> 2 * unat number"
  shows "\<exists>j. unat (pof2_loop number p) = 2 ^ j \<and> unat number < 2 ^ j \<and> 2 ^ j \<le> 2 * unat number"
  using assms
proof (induction number p arbitrary: k rule: pof2_loop.induct)
  case (1 number p)
  show ?case
  proof (cases "p \<le> number")
    case True
    then have le: "unat p \<le> unat number" by (simp add: word_le_nat_alt)
    then have p: "0 < p" "p < 2 ^ 63" "unat p < 2 ^ 63" using "1.prems"(1,2) by (simp_all add: word_less_nat_alt)
    then have "unat (push_bit 1 p) = 2 ^ Suc k" using unat_shift [of p] "1.prems"(2) by simp
    with "1.IH" [of "Suc k"] p True le "1.prems" show ?thesis by (subst pof2_loop.simps) auto
  next
    case False
    then have "unat number < unat p" by (simp add: word_le_nat_alt)
    with False "1.prems" show ?thesis by (subst pof2_loop.simps) (auto intro!: exI [of _ k])
  qed
qed

lemma highest_bit:
  fixes number :: size_t
  shows "number AND push_bit 63 1 \<noteq> 0 \<longleftrightarrow> 2 ^ 63 \<le> unat number"
proof -
  have "unat number < 2 ^ 64" using unsigned_less [of number] by simp
  then have "unat number div 2 ^ 63 < 2" by (simp add: div_less_iff_less_mult)
  then have "odd (unat number div 2 ^ 63) \<longleftrightarrow> 2 ^ 63 \<le> unat number"
    by (cases "unat number div 2 ^ 63") (auto simp: div_eq_0_iff not_le)
  moreover have "bit number 63 \<longleftrightarrow> bit (unat number) 63" by (simp add: bit_unsigned_iff)
  ultimately show ?thesis unfolding push_bit_of_1 and_exp_eq_0_iff_not_bit by (simp add: bit_iff_odd)
qed

text \<open>\<^verbatim>\<open>pof2\<close> is the largest power of two that is not greater than the number.\<close>

lemma pof2_eq:
  assumes "0 < number"
  shows "\<exists>k. unat (pof2 number) = 2 ^ k \<and> 2 ^ k \<le> unat number \<and> unat number < 2 ^ Suc k"
proof (cases "2 ^ 63 \<le> unat number")
  case False
  then have nb: "unat number < 2 ^ 63" and m: "\<not> number AND push_bit 63 1 \<noteq> 0" using highest_bit [of number] by auto
  have pos: "0 < unat number" using assms by (simp add: word_less_nat_alt)
  then have "unat (1::size_t) = 2 ^ 0" "(2::nat) ^ 0 \<le> 2 * unat number" by simp_all
  from pof2_loop_eq [OF nb this] obtain j where
    j: "unat (pof2_loop number 1) = 2 ^ j" "unat number < 2 ^ j" "2 ^ j \<le> 2 * unat number" by blast
  from j(2) pos obtain i where i: "j = Suc i" by (cases j) auto
  have "unat (drop_bit 1 (pof2_loop number 1)) = 2 ^ i" using j(1) i by (simp add: drop_bit_eq_div unat_div)
  moreover have "pof2 number = drop_bit 1 (pof2_loop number 1)" using m by (simp only: pof2_def Let_def if_False)
  ultimately show ?thesis using j i by (intro exI [of _ i]) simp
next
  case True
  then have "pof2 number = push_bit 63 1" using highest_bit [of number] by (simp only: pof2_def Let_def if_True)
  then have "unat (pof2 number) = 2 ^ 63" by simp
  moreover have "unat number < 2 ^ 64" using unsigned_less [of number] by simp
  ultimately show ?thesis using True by (intro exI [of _ 63]) simp
qed

end
