(* ===== verification/AtlTag.thy ===== *)
theory AtlTag
  imports Utils
begin

text \<open>
  The tags that match messages: \<^verbatim>\<open>src/src/comm/atl_tag.hpp\<close>, \<^verbatim>\<open>src/src/comm/atl_tag.cpp\<close> and
  \<^verbatim>\<open>atl_base_comm::init_tag\<close>. A tag packs the rank, the communicator, the schedule and the
  operation into the bits that the transport offers. The schedule ids come from
  \<^verbatim>\<open>ccl_comm::get_sched_id\<close> (\<^verbatim>\<open>src/src/comm/comm.cpp\<close>).
\<close>

section \<open>Layouts\<close>

type_synonym uint16 = "16 word"
type_synonym uint64 = "64 word"

record tag_fields =
  op_id_shift :: nat
  sched_id_shift :: nat
  comm_id_shift :: nat
  rank_shift :: nat
  op_id_mask :: uint64
  sched_id_mask :: uint64
  comm_id_mask :: uint64
  rank_mask :: uint64
  pt2pt_bits :: nat

definition common_tag_layout :: tag_fields where
  "common_tag_layout = \<lparr>op_id_shift = 0, sched_id_shift = 8, comm_id_shift = 24, rank_shift = 40,
     op_id_mask = 0x00000000000000FF, sched_id_mask = 0x0000000000FFFF00,
     comm_id_mask = 0x000000FFFF000000, rank_mask = 0xFFFFFF0000000000, pt2pt_bits = 16\<rparr>"

definition ofi_cxi_tag_layout :: tag_fields where
  "ofi_cxi_tag_layout = \<lparr>op_id_shift = 0, sched_id_shift = 4, comm_id_shift = 16, rank_shift = 28,
     op_id_mask = 0x000000000000000F, sched_id_mask = 0x000000000000FFF0,
     comm_id_mask = 0x000000000FFF0000, rank_mask = 0x0000FFFFF0000000, pt2pt_bits = 12\<rparr>"

definition mpi_tag_layout :: tag_fields where
  "mpi_tag_layout = \<lparr>op_id_shift = 0, sched_id_shift = 4, comm_id_shift = 16, rank_shift = 24,
     op_id_mask = 0x000000000000000F, sched_id_mask = 0x000000000000FFF0,
     comm_id_mask = 0x0000000000FF0000, rank_mask = 0x00000000FF000000, pt2pt_bits = 12\<rparr>"

lemmas layout_defs = common_tag_layout_def ofi_cxi_tag_layout_def mpi_tag_layout_def

text \<open>The constants of \<^verbatim>\<open>pt2pt_tag_layout\<close>; they are of type \<^verbatim>\<open>uint16_t\<close>.\<close>

definition pt2pt_sched_id :: "tag_fields \<Rightarrow> uint16" where
  "pt2pt_sched_id L = word_of_nat (2 ^ pt2pt_bits L - 1)"

definition pt2pt_ack_tag :: "tag_fields \<Rightarrow> uint16" where
  "pt2pt_ack_tag L = pt2pt_sched_id L - 1"

definition pt2pt_ack_first :: "tag_fields \<Rightarrow> uint16" where
  "pt2pt_ack_first L = pt2pt_sched_id L - 2"

definition pt2pt_ack_second :: "tag_fields \<Rightarrow> uint16" where
  "pt2pt_ack_second L = pt2pt_sched_id L - 3"

definition max_sched_count :: "tag_fields \<Rightarrow> uint16" where
  "max_sched_count L = pt2pt_sched_id L - 4"

definition get_pt2pt_sync_tags :: "tag_fields \<Rightarrow> uint16 \<times> uint16" where
  "get_pt2pt_sync_tags L = (pt2pt_ack_first L, pt2pt_ack_second L)"

lemmas pt2pt_defs = pt2pt_sched_id_def pt2pt_ack_tag_def pt2pt_ack_first_def pt2pt_ack_second_def max_sched_count_def

section \<open>Tags\<close>

record ccl_atl_tag =
  tag_bits :: size_t
  max_tag :: size_t
  max_tag_mask :: size_t

definition new_atl_tag :: "size_t \<Rightarrow> size_t \<Rightarrow> ccl_atl_tag result" where
  "new_atl_tag bits mx =
     throw_if_not (bits \<ge> 32) ''unexpected tag_bits''
       (Inr \<lparr>tag_bits = bits, max_tag = mx,
             max_tag_mask = (if mx = pof2 mx * 2 - 1 then mx else pof2 mx - 1)\<rparr>)"

definition create_tag :: "tag_fields \<Rightarrow> ccl_atl_tag \<Rightarrow> int \<Rightarrow> uint16 \<Rightarrow> uint16 \<Rightarrow> 8 word \<Rightarrow> uint64 result" where
  "create_tag L t rank comm_id sched_id op_id =
     (let tag = push_bit (op_id_shift L) (ucast op_id) AND op_id_mask L;
          tag = tag OR (push_bit (sched_id_shift L) (ucast sched_id) AND sched_id_mask L);
          tag = tag OR (push_bit (comm_id_shift L) (ucast comm_id) AND comm_id_mask L);
          tag = tag OR (push_bit (rank_shift L) (word_of_int rank) AND rank_mask L);
          tag = (if tag > max_tag t then tag AND max_tag_mask t else tag)
      in throw_if_not (tag \<le> max_tag t) ''unexpected tag value'' (Inr tag))"

datatype ccl_atl_transport = atl_ofi | atl_mpi

definition init_tag :: "ccl_atl_transport \<Rightarrow> size_t \<Rightarrow> size_t \<Rightarrow> (tag_fields \<times> ccl_atl_tag) result" where
  "init_tag tr bits mx =
     (case tr of
        atl_ofi \<Rightarrow>
          if bits = 48 then rbind (new_atl_tag bits mx) (\<lambda>t. Inr (ofi_cxi_tag_layout, t))
          else rbind (new_atl_tag bits mx) (\<lambda>t. Inr (common_tag_layout, t))
      | atl_mpi \<Rightarrow>
          throw_if_not (mx \<ge> op_id_mask mpi_tag_layout + sched_id_mask mpi_tag_layout)
            ''sched_id and op_id have to be encoded uncut for MPI case''
            (rbind (new_atl_tag bits mx) (\<lambda>t. Inr (mpi_tag_layout, t))))"

section \<open>Schedule ids\<close>

record sched_id_state =
  next_sched_id_internal :: uint16
  next_sched_id_external :: uint16

definition new_sched_ids :: "tag_fields \<Rightarrow> sched_id_state" where
  "new_sched_ids L = \<lparr>next_sched_id_internal = max_sched_count L div 2, next_sched_id_external = 0\<rparr>"

definition get_sched_id :: "tag_fields \<Rightarrow> bool \<Rightarrow> bool \<Rightarrow> sched_id_state \<Rightarrow> uint16 \<times> sched_id_state" where
  "get_sched_id L use_internal_space is_pt2pt c =
     (let id = (if use_internal_space then next_sched_id_internal c else next_sched_id_external c);
          first_sched_id = (if use_internal_space then 0 else max_sched_count L div 2);
          max_sched_id = (if use_internal_space then max_sched_count L div 2 else max_sched_count L);
          next = (if is_pt2pt then id else id + 1);
          next = (if next = max_sched_id then first_sched_id else next)
      in (id, if use_internal_space then c\<lparr>next_sched_id_internal := next\<rparr>
              else c\<lparr>next_sched_id_external := next\<rparr>))"

section \<open>The fields of a tag\<close>

text \<open>What a tag says, read back with the shift and mask of a field.\<close>

definition field_of :: "nat \<Rightarrow> uint64 \<Rightarrow> uint64 \<Rightarrow> uint64" where
  "field_of s m tag = drop_bit s (tag AND m)"

text \<open>A field of width \<open>w\<close> at position \<open>s\<close>.\<close>

lemma bit_masked_field:
  fixes x :: uint64
  shows "bit (push_bit s x AND push_bit s (mask w)) n \<longleftrightarrow> s \<le> n \<and> n < s + w \<and> n < 64 \<and> bit x (n - s)"
  by (auto simp: bit_simps)

lemma masked_field_eq:
  fixes tag x :: uint64
  assumes "\<And>n. s \<le> n \<Longrightarrow> n < s + w \<Longrightarrow> bit tag n \<longleftrightarrow> n < 64 \<and> bit x (n - s)"
  shows "field_of s (push_bit s (mask w)) tag = x AND drop_bit s (push_bit s (mask w))"
proof (rule bit_eqI)
  fix n
  assume "possible_bit TYPE(64 word) n"
  then have n: "n < 64" by (simp add: possible_bit_word)
  have "bit (field_of s (push_bit s (mask w)) tag) n \<longleftrightarrow> n < w \<and> s + n < 64 \<and> bit tag (s + n)"
    by (auto simp: field_of_def bit_simps)
  moreover have "bit (x AND drop_bit s (push_bit s (mask w))) n \<longleftrightarrow> bit x n \<and> n < w \<and> s + n < 64"
    by (auto simp: bit_simps)
  ultimately show "bit (field_of s (push_bit s (mask w)) tag) n \<longleftrightarrow> bit (x AND drop_bit s (push_bit s (mask w))) n"
    using assms [of "s + n"] by auto
qed

text \<open>The layouts put the four fields next to each other.\<close>

definition layout_ok :: "tag_fields \<Rightarrow> nat \<Rightarrow> bool" where
  "layout_ok L k \<longleftrightarrow>
     op_id_shift L = 0 \<and> sched_id_shift L \<le> comm_id_shift L \<and> comm_id_shift L \<le> rank_shift L \<and>
     rank_shift L \<le> k \<and> k \<le> 64 \<and>
     op_id_mask L = push_bit 0 (mask (sched_id_shift L)) \<and>
     sched_id_mask L = push_bit (sched_id_shift L) (mask (comm_id_shift L - sched_id_shift L)) \<and>
     comm_id_mask L = push_bit (comm_id_shift L) (mask (rank_shift L - comm_id_shift L)) \<and>
     rank_mask L = push_bit (rank_shift L) (mask (k - rank_shift L))"

lemma layouts_ok:
  "layout_ok common_tag_layout 64" "layout_ok ofi_cxi_tag_layout 48" "layout_ok mpi_tag_layout 32"
  by (simp_all add: layout_ok_def layout_defs mask_eq_exp_minus_1 push_bit_eq_mult)

definition full_tag :: "tag_fields \<Rightarrow> int \<Rightarrow> uint16 \<Rightarrow> uint16 \<Rightarrow> 8 word \<Rightarrow> uint64" where
  "full_tag L rank comm_id sched_id op_id =
     (push_bit (op_id_shift L) (ucast op_id) AND op_id_mask L) OR
     (push_bit (sched_id_shift L) (ucast sched_id) AND sched_id_mask L) OR
     (push_bit (comm_id_shift L) (ucast comm_id) AND comm_id_mask L) OR
     (push_bit (rank_shift L) (word_of_int rank) AND rank_mask L)"

lemma create_tag_eq:
  "create_tag L t rank comm_id sched_id op_id =
     (let tag = full_tag L rank comm_id sched_id op_id;
          tag = (if tag > max_tag t then tag AND max_tag_mask t else tag)
      in throw_if_not (tag \<le> max_tag t) ''unexpected tag value'' (Inr tag))"
  by (simp add: create_tag_def full_tag_def Let_def or.assoc)

lemma bit_full_tag:
  assumes "layout_ok L k"
  shows "bit (full_tag L rank comm_id sched_id op_id) n \<longleftrightarrow> n < k \<and>
     (if n < sched_id_shift L then bit (ucast op_id :: uint64) n
      else if n < comm_id_shift L then bit (ucast sched_id :: uint64) (n - sched_id_shift L)
      else if n < rank_shift L then bit (ucast comm_id :: uint64) (n - comm_id_shift L)
      else bit (word_of_int rank :: uint64) (n - rank_shift L))"
  using assms by (auto simp: layout_ok_def full_tag_def bit_simps)

text \<open>The mask of the greatest tag has only low bits, and as many as fit below the greatest tag.\<close>

lemma unat_mask64: "unat (mask j :: size_t) = 2 ^ min 64 j - 1"
proof -
  have "unat (mask j :: size_t) = mask (min 64 j)" by (rule bit_eqI) (auto simp: bit_simps)
  then show ?thesis by (simp add: mask_eq_exp_minus_1)
qed

lemma max_tag_mask_form:
  assumes "new_atl_tag bits mx = Inr t" and "0 < mx"
  obtains j where "max_tag t = mx" "max_tag_mask t = mask j" "max_tag_mask t \<le> mx"
    "\<And>k. k \<le> 64 \<Longrightarrow> mask k \<le> mx \<Longrightarrow> k \<le> j"
proof -
  from pof2_eq [OF assms(2)] obtain K where
    K: "unat (pof2 mx) = 2 ^ K" "2 ^ K \<le> unat mx" "unat mx < 2 ^ Suc K" by blast
  have "unat mx < 2 ^ 64" using unsigned_less [of mx] by simp
  with K(2) have "(2::nat) ^ K < 2 ^ 64" by linarith
  then have K64: "K < 64" by (rule power_less_imp_less_exp [rotated]) simp
  have t: "max_tag t = mx" "max_tag_mask t = (if mx = pof2 mx * 2 - 1 then mx else pof2 mx - 1)"
    using assms(1) by (auto simp: new_atl_tag_def result_simps split: if_splits)
  have p: "pof2 mx = 2 ^ K" using arg_cong [OF K(1), of "word_of_nat :: nat \<Rightarrow> size_t"] by simp
  have low: "mask k \<le> mx \<Longrightarrow> k \<le> 64 \<Longrightarrow> 2 ^ k - 1 \<le> unat mx" for k
    by (simp add: word_le_nat_alt unat_mask64 min_absorb2)
  have M: "pof2 mx * 2 - 1 = mask (Suc K)" "pof2 mx - 1 = mask K" by (simp_all add: p mask_eq_exp_minus_1)
  have uM: "unat (mask (Suc K) :: size_t) = 2 ^ Suc K - 1" "unat (mask K :: size_t) = 2 ^ K - 1"
    using K64 by (simp_all add: unat_mask64 min_absorb2)
  show thesis
  proof (cases "mx = pof2 mx * 2 - 1")
    case True
    have "k \<le> Suc K" if "k \<le> 64" "mask k \<le> mx" for k
    proof -
      have "(2::nat) ^ k \<le> 2 ^ Suc K" using low [OF that(2,1)] K(3) by linarith
      then show ?thesis by (rule power_le_imp_le_exp [rotated]) simp
    qed
    moreover have "max_tag_mask t = mask (Suc K)" "max_tag_mask t \<le> mx" using t(2) True M(1) by auto
    ultimately show ?thesis using that [of "Suc K"] t(1) by blast
  next
    case False
    have "mx \<noteq> mask (Suc K)" using False M(1) by metis
    then have "unat mx \<noteq> 2 ^ Suc K - 1" using uM(1) by (metis word_unat_eq_iff)
    then have lt: "unat mx < 2 ^ Suc K - 1" using K(3) by linarith
    have "k \<le> K" if "k \<le> 64" "mask k \<le> mx" for k
    proof -
      have "(2::nat) ^ k < 2 ^ Suc K" using low [OF that(2,1)] lt by linarith
      then have "k < Suc K" by (rule power_less_imp_less_exp [rotated]) simp
      then show ?thesis by simp
    qed
    moreover have "max_tag_mask t = mask K" using t(2) False M(2) by simp
    moreover have "max_tag_mask t \<le> mx"
    proof -
      have "unat (max_tag_mask t) \<le> unat mx" using calculation(2) uM(2) K(2) by simp
      then show ?thesis by (simp add: word_le_nat_alt)
    qed
    ultimately show ?thesis using that [of K] t(1) by blast
  qed
qed

lemma low_masks:
  assumes "layout_ok L k"
  shows "op_id_mask L OR sched_id_mask L = mask (comm_id_shift L)"
    and "op_id_mask L OR sched_id_mask L OR comm_id_mask L = mask (rank_shift L)"
    and "op_id_mask L OR sched_id_mask L OR comm_id_mask L OR rank_mask L = mask k"
  using assms by (auto simp: layout_ok_def bit_simps intro!: bit_eqI)

text \<open>Cutting a tag keeps the bits below the greatest tag.\<close>

definition cut_tag :: "ccl_atl_tag \<Rightarrow> uint64 \<Rightarrow> uint64" where
  "cut_tag t tag = (if tag > max_tag t then tag AND max_tag_mask t else tag)"

lemma cut_tag_le:
  assumes "new_atl_tag bits mx = Inr t" and "0 < mx"
  shows "cut_tag t tag \<le> max_tag t"
proof -
  from assms obtain j where "max_tag t = mx" "max_tag_mask t \<le> mx" by (rule max_tag_mask_form) auto
  then show ?thesis using word_and_le1 [of tag "max_tag_mask t"] by (auto simp: cut_tag_def)
qed

lemma bit_cut_tag:
  assumes "new_atl_tag bits mx = Inr t" and "0 < mx" and "e \<le> 64" and "mask e \<le> mx" and "n < e"
  shows "bit (cut_tag t tag) n \<longleftrightarrow> bit tag n"
proof -
  from assms(1,2) obtain j where j: "max_tag_mask t = mask j" "\<And>k. k \<le> 64 \<Longrightarrow> mask k \<le> mx \<Longrightarrow> k \<le> j"
    by (rule max_tag_mask_form) auto
  have "e \<le> j" using j(2) assms(3,4) by blast
  then show ?thesis using assms(3,5) j(1) by (auto simp: cut_tag_def bit_simps)
qed

lemma create_tag_cut:
  assumes "new_atl_tag bits mx = Inr t" and "0 < mx"
  shows "create_tag L t rank comm_id sched_id op_id = Inr (cut_tag t (full_tag L rank comm_id sched_id op_id))"
  using cut_tag_le [OF assms] by (simp add: create_tag_eq Let_def result_simps flip: cut_tag_def)

lemma init_tag_cases:
  assumes "init_tag tr bits mx = Inr (L, t)"
  obtains k where "layout_ok L k" "k \<le> 64" "new_atl_tag bits mx = Inr t"
proof -
  have "new_atl_tag bits mx = Inr t \<and> (L = common_tag_layout \<or> L = ofi_cxi_tag_layout \<or> L = mpi_tag_layout)"
    using assms by (auto simp: init_tag_def result_simps split: ccl_atl_transport.splits if_splits sum.splits)
  then show thesis using that layouts_ok by (auto simp: layout_ok_def)
qed

text \<open>
  C34: Whatever the transport offers, creating a tag does not fail and gives a tag the transport
  accepts. From the tag one reads back the operation and the schedule, the
  communicator and the rank, each cut to the width of its field, as long as the greatest tag has room for the field.
\<close>

theorem tag_roundtrip:
  assumes "init_tag tr bits mx = Inr (L, t)" and "0 < mx"
  shows "\<exists>tag. create_tag L t rank comm_id sched_id op_id = Inr tag \<and> tag \<le> mx \<and>
    (op_id_mask L OR sched_id_mask L \<le> mx \<longrightarrow>
       field_of (op_id_shift L) (op_id_mask L) tag = ucast op_id AND drop_bit (op_id_shift L) (op_id_mask L) \<and>
       field_of (sched_id_shift L) (sched_id_mask L) tag = ucast sched_id AND drop_bit (sched_id_shift L) (sched_id_mask L)) \<and>
    (op_id_mask L OR sched_id_mask L OR comm_id_mask L \<le> mx \<longrightarrow>
       field_of (comm_id_shift L) (comm_id_mask L) tag = ucast comm_id AND drop_bit (comm_id_shift L) (comm_id_mask L)) \<and>
    (op_id_mask L OR sched_id_mask L OR comm_id_mask L OR rank_mask L \<le> mx \<longrightarrow>
       field_of (rank_shift L) (rank_mask L) tag = word_of_int rank AND drop_bit (rank_shift L) (rank_mask L))"
proof -
  obtain k where L: "layout_ok L k" "k \<le> 64" and t: "new_atl_tag bits mx = Inr t"
    using assms(1) by (rule init_tag_cases)
  define tag where "tag = cut_tag t (full_tag L rank comm_id sched_id op_id)"
  note ok = L(1) [unfolded layout_ok_def]
  have le: "tag \<le> mx" using cut_tag_le [OF t assms(2)] t by (auto simp: tag_def new_atl_tag_def result_simps split: if_splits)
  have bit_tag: "bit tag n \<longleftrightarrow> bit (full_tag L rank comm_id sched_id op_id) n" if "mask e \<le> mx" "e \<le> 64" "n < e" for e n
    unfolding tag_def using bit_cut_tag [OF t assms(2) that(2,1,3)] .
  have "field_of 0 (push_bit 0 (mask (sched_id_shift L))) tag = ucast op_id AND drop_bit 0 (push_bit 0 (mask (sched_id_shift L)))"
    if "mask (comm_id_shift L) \<le> mx"
    by (rule masked_field_eq) (use ok in \<open>auto simp: bit_tag [OF that] bit_full_tag [OF L(1)]\<close>)
  moreover have "field_of (sched_id_shift L) (push_bit (sched_id_shift L) (mask (comm_id_shift L - sched_id_shift L))) tag =
      ucast sched_id AND drop_bit (sched_id_shift L) (push_bit (sched_id_shift L) (mask (comm_id_shift L - sched_id_shift L)))"
    if "mask (comm_id_shift L) \<le> mx"
    by (rule masked_field_eq) (use ok in \<open>auto simp: bit_tag [OF that] bit_full_tag [OF L(1)]\<close>)
  moreover have "field_of (comm_id_shift L) (push_bit (comm_id_shift L) (mask (rank_shift L - comm_id_shift L))) tag =
      ucast comm_id AND drop_bit (comm_id_shift L) (push_bit (comm_id_shift L) (mask (rank_shift L - comm_id_shift L)))"
    if "mask (rank_shift L) \<le> mx"
    by (rule masked_field_eq) (use ok in \<open>auto simp: bit_tag [OF that] bit_full_tag [OF L(1)]\<close>)
  moreover have "field_of (rank_shift L) (push_bit (rank_shift L) (mask (k - rank_shift L))) tag =
      word_of_int rank AND drop_bit (rank_shift L) (push_bit (rank_shift L) (mask (k - rank_shift L)))"
    if "mask k \<le> mx"
    by (rule masked_field_eq) (use ok in \<open>auto simp: bit_tag [OF that] bit_full_tag [OF L(1)]\<close>)
  ultimately show ?thesis
    using le create_tag_cut [OF t assms(2)] low_masks [OF L(1)] ok by (auto simp: tag_def)
qed

theorem tag_roundtrip_witness:
  "\<exists>t tag. init_tag atl_mpi 32 0xFFFFFF = Inr (mpi_tag_layout, t) \<and>
     create_tag mpi_tag_layout t 300 7 9 1 = Inr tag \<and> tag \<le> 0xFFFFFF \<and>
     field_of 0 0xF tag = 1 \<and> field_of 4 0xFFF0 tag = 9 \<and> field_of 16 0xFF0000 tag = 7"
proof -
  have "op_id_mask mpi_tag_layout + sched_id_mask mpi_tag_layout \<le> 0xFFFFFF" by (simp add: mpi_tag_layout_def)
  then obtain t where t: "init_tag atl_mpi 32 0xFFFFFF = Inr (mpi_tag_layout, t)"
    by (simp add: init_tag_def new_atl_tag_def result_simps)
  from tag_roundtrip [OF this, of 300 7 9 1] obtain tag where
    "create_tag mpi_tag_layout t 300 7 9 1 = Inr tag" "tag \<le> 0xFFFFFF"
    "field_of 0 0xF tag = 1" "field_of 4 0xFFF0 tag = 9" "field_of 16 0xFF0000 tag = 7"
    by (auto simp: mpi_tag_layout_def)
  with t show ?thesis by blast
qed

section \<open>Schedule ids and the reserved ids\<close>

text \<open>The ids given out by a sequence of calls, each with \<^verbatim>\<open>use_internal_space\<close> and \<^verbatim>\<open>is_pt2pt\<close>.\<close>

fun sched_ids :: "tag_fields \<Rightarrow> (bool \<times> bool) list \<Rightarrow> sched_id_state \<Rightarrow> uint16 list" where
  "sched_ids L [] c = []"
| "sched_ids L ((internal, pt2pt) # calls) c =
     (let (i, c') = get_sched_id L internal pt2pt c in i # sched_ids L calls c')"

lemma half_le: "w div 2 \<le> w" for w :: uint16
  by (simp add: word_le_nat_alt unat_div)

lemma half_less: "0 < w \<Longrightarrow> w div 2 < w" for w :: uint16
  by (simp add: word_less_nat_alt unat_div)

lemma external_step:
  assumes "next_sched_id_external c < max_sched_count L"
  shows "next_sched_id_external (snd (get_sched_id L b p c)) < max_sched_count L"
proof -
  have pos: "0 < max_sched_count L" by (rule le_less_trans [OF word_zero_le assms])
  have "i < m \<Longrightarrow> i + 1 \<noteq> m \<Longrightarrow> i + 1 < m" for i m :: uint16
    using inc_le [of i m] by (simp add: less_le)
  then show ?thesis using assms half_less [OF pos] by (auto simp: get_sched_id_def Let_def)
qed

lemma external_ids_small:
  assumes "next_sched_id_external c < max_sched_count L" and "i < length calls" and "\<not> fst (calls ! i)"
  shows "sched_ids L calls c ! i < max_sched_count L"
  using assms
proof (induction calls arbitrary: c i)
  case (Cons a calls)
  obtain b p where a: "a = (b, p)" by (cases a)
  have "next_sched_id_external (snd (get_sched_id L b p c)) < max_sched_count L"
    using external_step Cons.prems(1) .
  then show ?case using Cons a by (cases i) (auto simp: get_sched_id_def Let_def split: prod.splits)
qed simp

text \<open>
  The internal space starts at half the count, which is also the bound at which it wraps: the
  counter passes it only by running through all larger values.
\<close>

lemma internal_ids:
  assumes "next_sched_id_internal c = word_of_nat (unat (max_sched_count L div 2) + k)"
    and "unat (max_sched_count L div 2) + k + i < 2 ^ 16" and "i < n"
  shows "sched_ids L (replicate n (True, False)) c ! i = word_of_nat (unat (max_sched_count L div 2) + k + i)"
  using assms
proof (induction i arbitrary: c k n)
  case 0
  then show ?case by (cases n) (simp_all add: get_sched_id_def Let_def)
next
  case (Suc i)
  then obtain n' where n: "n = Suc n'" by (cases n) auto
  define h where "h = unat (max_sched_count L div 2)"
  have "word_of_nat (h + Suc k) \<noteq> max_sched_count L div 2"
  proof
    assume "word_of_nat (h + Suc k) = max_sched_count L div 2"
    then have "unat (word_of_nat (h + Suc k) :: uint16) = h" unfolding h_def by (rule arg_cong)
    moreover have "h + Suc k < 2 ^ 16" using Suc.prems(2) by (simp add: h_def)
    ultimately show False by (simp add: unat_of_nat del: of_nat_add of_nat_Suc)
  qed
  moreover have "next_sched_id_internal c + 1 = word_of_nat (h + Suc k)" using Suc.prems(1) by (simp add: h_def)
  ultimately have "snd (get_sched_id L True False c) = c\<lparr>next_sched_id_internal := word_of_nat (h + Suc k)\<rparr>"
    by (simp add: get_sched_id_def Let_def del: of_nat_add of_nat_Suc)
  moreover have "sched_ids L (replicate n' (True, False)) (c\<lparr>next_sched_id_internal := word_of_nat (h + Suc k)\<rparr>) ! i =
      word_of_nat (h + Suc k + i)"
    unfolding h_def by (rule Suc.IH) (use Suc.prems(2,3) n in simp_all)
  ultimately show ?case by (simp add: n h_def case_prod_unfold)
qed

text \<open>
  C35: The ids of ordinary schedules stay below the ids that are reserved for point-to-point operations.
  The ids of internal schedules do not: the counter starts at the value at which it should wrap,
  so it runs on into the ids of ordinary schedules and reaches the reserved ids.
\<close>

theorem internal_sched_ids_reach_reserved:
  assumes "L = common_tag_layout \<or> L = ofi_cxi_tag_layout \<or> L = mpi_tag_layout"
  shows "max_sched_count L < pt2pt_ack_second L \<and> pt2pt_ack_second L < pt2pt_ack_first L \<and>
      pt2pt_ack_first L < pt2pt_ack_tag L \<and> pt2pt_ack_tag L < pt2pt_sched_id L \<and>
    (\<forall>calls i. i < length calls \<and> \<not> fst (calls ! i) \<longrightarrow> sched_ids L calls (new_sched_ids L) ! i < max_sched_count L) \<and>
    (\<exists>n i. i < n \<and> sched_ids L (replicate n (True, False)) (new_sched_ids L) ! i = pt2pt_sched_id L)"
proof -
  define h where "h = unat (max_sched_count L div 2)"
  define r where "r = unat (pt2pt_sched_id L)"
  have pos: "0 < max_sched_count L" and hr: "h \<le> r" "r < 2 ^ 16"
    using assms by (auto simp: h_def r_def pt2pt_defs layout_defs)
  have "sched_ids L calls (new_sched_ids L) ! i < max_sched_count L" if "i < length calls" "\<not> fst (calls ! i)" for calls i
    by (rule external_ids_small [OF _ that]) (simp add: new_sched_ids_def pos)
  moreover have "sched_ids L (replicate (Suc (r - h)) (True, False)) (new_sched_ids L) ! (r - h) = pt2pt_sched_id L"
  proof -
    have "sched_ids L (replicate (Suc (r - h)) (True, False)) (new_sched_ids L) ! (r - h) = word_of_nat (h + 0 + (r - h))"
      unfolding h_def by (rule internal_ids) (use hr in \<open>simp_all add: new_sched_ids_def h_def\<close>)
    then show ?thesis using hr(1) by (simp add: r_def)
  qed
  then have "\<exists>n i. i < n \<and> sched_ids L (replicate n (True, False)) (new_sched_ids L) ! i = pt2pt_sched_id L" by blast
  ultimately show ?thesis using assms by (auto simp: pt2pt_defs layout_defs)
qed

theorem internal_sched_ids_reach_reserved_witness:
  "max_sched_count mpi_tag_layout < pt2pt_sched_id mpi_tag_layout \<and>
   sched_ids mpi_tag_layout [(False, False), (True, False), (False, False)] (new_sched_ids mpi_tag_layout) ! 2 <
     max_sched_count mpi_tag_layout \<and>
   (\<exists>n i. i < n \<and> sched_ids mpi_tag_layout (replicate n (True, False)) (new_sched_ids mpi_tag_layout) ! i =
      pt2pt_sched_id mpi_tag_layout)"
proof -
  let ?calls = "[(False, False), (True, False), (False, False)]"
  have "(2::nat) < length ?calls \<and> \<not> fst (?calls ! 2)" by simp
  then show ?thesis using internal_sched_ids_reach_reserved [of mpi_tag_layout] by (meson order.strict_trans)
qed

end
