(* ===== verification/CommId.thy ===== *)
theory CommId
  imports Prelude
begin

text \<open>
  Ids of communicators: \<^verbatim>\<open>atl_comm_id_storage\<close> (\<^verbatim>\<open>src/src/atl/atl_base_transport.hpp\<close>) and
  \<^verbatim>\<open>atl_base_comm::create_comm_id\<close> (\<^verbatim>\<open>src/src/atl/atl_base_comm.cpp\<close>). Every process keeps a table of
  the ids that are free. The ranks of a new communicator gather the tables of all of them and take
  the least id that is free everywhere. The gathering is an operation of the
  transport and a parameter.
\<close>

section \<open>The table of one process\<close>

definition max_comm_id :: nat where
  "max_comm_id = 1024"

definition invalid_comm_id :: int where
  "invalid_comm_id = -1"

definition new_comm_id_storage :: "int list" where
  "new_comm_id_storage = replicate max_comm_id 1"

definition acquire_comm_id :: "int \<Rightarrow> int list \<Rightarrow> int list result" where
  "acquire_comm_id v m =
     (if v = invalid_comm_id then Inr m
      else throw_if_not (0 \<le> v \<and> v < int max_comm_id) ''unexpected comm_id'' (Inr (m[nat v := 0])))"

definition release_comm_id :: "int \<Rightarrow> int list \<Rightarrow> int list result" where
  "release_comm_id v m =
     (if v = invalid_comm_id then Inr m
      else throw_if_not (0 \<le> v \<and> v < int max_comm_id) ''unexpected comm_id'' (Inr (m[nat v := 1])))"

section \<open>A new id\<close>

text \<open>The inner loop over the ranks and the outer loop over the ids.\<close>

fun free_on_all :: "int list \<Rightarrow> nat \<Rightarrow> nat \<Rightarrow> nat \<Rightarrow> bool" where
  "free_on_all all_maps len i 0 \<longleftrightarrow> True"
| "free_on_all all_maps len i (Suc n) \<longleftrightarrow> free_on_all all_maps len i n \<and> all_maps ! (n * len + i) = 1"

function find_free :: "int list \<Rightarrow> nat \<Rightarrow> nat \<Rightarrow> nat \<Rightarrow> int" where
  "find_free all_maps len n i =
     (if i < len then if free_on_all all_maps len i n then int i else find_free all_maps len n (Suc i)
      else invalid_comm_id)"
  by auto
termination by (relation "measure (\<lambda>(all_maps, len, n, i). len - i)") auto

declare find_free.simps [simp del]

definition create_comm_id :: "(int list \<Rightarrow> int list result) \<Rightarrow> nat \<Rightarrow> int list \<Rightarrow> (int \<times> int list) result" where
  "create_comm_id allgatherv n m =
     throw_if_not (invalid_comm_id \<notin> set m) ''comm_id_map contains invalid value''
       (rbind (allgatherv m) (\<lambda>all_maps.
          throw_if_not (invalid_comm_id \<notin> set all_maps) ''all_comm_id_maps contains invalid value''
            (let new_comm_id = find_free all_maps (length m) n 0 in
             throw_if_not (new_comm_id \<noteq> invalid_comm_id) ''unexpected comm_id''
               (rbind (acquire_comm_id new_comm_id m) (\<lambda>m'. Inr (new_comm_id, m'))))))"

section \<open>Processes that create and destroy communicators\<close>

text \<open>
  \<open>held\<close> is what the communicators of a process have as their ids. The ranks of a new
  communicator, a list of processes, create it together, each with what the allgatherv
  gives every rank: the tables of all ranks, in their order. A communicator is destroyed on each process on its own,
  by \<^verbatim>\<open>atl_base_comm::~atl_base_comm\<close>.
\<close>

record id_state =
  storage :: "nat \<Rightarrow> int list"
  held :: "nat \<Rightarrow> int list"

definition create_on :: "nat list \<Rightarrow> id_state \<Rightarrow> nat \<Rightarrow> (int \<times> int list) result" where
  "create_on procs s p = create_comm_id (\<lambda>_. Inr (concat (map (storage s) procs))) (length procs) (storage s p)"

inductive id_step :: "id_state \<Rightarrow> id_state \<Rightarrow> bool" where
  create: "distinct procs \<Longrightarrow> procs \<noteq> [] \<Longrightarrow> \<forall>p\<in>set procs. create_on procs s p = Inr (new_id p, st p) \<Longrightarrow>
     id_step s \<lparr>storage = (\<lambda>p. if p \<in> set procs then st p else storage s p),
                held = (\<lambda>p. if p \<in> set procs then new_id p # held s p else held s p)\<rparr>"
| destroy: "i \<in> set (held s p) \<Longrightarrow> release_comm_id i (storage s p) = Inr m \<Longrightarrow>
     id_step s (s\<lparr>storage := (storage s)(p := m), held := (held s)(p := remove1 i (held s p))\<rparr>)"

inductive_cases id_stepE: "id_step s s'"

definition id_start :: id_state where
  "id_start = \<lparr>storage = (\<lambda>_. new_comm_id_storage), held = (\<lambda>_. [])\<rparr>"

section \<open>Invariant\<close>

definition table_ok :: "int list \<Rightarrow> int list \<Rightarrow> bool" where
  "table_ok ids m \<longleftrightarrow>
     distinct ids \<and> (\<forall>i\<in>set ids. 0 \<le> i \<and> i < int max_comm_id) \<and> length m = max_comm_id \<and>
     (\<forall>i<max_comm_id. m ! i = (if int i \<in> set ids then 0 else 1))"

definition id_inv :: "id_state \<Rightarrow> bool" where
  "id_inv s \<longleftrightarrow> (\<forall>p. table_ok (held s p) (storage s p))"

lemma table_ok_valid: "table_ok ids m \<Longrightarrow> invalid_comm_id \<notin> set m"
  by (auto simp: table_ok_def in_set_conv_nth invalid_comm_id_def split: if_splits)

lemma table_ok_acquire:
  assumes "table_ok ids m" and "i < max_comm_id" and "int i \<notin> set ids"
  shows "acquire_comm_id (int i) m = Inr (m[i := 0])" and "table_ok (int i # ids) (m[i := 0])"
  using assms by (auto simp: acquire_comm_id_def invalid_comm_id_def result_simps table_ok_def nth_list_update)

lemma table_ok_release:
  assumes "table_ok ids m" and "i \<in> set ids"
  shows "release_comm_id i m = Inr (m[nat i := 1])" and "table_ok (remove1 i ids) (m[nat i := 1])"
proof -
  have i: "0 \<le> i" "i < int max_comm_id" using assms by (auto simp: table_ok_def)
  show "release_comm_id i m = Inr (m[nat i := 1])" using i by (simp add: release_comm_id_def invalid_comm_id_def result_simps)
  show "table_ok (remove1 i ids) (m[nat i := 1])"
    using assms i by (auto simp: table_ok_def nth_list_update distinct_remove1)
qed

text \<open>The gathered tables, when all have the same length.\<close>

lemma nth_concat_same:
  assumes "\<And>p. p \<in> set ps \<Longrightarrow> length (f p) = len" and "k < length ps" and "i < len"
  shows "concat (map f ps) ! (k * len + i) = f (ps ! k) ! i"
  using assms
proof (induction ps arbitrary: k)
  case (Cons p ps)
  show ?case
  proof (cases k)
    case (Suc k')
    then have "concat (map f (p # ps)) ! (k * len + i) = concat (map f ps) ! (k' * len + i)"
      using Cons.prems by (simp add: nth_append)
    with Suc Cons show ?thesis by simp
  qed (use Cons.prems in \<open>simp add: nth_append\<close>)
qed simp

lemma free_on_all_iff:
  assumes "\<And>p. p \<in> set ps \<Longrightarrow> length (f p) = len" and "n \<le> length ps" and "i < len"
  shows "free_on_all (concat (map f ps)) len i n \<longleftrightarrow> (\<forall>k<n. f (ps ! k) ! i = 1)"
  using assms(2)
  by (induction n) (auto simp: nth_concat_same [OF assms(1)] assms(3) less_Suc_eq)

lemma find_free_spec:
  "find_free all_maps len n i = invalid_comm_id \<and> (\<forall>j. i \<le> j \<and> j < len \<longrightarrow> \<not> free_on_all all_maps len j n) \<or>
   (\<exists>j. find_free all_maps len n i = int j \<and> i \<le> j \<and> j < len \<and> free_on_all all_maps len j n \<and>
        (\<forall>k. i \<le> k \<and> k < j \<longrightarrow> \<not> free_on_all all_maps len k n))"
proof (induction all_maps len n i rule: find_free.induct)
  case (1 all_maps len n i)
  show ?case
  proof (cases "i < len \<and> \<not> free_on_all all_maps len i n")
    case True
    then have "find_free all_maps len n i = find_free all_maps len n (Suc i)" by (subst find_free.simps) simp
    moreover have "k \<noteq> i \<and> i \<le> k \<longleftrightarrow> Suc i \<le> k" for k by auto
    ultimately show ?thesis using 1 True by (metis Suc_leD)
  next
    case False
    then show ?thesis by (subst (1 2) find_free.simps) auto
  qed
qed

text \<open>What the ranks of a new communicator get, in a state in which the tables are right.\<close>

definition taken_on :: "id_state \<Rightarrow> nat list \<Rightarrow> int \<Rightarrow> bool" where
  "taken_on s procs i \<longleftrightarrow> (\<exists>p\<in>set procs. i \<in> set (held s p))"

lemma create_on_cases:
  assumes inv: "id_inv s" and "procs \<noteq> []"
  obtains (fresh) j where "j < max_comm_id" "\<not> taken_on s procs (int j)" "\<forall>k<j. taken_on s procs (int k)"
      "\<And>p. p \<in> set procs \<Longrightarrow> create_on procs s p = Inr (int j, (storage s p)[j := 0])"
  | (full) "\<forall>k<max_comm_id. taken_on s procs (int k)"
      "\<And>p. p \<in> set procs \<Longrightarrow> create_on procs s p = Inl (CclThrow ''unexpected comm_id'')"
proof -
  let ?all = "concat (map (storage s) procs)"
  have ok: "table_ok (held s p) (storage s p)" for p using inv by (simp add: id_inv_def)
  have len: "length (storage s p) = max_comm_id" for p using ok by (simp add: table_ok_def)
  have st: "storage s p ! i = 1 \<longleftrightarrow> int i \<notin> set (held s p)" if "i < max_comm_id" for p i
    using ok [of p] that by (simp add: table_ok_def)
  have free: "free_on_all ?all max_comm_id i (length procs) \<longleftrightarrow> \<not> taken_on s procs (int i)" if "i < max_comm_id" for i
    using that free_on_all_iff [of procs "storage s" max_comm_id "length procs" i]
    by (simp add: len st taken_on_def all_set_conv_all_nth)
  have valid: "invalid_comm_id \<notin> set ?all" using table_ok_valid [OF ok] by auto
  have eq: "create_on procs s p =
      (let i = find_free ?all max_comm_id (length procs) 0 in
       throw_if_not (i \<noteq> invalid_comm_id) ''unexpected comm_id''
         (rbind (acquire_comm_id i (storage s p)) (\<lambda>m. Inr (i, m))))" for p
    using valid table_ok_valid [OF ok [of p]] by (simp add: create_on_def create_comm_id_def result_simps len)
  from find_free_spec [of ?all max_comm_id "length procs" 0] show thesis
  proof (elim disjE exE conjE)
    assume "find_free ?all max_comm_id (length procs) 0 = invalid_comm_id"
      and "\<forall>j. 0 \<le> j \<and> j < max_comm_id \<longrightarrow> \<not> free_on_all ?all max_comm_id j (length procs)"
    then show thesis using full free by (simp add: eq Let_def result_simps)
  next
    fix j
    assume j: "find_free ?all max_comm_id (length procs) 0 = int j" "j < max_comm_id"
      and f: "free_on_all ?all max_comm_id j (length procs)" "\<forall>k. 0 \<le> k \<and> k < j \<longrightarrow> \<not> free_on_all ?all max_comm_id k (length procs)"
    have nt: "\<not> taken_on s procs (int j)" using f(1) free j(2) by blast
    have "create_on procs s p = Inr (int j, (storage s p)[j := 0])" if "p \<in> set procs" for p
    proof -
      have "int j \<notin> set (held s p)" using nt that by (auto simp: taken_on_def)
      then show ?thesis using table_ok_acquire(1) [OF ok j(2)] by (simp add: eq j(1) result_simps invalid_comm_id_def)
    qed
    moreover have "\<forall>k<j. taken_on s procs (int k)" using f(2) free j(2) by auto
    ultimately show thesis using fresh j(2) nt by blast
  qed
qed

lemma id_inv_step:
  assumes "id_inv s" and "id_step s s'"
  shows "id_inv s'"
  using assms(2)
proof (cases rule: id_step.cases)
  case (create procs new_id st)
  from assms(1) create(3) show ?thesis
  proof (cases rule: create_on_cases)
    case (fresh j)
    have "new_id p = int j \<and> st p = (storage s p)[j := 0]" if "p \<in> set procs" for p
      using fresh(4) [OF that] create(4) that by auto
    moreover have "table_ok (int j # held s p) ((storage s p)[j := 0])" if "p \<in> set procs" for p
      using assms(1) fresh(1,2) that by (intro table_ok_acquire(2)) (auto simp: id_inv_def taken_on_def)
    ultimately show ?thesis using assms(1) create(1) by (auto simp: id_inv_def)
  next
    case full
    then show ?thesis using create(3,4) by (cases procs) auto
  qed
next
  case (destroy i p m)
  have ok: "table_ok (held s p) (storage s p)" using assms(1) by (simp add: id_inv_def)
  from table_ok_release [OF ok destroy(2)] destroy(3) have "table_ok (remove1 i (held s p)) m" by simp
  then show ?thesis using assms(1) destroy(1) by (simp add: id_inv_def)
qed

lemma id_inv_start: "id_inv id_start"
  by (simp add: id_inv_def id_start_def table_ok_def new_comm_id_storage_def)

lemma id_inv_reach: "id_step\<^sup>*\<^sup>* id_start s \<Longrightarrow> id_inv s"
  by (induction rule: rtranclp_induct) (auto intro: id_inv_start id_inv_step)

text \<open>
  C36: However processes create and destroy communicators, the ids of the communicators of a process
  differ. The ranks of a new communicator all get the same id, the least that none of them holds, or all
  of them fail, and then every id is held by one of them.
\<close>

theorem comm_ids_agree:
  assumes "id_step\<^sup>*\<^sup>* id_start s" and "procs \<noteq> []"
  shows "(\<forall>p. distinct (held s p)) \<and>
    ((\<exists>j<max_comm_id. (\<forall>p\<in>set procs. create_on procs s p = Inr (int j, (storage s p)[j := 0]) \<and> int j \<notin> set (held s p)) \<and>
                      (\<forall>k<j. \<exists>p\<in>set procs. int k \<in> set (held s p))) \<or>
     ((\<forall>p\<in>set procs. create_on procs s p = Inl (CclThrow ''unexpected comm_id'')) \<and>
      (\<forall>k<max_comm_id. \<exists>p\<in>set procs. int k \<in> set (held s p))))"
proof -
  have inv: "id_inv s" using id_inv_reach [OF assms(1)] .
  then have "\<forall>p. distinct (held s p)" by (simp add: id_inv_def table_ok_def)
  moreover from inv assms(2) have "(\<exists>j<max_comm_id. (\<forall>p\<in>set procs. create_on procs s p = Inr (int j, (storage s p)[j := 0]) \<and> int j \<notin> set (held s p)) \<and>
                      (\<forall>k<j. \<exists>p\<in>set procs. int k \<in> set (held s p))) \<or>
     ((\<forall>p\<in>set procs. create_on procs s p = Inl (CclThrow ''unexpected comm_id'')) \<and>
      (\<forall>k<max_comm_id. \<exists>p\<in>set procs. int k \<in> set (held s p)))"
    by (cases rule: create_on_cases) (auto simp: taken_on_def)
  ultimately show ?thesis by blast
qed

text \<open>Three processes: the first two have a communicator of their own; what the last two then get.\<close>

theorem comm_ids_agree_witness:
  "\<exists>s. id_step\<^sup>*\<^sup>* id_start s \<and> held s 1 = [0] \<and> held s 2 = [] \<and>
     create_on [1, 2] s 1 = Inr (1, (storage s 1)[1 := 0]) \<and> create_on [1, 2] s 2 = Inr (1, (storage s 2)[1 := 0])"
proof -
  have inv: "id_inv id_start" by (rule id_inv_start)
  have e: "\<not> taken_on id_start [0, 1] i" for i by (simp add: taken_on_def id_start_def)
  have first: "create_on [0, 1] id_start p = Inr (0, (storage id_start p)[0 := 0])" if "p \<in> set [0, 1]" for p
    using inv list.distinct(2)
  proof (cases rule: create_on_cases [of _ "[0, 1]"])
    case (fresh j)
    then have "j = 0" using e by blast
    then show ?thesis using fresh(4) [OF that] by simp
  next
    case full
    moreover have "0 < max_comm_id" by (simp add: max_comm_id_def)
    ultimately show ?thesis using e by blast
  qed
  define s where "s = \<lparr>storage = (\<lambda>p. if p \<in> set [0, 1] then (storage id_start p)[0 := 0] else storage id_start p),
      held = (\<lambda>p. if p \<in> set [0, 1] then 0 # held id_start p else held id_start p)\<rparr>"
  have "id_step id_start s" unfolding s_def
    by (rule id_step.create) (use first in auto)
  then have reach: "id_step\<^sup>*\<^sup>* id_start s" by blast
  have held: "held s 1 = [0]" "held s 2 = []" by (simp_all add: s_def id_start_def)
  have nt: "\<not> (\<exists>p\<in>set [1, 2]. int 1 \<in> set (held s p))" "(1::nat) < max_comm_id" using held by (simp_all add: max_comm_id_def)
  have "\<not> (\<forall>k<max_comm_id. \<exists>p\<in>set [1, 2]. int k \<in> set (held s p))" using nt by blast
  with comm_ids_agree [OF reach, of "[1, 2]"] obtain j where j: "j < max_comm_id"
      "\<forall>p\<in>set [1, 2]. create_on [1, 2] s p = Inr (int j, (storage s p)[j := 0]) \<and> int j \<notin> set (held s p)"
      "\<forall>k<j. \<exists>p\<in>set [1, 2]. int k \<in> set (held s p)"
    by blast
  have "j \<noteq> 0" using j(2) held by auto
  moreover have "\<not> 1 < j" using j(3) nt(1) by blast
  ultimately have "j = 1" by simp
  then show ?thesis using reach held j(2) by auto
qed

end
