(* ===== verification/Selection.thy ===== *)
theory Selection
  imports Prelude
begin

text \<open>
  The choice of an algorithm by message size: \<^verbatim>\<open>src/src/coll/selection/selector_impl.hpp\<close>. A table is a
  \<^verbatim>\<open>std::map\<close> from sizes to an algorithm and a border: an algorithm holds for the sizes between an
  entry with a left border and the next one, with a right border, or for the single size of an entry with both
  borders. The template argument, the type of algorithms, is the type variable \<open>'a\<close>, and what its
  helper class provides is an argument of the functions that use it.

  A \<^verbatim>\<open>std::map\<close> is the list of its entries in the order of the keys. An iterator is a
  split of the list; the entry it points to is the first of the second part. Sizes are natural numbers up to
  the greatest \<^verbatim>\<open>size_t\<close>, with the wrap-around of sums and differences written out.
\<close>

section \<open>Tables\<close>

datatype border = border_left | border_right | border_both

type_synonym 'a table = "(nat \<times> 'a \<times> border) list"

definition CCL_SELECTION_MAX_COLL_SIZE :: nat where
  "CCL_SELECTION_MAX_COLL_SIZE = 2 ^ 64 - 1"

definition size_inc :: "nat \<Rightarrow> nat" where
  "size_inc x = (x + 1) mod 2 ^ 64"

definition size_dec :: "nat \<Rightarrow> nat" where
  "size_dec x = (if x = 0 then CCL_SELECTION_MAX_COLL_SIZE else x - 1)"

text \<open>The operations of \<^verbatim>\<open>std::map\<close>.\<close>

definition before :: "nat \<Rightarrow> 'a table \<Rightarrow> 'a table" where
  "before k t = takeWhile (\<lambda>e. fst e < k) t"

definition lower_bound :: "nat \<Rightarrow> 'a table \<Rightarrow> 'a table" where
  "lower_bound k t = dropWhile (\<lambda>e. fst e < k) t"

fun tab_set :: "nat \<Rightarrow> 'a \<times> border \<Rightarrow> 'a table \<Rightarrow> 'a table" where
  "tab_set k v [] = [(k, v)]"
| "tab_set k v ((k', v') # t) =
     (if k < k' then (k, v) # (k', v') # t else if k = k' then (k, v) # t else (k', v') # tab_set k v t)"

definition tab_erase :: "nat \<Rightarrow> 'a table \<Rightarrow> 'a table" where
  "tab_erase k t = filter (\<lambda>e. fst e \<noteq> k) t"

section \<open>Insertion of a range\<close>

text \<open>
  The first loop removes the ranges inside the new one. Its condition reads \<open>es\<close>, the size that the
  previous iteration unpacked.
\<close>

fun remove_loop :: "nat \<Rightarrow> nat \<Rightarrow> 'a table \<Rightarrow> 'a table \<Rightarrow> 'a table result" where
  "remove_loop right es pre [] = Inr pre"
| "remove_loop right es pre ((k, a, b) # suf) =
     (if es \<le> right then
        (case b of
           border_right \<Rightarrow> remove_loop right k (pre @ [(k, a, b)]) suf
         | border_both \<Rightarrow> remove_loop right k pre suf
         | border_left \<Rightarrow>
             (case suf of
                [] \<Rightarrow> Inl (CclThrow ''next_iter != table.end()'')
              | (k2, a2, b2) # suf2 \<Rightarrow>
                  throw_if_not (b2 = border_right) ''next_elem_border == ccl_selection_border_right''
                    (throw_if_not (a = a2) ''elem_algo == next_elem_algo''
                      (if k2 \<le> right then remove_loop right k pre suf2
                       else remove_loop right k (pre @ [(k, a, b)]) suf))))
      else Inr (pre @ (k, a, b) # suf))"

definition remove_internal :: "nat \<Rightarrow> nat \<Rightarrow> 'a table \<Rightarrow> 'a table result" where
  "remove_internal left right t =
     (case lower_bound left t of
        [] \<Rightarrow> Inr t
      | (k, v) # suf \<Rightarrow> remove_loop right k (before left t) ((k, v) # suf))"

text \<open>
  The second loop adjusts the ranges that overlap the new one. When the entry after the new range is
  already there, the entry of the iterator is erased twice, which \<^verbatim>\<open>std::map\<close> leaves undefined.
\<close>

definition adjust_overlap :: "nat \<Rightarrow> nat \<Rightarrow> nat \<Rightarrow> 'a \<Rightarrow> border \<Rightarrow> 'a table \<Rightarrow> 'a table result" where
  "adjust_overlap left right k a b t =
     (if b = border_right then
        throw_if_not (left > 0) ''left > 0''
          (case map_of t (left - 1) of
             Some (pa, pb) \<Rightarrow>
               throw_if_not (pb = border_left) ''prev_elem_border == ccl_selection_border_left''
                 (Inr (tab_erase k (tab_set (left - 1) (pa, border_both) t)))
           | None \<Rightarrow> Inr (tab_erase k (tab_set (left - 1) (a, b) t)))
      else
        throw_if_not (right < CCL_SELECTION_MAX_COLL_SIZE) ''right < CCL_SELECTION_MAX_COLL_SIZE''
          (case map_of t (right + 1) of
             Some (na, nb) \<Rightarrow>
               throw_if_not (nb = border_right) ''next_elem_border == ccl_selection_border_right''
                 (Inl (CclUndefined ''erase of an erased iterator''))
           | None \<Rightarrow> Inr (tab_erase k (tab_set (right + 1) (a, b) t))))"

definition adjust_inside :: "nat \<Rightarrow> nat \<Rightarrow> nat \<Rightarrow> 'a \<Rightarrow> border \<Rightarrow> 'a table \<Rightarrow> 'a table result" where
  "adjust_inside left right k a b t =
     (if b = border_right then
        (case rev (before left t) of
           [] \<Rightarrow> Inl (CclUndefined ''std::prev of begin()'')
         | (pk, pa, pb) # _ \<Rightarrow>
             throw_if_not (right < CCL_SELECTION_MAX_COLL_SIZE) ''right < CCL_SELECTION_MAX_COLL_SIZE''
               (let t1 = tab_set (right + 1) (a, if k = right + 1 then border_both else border_left) t in
                throw_if_not (pb = border_left) ''prev_elem_border == ccl_selection_border_left''
                  (throw_if_not (a = pa) ''elem_algo == prev_elem_algo''
                    (Inr (tab_set (size_dec left)
                       (pa, if pk = size_dec left then border_both else border_right) t1)))))
      else Inr t)"

definition in_new :: "nat \<Rightarrow> nat \<Rightarrow> nat \<times> 'a \<times> border \<Rightarrow> bool" where
  "in_new left right e \<longleftrightarrow> left \<le> fst e \<and> fst e \<le> right"

lemma in_new_tab_set:
  "k < left \<or> right < k \<Longrightarrow> length (filter (in_new left right) (tab_set k v t)) = length (filter (in_new left right) t)"
  by (induction t) (auto simp: in_new_def)

lemma in_new_tab_erase:
  assumes "(k, v) \<in> set t" and "left \<le> k" and "k \<le> right"
  shows "length (filter (in_new left right) (tab_erase k t)) < length (filter (in_new left right) t)"
proof -
  have "filter (in_new left right) (tab_erase k t) = filter (\<lambda>e. fst e \<noteq> k) (filter (in_new left right) t)"
    by (simp add: tab_erase_def conj_commute)
  moreover have "(k, v) \<in> set (filter (in_new left right) t)" using assms by (simp add: in_new_def)
  ultimately show ?thesis using length_filter_less [of "(k, v)" "filter (in_new left right) t" "\<lambda>e. fst e \<noteq> k"] by simp
qed

lemma tab_set_mem: "e \<in> set t \<Longrightarrow> fst e \<noteq> k \<Longrightarrow> e \<in> set (tab_set k v t)"
  by (induction t) auto

lemma adjust_overlap_less:
  assumes "adjust_overlap left right k a b t = Inr t'" and "(k, a, b) \<in> set t" and "left \<le> k" and "k \<le> right"
  shows "length (filter (in_new left right) t') < length (filter (in_new left right) t)"
proof -
  have "\<exists>j v. (j < left \<or> right < j) \<and> t' = tab_erase k (tab_set j v t)"
  proof (cases "b = border_right")
    case True
    then show ?thesis using assms(1)
      by (intro exI [of _ "left - 1"]) (auto simp: adjust_overlap_def result_simps split: if_splits option.splits, blast)
  next
    case False
    then show ?thesis using assms(1)
      by (intro exI [of _ "right + 1"]) (auto simp: adjust_overlap_def result_simps split: if_splits option.splits)
  qed
  then obtain j v where j: "j < left \<or> right < j" "t' = tab_erase k (tab_set j v t)" by blast
  have "(k, a, b) \<in> set (tab_set j v t)" using assms j(1) by (intro tab_set_mem) auto
  from in_new_tab_erase [OF this assms(3,4)] j show ?thesis by (simp add: in_new_tab_set)
qed

function adjust_loop :: "nat \<Rightarrow> nat \<Rightarrow> 'a table \<Rightarrow> 'a table result" where
  "adjust_loop left right t =
     (case lower_bound left t of
        [] \<Rightarrow> Inr t
      | (k, a, b) # _ \<Rightarrow>
          if b = border_both then Inl (CclThrow ''elem_border != ccl_selection_border_both'')
          else if left \<le> k \<and> k \<le> right then
            (case adjust_overlap left right k a b t of Inl e \<Rightarrow> Inl e | Inr t' \<Rightarrow> adjust_loop left right t')
          else adjust_inside left right k a b t)"
  by auto
termination
proof (relation "measure (\<lambda>(left, right, t). length (filter (in_new left right) t))", goal_cases)
  case (2 left right t e es k v a b t')
  then have "(k, a, b) \<in> set t" unfolding lower_bound_def by (metis list.set_intros(1) set_dropWhileD)
  with 2 adjust_overlap_less [of left right k a b t t'] show ?case by simp
qed simp

declare adjust_loop.simps [simp del]

section \<open>Merging\<close>

text \<open>The last loop merges adjacent ranges of the same algorithm.\<close>

function merge_loop :: "'a table \<Rightarrow> 'a table \<Rightarrow> 'a table result" where
  "merge_loop pre [] = Inr pre"
| "merge_loop pre ((k, a, b) # suf) =
     (if b = border_right \<or> b = border_both then
        (case suf of
           [] \<Rightarrow> Inr (pre @ [(k, a, b)])
         | (k2, a2, b2) # suf2 \<Rightarrow>
             if b2 = border_left \<or> b2 = border_both then
               if size_inc k = k2 \<and> a = a2 then
                 if b = border_both then
                   if b2 = border_both then merge_loop (pre @ [(k, a, border_left)]) ((k2, a2, border_right) # suf2)
                   else merge_loop (pre @ [(k, a, border_left)]) suf2
                 else
                   if b2 = border_both then merge_loop pre ((k2, a2, border_right) # suf2)
                   else merge_loop pre suf2
               else merge_loop (pre @ [(k, a, b)]) suf
             else Inl (CclThrow ''next_elem_border''))
      else merge_loop (pre @ [(k, a, b)]) suf)"
  by pat_completeness auto
termination by (relation "measure (\<lambda>(pre, suf). length suf)") auto

declare merge_loop.simps [simp del]

definition table_insert :: "nat \<Rightarrow> nat \<Rightarrow> 'a \<Rightarrow> 'a table \<Rightarrow> 'a table result" where
  "table_insert left right algo t =
     rbind (remove_internal left right t) (\<lambda>t1.
     rbind (adjust_loop left right t1) (\<lambda>t2.
     throw_if_not (map_of t2 left = None) ''table.find(left) == table.end()''
     (throw_if_not (map_of t2 right = None) ''table.find(right) == table.end()''
       (let t3 = (if left = right then tab_set left (algo, border_both) t2
                  else tab_set right (algo, border_right) (tab_set left (algo, border_left) t2))
        in if length t3 = 1 then Inr t3 else merge_loop [] t3))))"

section \<open>The check of a table\<close>

text \<open>What \<^verbatim>\<open>init\<close> checks of each table; \<open>expected\<close> is the set of borders that may come next.\<close>

fun check_borders :: "border list \<Rightarrow> 'a table \<Rightarrow> unit result" where
  "check_borders expected [] = Inr ()"
| "check_borders expected ((k, a, b) # t) =
     (if b \<in> set expected then
        check_borders (if b = border_left then [border_right] else [border_left, border_both]) t
      else Inl (CclThrow ''unexpected elem in table''))"

definition check_table :: "'a table \<Rightarrow> unit result" where
  "check_table t =
     throw_if_not (length t \<ge> 2) ''selection table should have at least 2 entries''
     (throw_if_not (map_of t 0 \<noteq> None \<and> map_of t CCL_SELECTION_MAX_COLL_SIZE \<noteq> None)
        ''selection table should have entries for min and max message sizes''
       (check_borders [border_left, border_both] t))"

section \<open>Selection\<close>

definition get_value_from_table :: "nat \<Rightarrow> 'a table \<Rightarrow> 'a result" where
  "get_value_from_table s t =
     (case lower_bound s t of [] \<Rightarrow> Inl (CclThrow ''Size is out of range'') | (k, a, b) # _ \<Rightarrow> Inr a)"

record 'a ccl_algorithm_selector =
  main_table :: "'a table"
  fallback_table :: "'a table"
  scaleout_table :: "'a table"

text \<open>
  What \<^verbatim>\<open>get\<close> reads of the parameters: the hint, the count, the size of the datatype and whether the
  operation is a scale-out part. \<open>can_use\<close> is the function of the helper class.
\<close>

definition usable_at :: "('a \<Rightarrow> 'a table \<Rightarrow> bool) \<Rightarrow> nat \<Rightarrow> 'a table \<Rightarrow> 'a option" where
  "usable_at can_use sz t =
     (case lower_bound sz t of [] \<Rightarrow> None | (k, a, b) # _ \<Rightarrow> if can_use a t then Some a else None)"

definition get_algo_by_size ::
    "('a \<Rightarrow> 'a table \<Rightarrow> bool) \<Rightarrow> bool \<Rightarrow> nat \<Rightarrow> nat \<Rightarrow> bool \<Rightarrow> 'a ccl_algorithm_selector \<Rightarrow> 'a result" where
  "get_algo_by_size can_use enable_algo_fallback cnt dtype_size is_scaleout sel =
     (let sz = cnt * dtype_size mod 2 ^ 64 in
      case (if is_scaleout then usable_at can_use sz (scaleout_table sel) else None) of
        Some a \<Rightarrow> Inr a
      | None \<Rightarrow>
          (case usable_at can_use sz (main_table sel) of
             Some a \<Rightarrow> Inr a
           | None \<Rightarrow>
               throw_if_not enable_algo_fallback ''can not select algo from main table and fallback is disabled''
                 (case lower_bound sz (fallback_table sel) of
                    [] \<Rightarrow> Inl (CclThrow ''can not select algorithm'')
                  | (k, a, b) # _ \<Rightarrow>
                      throw_if_not (can_use a (fallback_table sel)) ''can not select algorithm in fallback_table'' (Inr a))))"

definition get_algo ::
    "('a \<Rightarrow> 'a table \<Rightarrow> bool) \<Rightarrow> bool \<Rightarrow> 'a option \<Rightarrow> nat \<Rightarrow> nat \<Rightarrow> bool \<Rightarrow> 'a ccl_algorithm_selector \<Rightarrow> 'a result" where
  "get_algo can_use enable_algo_fallback hint cnt dtype_size is_scaleout sel =
     (case hint of
        Some a \<Rightarrow> if can_use a (main_table sel) then Inr a else get_algo_by_size can_use enable_algo_fallback cnt dtype_size is_scaleout sel
      | None \<Rightarrow> get_algo_by_size can_use enable_algo_fallback cnt dtype_size is_scaleout sel)"

end
