(* ===== verification/SelectionInsert.thy ===== *)
theory SelectionInsert
  imports Selection
begin

text \<open>
  Correctness of the insertion into a selection table. A table that covers all sizes is the
  encoding \<open>tab\<close> of a list of adjacent ranges; insertion replaces the algorithm on the new range and keeps it elsewhere.
\<close>

section \<open>Ranges\<close>

fun tab :: "(nat \<times> nat \<times> 'a) list \<Rightarrow> 'a table" where
  "tab [] = []"
| "tab ((l, r, a) # rs) =
     (if l = r then [(l, a, border_both)] else [(l, a, border_left), (r, a, border_right)]) @ tab rs"

fun cov :: "nat \<Rightarrow> (nat \<times> nat \<times> 'a) list \<Rightarrow> nat \<Rightarrow> bool" where
  "cov lo [] hi \<longleftrightarrow> lo = hi"
| "cov lo ((l, r, a) # rs) hi \<longleftrightarrow> l = lo \<and> l \<le> r \<and> cov (Suc r) rs hi"

fun alg :: "(nat \<times> nat \<times> 'a) list \<Rightarrow> nat \<Rightarrow> 'a option" where
  "alg [] s = None"
| "alg ((l, r, a) # rs) s = (if s \<le> r then Some a else alg rs s)"

definition covering :: "'a table \<Rightarrow> bool" where
  "covering t \<longleftrightarrow> (\<exists>rs. cov 0 rs (Suc CCL_SELECTION_MAX_COLL_SIZE) \<and> t = tab rs)"

lemma tab_append [simp]: "tab (xs @ ys) = tab xs @ tab ys"
  by (induction xs rule: tab.induct) auto

lemma cov_le: "cov lo rs hi \<Longrightarrow> lo \<le> hi"
  by (induction lo rs hi rule: cov.induct) auto

lemma cov_append: "cov lo (xs @ ys) hi \<longleftrightarrow> (\<exists>m. cov lo xs m \<and> cov m ys hi)"
  by (induction xs arbitrary: lo) auto

lemma cov_appendI: "cov lo xs m \<Longrightarrow> cov m ys hi \<Longrightarrow> cov lo (xs @ ys) hi"
  by (auto simp: cov_append)

lemma cov_keys: "cov lo rs hi \<Longrightarrow> e \<in> set (tab rs) \<Longrightarrow> lo \<le> fst e \<and> fst e < hi"
proof (induction lo rs hi rule: cov.induct)
  case (2 lo l r a rs hi)
  have "Suc r \<le> hi" using "2.prems"(1) cov_le by auto
  moreover have "e = (l, a, border_both) \<or> e = (l, a, border_left) \<or> e = (r, a, border_right) \<or> e \<in> set (tab rs)"
    using "2.prems"(2) by (auto split: if_splits)
  ultimately show ?case using 2 by auto
qed simp

lemma get_value_tab:
  "cov lo rs hi \<Longrightarrow> get_value_from_table s (tab rs) =
     (case alg rs s of None \<Rightarrow> Inl (CclThrow ''Size is out of range'') | Some a \<Rightarrow> Inr a)"
  by (induction lo rs hi rule: cov.induct) (auto simp: get_value_from_table_def lower_bound_def)

lemma alg_append:
  "cov lo xs m \<Longrightarrow> alg (xs @ ys) s = (if s < m \<and> xs \<noteq> [] then alg xs s else alg ys s)"
  by (induction lo xs m rule: cov.induct) (auto dest: cov_le)

lemma alg_outside: "cov lo xs m \<Longrightarrow> m \<le> s \<Longrightarrow> alg xs s = None"
  by (induction lo xs m rule: cov.induct) (auto dest: cov_le)

lemma cov_split:
  assumes "cov lo rs hi" and "lo \<le> x" and "x < hi"
  obtains A l r a B where "rs = A @ (l, r, a) # B" "cov lo A l" "l \<le> x" "x \<le> r" "cov (Suc r) B hi"
  using assms
proof (induction lo rs hi arbitrary: thesis rule: cov.induct)
  case (2 lo l r a rs hi)
  show ?case
  proof (cases "x \<le> r")
    case True
    then show ?thesis using "2.prems"(1) [of "[]" l r a rs] "2.prems"(2,3) by simp
  next
    case False
    have prem: "cov (Suc r) rs hi" "Suc r \<le> x" "x < hi" using False "2.prems"(2,4) by auto
    obtain A l' r' a' B where "rs = A @ (l', r', a') # B" "cov (Suc r) A l'" "l' \<le> x" "x \<le> r'" "cov (Suc r') B hi"
      by (rule "2.IH" [OF _ prem])
    then show ?thesis using "2.prems"(1) [of "(l, r, a) # A" l' r' a' B] "2.prems"(2) by simp
  qed
qed simp

section \<open>The operations of the map on parts of a table\<close>

lemma not_below: "(\<And>e. e \<in> set ys \<Longrightarrow> k \<le> fst e) \<Longrightarrow> takeWhile (\<lambda>e. fst e < k) ys = [] \<and> dropWhile (\<lambda>e. fst e < k) ys = ys"
  for ys :: "'a table"
proof -
  assume ys: "\<And>e. e \<in> set ys \<Longrightarrow> k \<le> fst e"
  show ?thesis
  proof (cases ys)
    case (Cons e es)
    then have "\<not> fst e < k" using ys [of e] by simp
    with Cons show ?thesis by simp
  qed simp
qed

lemma before_append: "(\<And>e. e \<in> set xs \<Longrightarrow> fst e < k) \<Longrightarrow> (\<And>e. e \<in> set ys \<Longrightarrow> k \<le> fst e) \<Longrightarrow> before k (xs @ ys) = xs"
  using not_below [of ys k] by (simp add: before_def takeWhile_append2)

lemma lower_bound_append:
  "(\<And>e. e \<in> set xs \<Longrightarrow> fst e < k) \<Longrightarrow> (\<And>e. e \<in> set ys \<Longrightarrow> k \<le> fst e) \<Longrightarrow> lower_bound k (xs @ ys) = ys"
  using not_below [of ys k] by (simp add: lower_bound_def dropWhile_append2)

lemma tab_set_new:
  assumes "\<And>e. e \<in> set xs \<Longrightarrow> fst e < k" and "\<And>e. e \<in> set ys \<Longrightarrow> k < fst e"
  shows "tab_set k v (xs @ ys) = xs @ (k, v) # ys"
  using assms(1)
proof (induction xs)
  case Nil
  show ?case
  proof (cases ys)
    case (Cons e es)
    with assms(2) [of e] show ?thesis by (cases e) simp
  qed simp
next
  case (Cons e xs)
  have "fst e < k" using Cons.prems by simp
  with Cons show ?case by (cases e) auto
qed

lemma tab_set_old:
  "(\<And>e. e \<in> set xs \<Longrightarrow> fst e < k) \<Longrightarrow> tab_set k v (xs @ (k, w) # ys) = xs @ (k, v) # ys"
  by (induction xs) fastforce+

lemma tab_erase_mid:
  "(\<And>e. e \<in> set xs \<union> set ys \<Longrightarrow> fst e \<noteq> k) \<Longrightarrow> tab_erase k (xs @ (k, v) # ys) = xs @ ys"
  by (auto simp: tab_erase_def filter_id_conv)

lemma map_of_none: "(\<And>e. e \<in> set t \<Longrightarrow> fst e \<noteq> k) \<Longrightarrow> map_of t k = None"
  by (auto simp: map_of_eq_None_iff)

lemma map_of_mid: "(\<And>e. e \<in> set xs \<Longrightarrow> fst e \<noteq> k) \<Longrightarrow> map_of (xs @ (k, v) # ys) k = Some v"
  by (induction xs) auto

section \<open>Removing the ranges inside the new one\<close>

lemma remove_loop_inner:
  assumes "cov lo I m" and "m \<le> Suc right" and "es \<le> right"
  shows "\<exists>es'\<le>right. remove_loop right es pre (tab I @ ys) = remove_loop right es' pre ys"
  using assms
proof (induction I arbitrary: lo es)
  case (Cons x I)
  obtain l r a where x: "x = (l, r, a)" by (cases x)
  have r: "l \<le> r" "cov (Suc r) I m" using Cons.prems(1) x by auto
  then have "r \<le> right" using cov_le [OF r(2)] Cons.prems(2) by simp
  then have "remove_loop right es pre (tab (x # I) @ ys) = remove_loop right l pre (tab I @ ys)" and "l \<le> right"
    using r(1) Cons.prems(3) by (simp_all add: x)
  with Cons.IH [OF r(2) Cons.prems(2)] show ?case by simp
qed auto

text \<open>After the new range: an overlapping range or one that begins behind it, if it has two borders.\<close>

lemma remove_loop_stop: "right < es \<Longrightarrow> remove_loop right es pre ys = Inr (pre @ ys)"
  by (cases ys) auto

lemma remove_loop_last:
  assumes "es \<le> right" and "cov lo (B :: (nat \<times> nat \<times> 'a) list) hi" and "B = [] \<or> (\<exists>l r a B'. B = (l, r, a) # B' \<and> l < r \<and> right < r)"
  shows "remove_loop right es pre (tab B) = Inr (pre @ tab B)"
proof (cases B)
  case (Cons x B')
  then obtain l r a where x: "B = (l, r, a) # B'" "l < r" "right < r" using assms(3) by auto
  then show ?thesis using assms(1) by (cases "l \<le> right") (simp_all add: remove_loop_stop)
qed simp

lemma tab_head: "cov lo rs hi \<Longrightarrow> rs \<noteq> [] \<Longrightarrow> \<exists>v suf. tab rs = (lo, v) # suf"
  by (cases rs) auto

lemma remove_internal_aligned:
  assumes A: "cov 0 A left" and I: "cov left I m" "m \<le> Suc right" and B: "cov m B hi"
    and last: "B = [] \<or> (\<exists>l r a B'. B = (l, r, a) # B' \<and> l < r \<and> right < r)" and "left \<le> right"
  shows "remove_internal left right (tab (A @ I @ B)) = Inr (tab (A @ B))"
proof -
  have IB: "cov left (I @ B) hi" using I(1) B by (rule cov_appendI)
  have lb: "lower_bound left (tab (A @ I @ B)) = tab (I @ B)" "before left (tab (A @ I @ B)) = tab A"
    using cov_keys [OF A] cov_keys [OF IB] lower_bound_append [of "tab A" left "tab (I @ B)"] before_append [of "tab A" left "tab (I @ B)"]
    by auto
  show ?thesis
  proof (cases "I @ B = []")
    case False
    from tab_head [OF IB False] obtain v suf where h: "tab (I @ B) = (left, v) # suf" by blast
    from remove_loop_inner [OF I assms(6)] obtain es where
      "es \<le> right" "remove_loop right left (tab A) (tab I @ tab B) = remove_loop right es (tab A) (tab B)" by blast
    then have "remove_loop right left (tab A) (tab (I @ B)) = Inr (tab A @ tab B)"
      using remove_loop_last [OF _ B last] by simp
    then show ?thesis using h by (simp add: remove_internal_def lb del: tab_append) simp
  qed (use lb in \<open>simp add: remove_internal_def\<close>)
qed

lemma remove_internal_overlap:
  assumes A: "cov 0 A l1" and P: "l1 < left" "left \<le> r1" "r1 \<le> right" and I: "cov (Suc r1) I m" "m \<le> Suc right" and B: "cov m B hi"
    and last: "B = [] \<or> (\<exists>l r a B'. B = (l, r, a) # B' \<and> l < r \<and> right < r)"
  shows "remove_internal left right (tab (A @ (l1, r1, a1) # I @ B)) = Inr (tab (A @ (l1, r1, a1) # B))"
proof -
  have IB: "cov (Suc r1) (I @ B) hi" using I(1) B by (rule cov_appendI)
  have keysA: "fst e < left" if "e \<in> set (tab A @ [(l1, a1, border_left)])" for e
    using that cov_keys [OF A, of e] P(1) by auto
  have keysB: "left \<le> fst e" if "e \<in> set ((r1, a1, border_right) # tab (I @ B))" for e
    using that cov_keys [OF IB, of e] P(2) by auto
  have t: "tab (A @ (l1, r1, a1) # I @ B) = (tab A @ [(l1, a1, border_left)]) @ (r1, a1, border_right) # tab (I @ B)" using P by simp
  have lb: "lower_bound left (tab (A @ (l1, r1, a1) # I @ B)) = (r1, a1, border_right) # tab (I @ B)"
    "before left (tab (A @ (l1, r1, a1) # I @ B)) = tab A @ [(l1, a1, border_left)]"
    unfolding t by (rule lower_bound_append [OF keysA keysB], assumption+, rule before_append [OF keysA keysB], assumption+)
  from remove_loop_inner [OF I P(3)] obtain es where "es \<le> right"
    "remove_loop right r1 (tab (A @ [(l1, r1, a1)])) (tab I @ tab B) = remove_loop right es (tab (A @ [(l1, r1, a1)])) (tab B)" by blast
  then have "remove_loop right r1 (tab (A @ [(l1, r1, a1)])) (tab (I @ B)) = Inr (tab (A @ [(l1, r1, a1)]) @ tab B)"
    using remove_loop_last [OF _ B last] by simp
  then show ?thesis using P unfolding remove_internal_def lb by simp
qed

lemma remove_internal_inside:
  assumes A: "cov 0 A l1" and P: "l1 < left" "left \<le> right" "right < r1" and B: "cov (Suc r1) B hi"
  shows "remove_internal left right (tab (A @ (l1, r1, a1) # B)) = Inr (tab (A @ (l1, r1, a1) # B))"
proof -
  have keysA: "fst e < left" if "e \<in> set (tab A @ [(l1, a1, border_left)])" for e
    using that cov_keys [OF A, of e] P(1) by auto
  have keysB: "left \<le> fst e" if "e \<in> set ((r1, a1, border_right) # tab B)" for e
    using that cov_keys [OF B, of e] P by auto
  have t: "tab (A @ (l1, r1, a1) # B) = (tab A @ [(l1, a1, border_left)]) @ (r1, a1, border_right) # tab B" using P by simp
  have "lower_bound left (tab (A @ (l1, r1, a1) # B)) = (r1, a1, border_right) # tab B"
    "before left (tab (A @ (l1, r1, a1) # B)) = tab A @ [(l1, a1, border_left)]"
    unfolding t by (rule lower_bound_append [OF keysA keysB], assumption+, rule before_append [OF keysA keysB], assumption+)
  then show ?thesis using P by (simp add: remove_internal_def)
qed

section \<open>Adjusting the ranges that overlap\<close>

lemma adjust_overlap_cases:
  "map_of t (left - 1) = Some (pa, border_left) \<Longrightarrow> 0 < left \<Longrightarrow>
     adjust_overlap left right k a border_right t = Inr (tab_erase k (tab_set (left - 1) (pa, border_both) t))"
  "map_of t (left - 1) = None \<Longrightarrow> 0 < left \<Longrightarrow>
     adjust_overlap left right k a border_right t = Inr (tab_erase k (tab_set (left - 1) (a, border_right) t))"
  "map_of t (right + 1) = Some (na, border_right) \<Longrightarrow> right < CCL_SELECTION_MAX_COLL_SIZE \<Longrightarrow>
     adjust_overlap left right k a border_left t = Inl (CclUndefined ''erase of an erased iterator'')"
  "map_of t (right + 1) = None \<Longrightarrow> right < CCL_SELECTION_MAX_COLL_SIZE \<Longrightarrow>
     adjust_overlap left right k a border_left t = Inr (tab_erase k (tab_set (right + 1) (a, border_left) t))"
  by (simp_all add: adjust_overlap_def)

lemma adjust_loop_cases:
  "lower_bound left t = (k, a, b) # suf \<Longrightarrow> b \<noteq> border_both \<Longrightarrow> left \<le> k \<Longrightarrow> k \<le> right \<Longrightarrow>
     adjust_loop left right t = (case adjust_overlap left right k a b t of Inl e \<Rightarrow> Inl e | Inr t' \<Rightarrow> adjust_loop left right t')"
  "lower_bound left t = (k, a, b) # suf \<Longrightarrow> b \<noteq> border_both \<Longrightarrow> right < k \<Longrightarrow>
     adjust_loop left right t = adjust_inside left right k a b t"
  by (subst adjust_loop.simps, simp)+

lemma adjust_left_part:
  assumes A: "\<And>e. e \<in> set xs \<Longrightarrow> fst e < l1" and ys: "\<And>e. e \<in> set ys \<Longrightarrow> r1 < fst e"
    and P: "l1 < left" "left \<le> r1" "r1 \<le> right"
  shows "adjust_loop left right (xs @ tab [(l1, r1, a1)] @ ys) = adjust_loop left right (xs @ tab [(l1, left - 1, a1)] @ ys)"
proof -
  let ?t = "xs @ tab [(l1, r1, a1)] @ ys"
  have t: "?t = (xs @ [(l1, a1, border_left)]) @ (r1, a1, border_right) # ys" using P by simp
  have lb: "lower_bound left ?t = (r1, a1, border_right) # ys"
    unfolding t by (rule lower_bound_append) (use A ys P in \<open>fastforce+\<close>)
  have "adjust_overlap left right r1 a1 border_right ?t = Inr (xs @ tab [(l1, left - 1, a1)] @ ys)"
  proof (cases "l1 = left - 1")
    case True
    have m: "map_of (xs @ (l1, a1, border_left) # (r1, a1, border_right) # ys) l1 = Some (a1, border_left)"
      by (rule map_of_mid) (use A in fastforce)
    have "adjust_overlap left right r1 a1 border_right ?t = Inr (tab_erase r1 (tab_set (left - 1) (a1, border_both) ?t))"
      by (rule adjust_overlap_cases) (use m P True in simp_all)
    moreover have "tab_set l1 (a1, border_both) (xs @ (l1, a1, border_left) # (r1, a1, border_right) # ys) =
        xs @ (l1, a1, border_both) # (r1, a1, border_right) # ys"
      by (rule tab_set_old) (use A in fastforce)
    moreover have "tab_erase r1 ((xs @ [(l1, a1, border_both)]) @ (r1, a1, border_right) # ys) = (xs @ [(l1, a1, border_both)]) @ ys"
      by (rule tab_erase_mid) (use A ys P in fastforce)
    ultimately show ?thesis using P True by simp
  next
    case False
    have m: "map_of ?t (left - 1) = None" by (rule map_of_none) (use A ys P False in fastforce)
    have "tab_set (left - 1) (a1, border_right) ?t = (xs @ [(l1, a1, border_left)]) @ (left - 1, a1, border_right) # (r1, a1, border_right) # ys"
      unfolding t by (rule tab_set_new) (use A ys P False in fastforce)+
    moreover have "tab_erase r1 (((xs @ [(l1, a1, border_left)]) @ [(left - 1, a1, border_right)]) @ (r1, a1, border_right) # ys) =
        ((xs @ [(l1, a1, border_left)]) @ [(left - 1, a1, border_right)]) @ ys"
      by (rule tab_erase_mid) (use A ys P in fastforce)
    ultimately show ?thesis using adjust_overlap_cases(2) [OF m, of right r1 a1] P False by simp
  qed
  with adjust_loop_cases(1) [OF lb, of right] P show ?thesis by simp
qed

lemma adjust_right_part:
  assumes xs: "\<And>e. e \<in> set xs \<Longrightarrow> fst e < left" and ys: "\<And>e. e \<in> set ys \<Longrightarrow> r2 < fst e"
    and Q: "left \<le> l2" "l2 \<le> right" "right < r2" "r2 \<le> CCL_SELECTION_MAX_COLL_SIZE"
  shows "adjust_loop left right (xs @ tab [(l2, r2, a2)] @ ys) =
    (if r2 = Suc right then Inl (CclUndefined ''erase of an erased iterator'')
     else adjust_loop left right (xs @ tab [(Suc right, r2, a2)] @ ys))"
proof -
  let ?t = "xs @ tab [(l2, r2, a2)] @ ys"
  have t: "?t = xs @ (l2, a2, border_left) # (r2, a2, border_right) # ys" using Q by simp
  have lb: "lower_bound left ?t = (l2, a2, border_left) # (r2, a2, border_right) # ys"
    unfolding t by (rule lower_bound_append) (use xs ys Q in \<open>fastforce+\<close>)
  have "adjust_overlap left right l2 a2 border_left ?t =
      (if r2 = Suc right then Inl (CclUndefined ''erase of an erased iterator'') else Inr (xs @ tab [(Suc right, r2, a2)] @ ys))"
  proof (cases "r2 = Suc right")
    case True
    have m: "map_of ((xs @ [(l2, a2, border_left)]) @ (r2, a2, border_right) # ys) r2 = Some (a2, border_right)"
      by (rule map_of_mid) (use xs Q in fastforce)
    have "adjust_overlap left right l2 a2 border_left ?t = Inl (CclUndefined ''erase of an erased iterator'')"
      by (rule adjust_overlap_cases) (use m Q True in simp_all)
    then show ?thesis using True by simp
  next
    case False
    have m: "map_of ?t (right + 1) = None" by (rule map_of_none) (use xs ys Q False in fastforce)
    have "tab_set (right + 1) (a2, border_left) ((xs @ [(l2, a2, border_left)]) @ (r2, a2, border_right) # ys) =
        (xs @ [(l2, a2, border_left)]) @ (right + 1, a2, border_left) # (r2, a2, border_right) # ys"
      by (rule tab_set_new) (use xs ys Q False in fastforce)+
    moreover have "tab_erase l2 (xs @ (l2, a2, border_left) # (right + 1, a2, border_left) # (r2, a2, border_right) # ys) =
        xs @ (right + 1, a2, border_left) # (r2, a2, border_right) # ys"
      by (rule tab_erase_mid) (use xs ys Q in fastforce)
    ultimately show ?thesis using adjust_overlap_cases(4) [OF m, of left l2 a2] Q False by simp
  qed
  with adjust_loop_cases(1) [OF lb, of right] Q show ?thesis by (simp split del: if_split) simp
qed

lemma adjust_done:
  assumes xs: "\<And>e. e \<in> set xs \<Longrightarrow> fst e < left" and B: "cov (Suc right) B hi" and "left \<le> right"
    and last: "B = [] \<or> (\<exists>l r a B'. B = (l, r, a) # B' \<and> l < r)"
  shows "adjust_loop left right (xs @ tab B) = Inr (xs @ tab B)"
proof -
  have lb: "lower_bound left (xs @ tab B) = tab B"
    by (rule lower_bound_append) (use xs cov_keys [OF B] assms(3) in fastforce)+
  show ?thesis
  proof (cases B)
    case Nil
    with lb show ?thesis by (subst adjust_loop.simps) simp
  next
    case (Cons x B')
    then obtain l r a where "B = (l, r, a) # B'" "l < r" "l = Suc right" using last B by auto
    with lb assms(3) show ?thesis by (subst adjust_loop.simps) (simp add: adjust_inside_def)
  qed
qed

lemma adjust_both_parts:
  assumes A: "\<And>e. e \<in> set xs \<Longrightarrow> fst e < l1" and ys: "\<And>e. e \<in> set ys \<Longrightarrow> r1 < fst e"
    and P: "l1 < left" "left \<le> right" "right < r1" "r1 \<le> CCL_SELECTION_MAX_COLL_SIZE"
  shows "adjust_loop left right (xs @ tab [(l1, r1, a1)] @ ys) =
    Inr (xs @ tab [(l1, left - 1, a1)] @ tab [(Suc right, r1, a1)] @ ys)"
proof -
  let ?t = "xs @ tab [(l1, r1, a1)] @ ys"
  let ?X = "xs @ [(l1, a1, border_left)]"
  have t: "?t = ?X @ (r1, a1, border_right) # ys" using P by simp
  have lb: "lower_bound left ?t = (r1, a1, border_right) # ys" "before left ?t = ?X"
    unfolding t by (rule lower_bound_append before_append, (use A ys P in fastforce)+)+
  let ?Y = "(if r1 = right + 1 then [(r1, a1, border_both)] else [(right + 1, a1, border_left), (r1, a1, border_right)]) @ ys"
  have t1: "tab_set (right + 1) (a1, if r1 = right + 1 then border_both else border_left) (?X @ (r1, a1, border_right) # ys) = ?X @ ?Y"
  proof (cases "r1 = right + 1")
    case True
    then show ?thesis using tab_set_old [of ?X r1 "(a1, border_both)" "(a1, border_right)" ys] A P by fastforce
  next
    case False
    then have "tab_set (right + 1) (a1, border_left) (?X @ (r1, a1, border_right) # ys) = ?X @ (right + 1, a1, border_left) # (r1, a1, border_right) # ys"
      by (intro tab_set_new) (use A ys P in fastforce)+
    with False show ?thesis by simp
  qed
  have dec: "size_dec left = left - 1" using P by (simp add: size_dec_def)
  have "tab_set (left - 1) (a1, if l1 = left - 1 then border_both else border_right) (?X @ ?Y) = xs @ tab [(l1, left - 1, a1)] @ ?Y"
  proof (cases "l1 = left - 1")
    case True
    then show ?thesis using tab_set_old [of xs l1 "(a1, border_both)" "(a1, border_left)" ?Y] A by simp
  next
    case False
    then have "tab_set (left - 1) (a1, border_right) (?X @ ?Y) = ?X @ (left - 1, a1, border_right) # ?Y"
      by (intro tab_set_new) (use A ys P in \<open>fastforce split: if_splits\<close>)+
    with False show ?thesis by simp
  qed
  moreover have "?Y = tab [(Suc right, r1, a1)] @ ys" by auto
  ultimately have "adjust_inside left right r1 a1 border_right ?t = Inr (xs @ tab [(l1, left - 1, a1)] @ tab [(Suc right, r1, a1)] @ ys)"
    using P unfolding adjust_inside_def lb(2) unfolding t t1 dec by (simp add: Let_def)
  with adjust_loop_cases(2) [OF lb(1), of right] P show ?thesis by simp
qed

section \<open>Merging\<close>

lemma size_inc_eq: "Suc k \<le> CCL_SELECTION_MAX_COLL_SIZE \<Longrightarrow> size_inc k = Suc k"
  by (simp add: size_inc_def CCL_SELECTION_MAX_COLL_SIZE_def)

definition merges_to :: "nat \<Rightarrow> 'a table \<Rightarrow> nat \<Rightarrow> (nat \<times> nat \<times> 'a) list \<Rightarrow> 'a table result \<Rightarrow> bool" where
  "merges_to hi pre l rs res \<longleftrightarrow> (\<exists>rs'. res = Inr (pre @ tab rs') \<and> cov l rs' hi \<and> (\<forall>s. alg rs' s = alg rs s))"

lemma merges_to_single: "l \<le> r \<Longrightarrow> res = Inr (pre @ tab [(l, r, a)]) \<Longrightarrow> merges_to (Suc r) pre l [(l, r, a)] res"
  unfolding merges_to_def by (intro exI [of _ "[(l, r, a)]"]) auto

lemma merges_to_Cons:
  assumes "merges_to hi (pre @ tab [(l, r, a)]) (Suc r) rs res" and "l \<le> r"
  shows "merges_to hi pre l ((l, r, a) # rs) res"
proof -
  from assms(1) obtain rs' where "res = Inr ((pre @ tab [(l, r, a)]) @ tab rs')" "cov (Suc r) rs' hi" "\<forall>s. alg rs' s = alg rs s"
    by (auto simp: merges_to_def)
  then show ?thesis unfolding merges_to_def using assms(2) by (intro exI [of _ "(l, r, a) # rs'"]) auto
qed

lemma merges_to_join:
  "merges_to hi pre l ((l, r2, a) # rs) res \<Longrightarrow> r \<le> r2 \<Longrightarrow> merges_to hi pre l ((l, r, a) # (l2, r2, a) # rs) res"
  by (auto simp: merges_to_def)

lemma merge_ranges:
  assumes "cov (Suc r) rs hi" and "l \<le> r" and "hi \<le> Suc CCL_SELECTION_MAX_COLL_SIZE"
  shows "(l < r \<longrightarrow> merges_to hi pre l ((l, r, a) # rs) (merge_loop (pre @ [(l, a, border_left)]) ((r, a, border_right) # tab rs))) \<and>
    merges_to hi pre l ((l, r, a) # rs) (merge_loop pre (tab ((l, r, a) # rs)))"
  using assms
proof (induction rs arbitrary: pre l r a)
  case Nil
  then show ?case by (auto intro!: merges_to_single simp: merge_loop.simps)
next
  case (Cons x rs)
  obtain l2 r2 a2 where x: "x = (l2, r2, a2)" by (cases x)
  have l2: "l2 = Suc r" "l2 \<le> r2" "cov (Suc r2) rs hi" using Cons.prems x by auto
  have inc: "size_inc r = l2" using l2 Cons.prems(3) cov_le [OF l2(3)] by (simp add: size_inc_eq)
  have IH1: "merges_to hi pre l ((l, r2, a) # rs) (merge_loop (pre @ [(l, a, border_left)]) ((r2, a, border_right) # tab rs))"
    using Cons.IH [OF l2(3), of l pre a] l2(1,2) Cons.prems(2,3) by simp
  have IH2: "merges_to hi pre' l2 ((l2, r2, a2) # rs) (merge_loop pre' (tab ((l2, r2, a2) # rs)))" for pre'
    using Cons.IH [OF l2(3,2) Cons.prems(3)] by simp
  have one: "merges_to hi pre l ((l, r, a) # x # rs) (merge_loop (pre @ [(l, a, border_left)]) ((r, a, border_right) # tab (x # rs)))"
    if lr: "l < r"
  proof (cases "a = a2")
    case True
    then have "merge_loop (pre @ [(l, a, border_left)]) ((r, a, border_right) # tab (x # rs)) =
        merge_loop (pre @ [(l, a, border_left)]) ((r2, a, border_right) # tab rs)"
      using inc by (subst merge_loop.simps) (simp add: x)
    then show ?thesis using merges_to_join [OF IH1, of r l2] True l2(1,2) x by simp
  next
    case False
    then have "merge_loop (pre @ [(l, a, border_left)]) ((r, a, border_right) # tab (x # rs)) =
        merge_loop (pre @ tab [(l, r, a)]) (tab ((l2, r2, a2) # rs))"
      using lr by (subst merge_loop.simps) (simp add: x)
    then show ?thesis using merges_to_Cons [OF IH2 [of "pre @ tab [(l, r, a)]", unfolded l2(1)]] Cons.prems(2) x l2(1) by simp
  qed
  show ?case
  proof (cases "l < r")
    case True
    then have "merge_loop pre (tab ((l, r, a) # x # rs)) =
        merge_loop (pre @ [(l, a, border_left)]) ((r, a, border_right) # tab (x # rs))"
      by (simp add: merge_loop.simps(2) [of pre l])
    then show ?thesis using one True by simp
  next
    case False
    then have lr: "l = r" using Cons.prems(2) by simp
    show ?thesis
    proof (cases "a = a2")
      case True
      then have "merge_loop pre (tab ((l, r, a) # x # rs)) =
          merge_loop (pre @ [(l, a, border_left)]) ((r2, a, border_right) # tab rs)"
        using inc lr by (simp add: x merge_loop.simps(2) [of pre r])
      then show ?thesis using merges_to_join [OF IH1, of r l2] True l2(1,2) x lr by simp
    next
      case False
      then have "merge_loop pre (tab ((l, r, a) # x # rs)) = merge_loop (pre @ tab [(l, r, a)]) (tab ((l2, r2, a2) # rs))"
        using lr by (simp add: x merge_loop.simps(2) [of pre r])
      then show ?thesis using merges_to_Cons [OF IH2 [of "pre @ tab [(l, r, a)]", unfolded l2(1)]] Cons.prems(2) x l2(1) lr by simp
    qed
  qed
qed

section \<open>Insertion\<close>

lemma alg_from_0: "cov 0 A m \<Longrightarrow> alg (A @ ys) s = (if s < m then alg A s else alg ys s)"
  using alg_append [of 0 A m ys s] by (cases A) auto

definition add_range :: "nat \<Rightarrow> nat \<Rightarrow> 'a \<Rightarrow> 'a table \<Rightarrow> 'a table result" where
  "add_range left right algo t =
     throw_if_not (map_of t left = None) ''table.find(left) == table.end()''
     (throw_if_not (map_of t right = None) ''table.find(right) == table.end()''
       (let t3 = (if left = right then tab_set left (algo, border_both) t
                  else tab_set right (algo, border_right) (tab_set left (algo, border_left) t))
        in if length t3 = 1 then Inr t3 else merge_loop [] t3))"

lemma table_insert_eq:
  "table_insert left right algo t =
     rbind (remove_internal left right t) (\<lambda>t1. rbind (adjust_loop left right t1) (add_range left right algo))"
  by (simp add: table_insert_def add_range_def [abs_def])

text \<open>The ranges before and behind the new range are in place: \<open>t'\<close> has the algorithms of the three together.\<close>

definition inserted :: "(nat \<times> nat \<times> 'a) list \<Rightarrow> 'a table result \<Rightarrow> bool" where
  "inserted rs res \<longleftrightarrow> (\<exists>rs'. res = Inr (tab rs') \<and> cov 0 rs' (Suc CCL_SELECTION_MAX_COLL_SIZE) \<and> (\<forall>s. alg rs' s = alg rs s))"

lemma add_range_inserted:
  assumes A: "cov 0 A left" and B: "cov (Suc right) B (Suc CCL_SELECTION_MAX_COLL_SIZE)" and lr: "left \<le> right"
  shows "inserted (A @ (left, right, a) # B) (add_range left right a (tab A @ tab B))"
proof -
  note keys = cov_keys [OF A] cov_keys [OF B]
  let ?rs = "A @ (left, right, a) # B"
  have cov: "cov 0 ?rs (Suc CCL_SELECTION_MAX_COLL_SIZE)" using A B lr by (intro cov_appendI) auto
  have none: "map_of (tab A @ tab B) left = None" "map_of (tab A @ tab B) right = None"
    by (rule map_of_none, use keys lr in fastforce)+
  have t3: "(if left = right then tab_set left (a, border_both) (tab A @ tab B)
       else tab_set right (a, border_right) (tab_set left (a, border_left) (tab A @ tab B))) = tab ?rs"
  proof (cases "left = right")
    case True
    have "tab_set left (a, border_both) (tab A @ tab B) = tab A @ (left, a, border_both) # tab B"
      by (rule tab_set_new) (use keys lr in fastforce)+
    then show ?thesis using True by simp
  next
    case False
    have "tab_set left (a, border_left) (tab A @ tab B) = tab A @ (left, a, border_left) # tab B"
      by (rule tab_set_new) (use keys lr in fastforce)+
    moreover have "tab_set right (a, border_right) ((tab A @ [(left, a, border_left)]) @ tab B) =
        (tab A @ [(left, a, border_left)]) @ (right, a, border_right) # tab B"
      by (rule tab_set_new) (use keys lr False in fastforce)+
    ultimately show ?thesis using False by simp
  qed
  obtain l r b rs where rs: "?rs = (l, r, b) # rs" by (cases ?rs) auto
  have "l = 0" "l \<le> r" "cov (Suc r) rs (Suc CCL_SELECTION_MAX_COLL_SIZE)" using cov unfolding rs by auto
  then have "merges_to (Suc CCL_SELECTION_MAX_COLL_SIZE) [] 0 ?rs (merge_loop [] (tab ?rs))"
    using merge_ranges [of r rs _ 0 "[]" b] unfolding rs by auto
  then have "inserted ?rs (merge_loop [] (tab ?rs))" by (simp add: merges_to_def inserted_def)
  moreover have "inserted ?rs (Inr (tab ?rs))" unfolding inserted_def using cov by blast
  moreover have "add_range left right a (tab A @ tab B) = (if length (tab ?rs) = 1 then Inr (tab ?rs) else merge_loop [] (tab ?rs))"
    by (simp only: add_range_def none t3 throw_if_not_True Let_def refl simp_thms)
  ultimately show ?thesis by simp
qed

text \<open>The two situations in which insertion goes wrong.\<close>

definition erases_twice :: "nat \<Rightarrow> nat \<Rightarrow> 'a table \<Rightarrow> bool" where
  "erases_twice left right t \<longleftrightarrow>
     (\<exists>a. map_of t (right + 1) = Some (a, border_right)) \<and> (\<exists>e\<in>set t. in_new left right e \<and> snd (snd e) = border_left)"

definition drops_range :: "nat \<Rightarrow> 'a table \<Rightarrow> bool" where
  "drops_range right t \<longleftrightarrow> (\<exists>a. map_of t (right + 1) = Some (a, border_both))"

definition replaces :: "nat \<Rightarrow> nat \<Rightarrow> 'a \<Rightarrow> (nat \<times> nat \<times> 'a) list \<Rightarrow> (nat \<times> nat \<times> 'a) list \<Rightarrow> bool" where
  "replaces left right a rs rs' \<longleftrightarrow> (\<forall>s. alg rs' s = (if left \<le> s \<and> s \<le> right then Some a else alg rs s))"

text \<open>How the ranges of a table lie to the new range: what follows the ranges inside it.\<close>

definition tail_shape :: "nat \<Rightarrow> nat \<Rightarrow> (nat \<times> nat \<times> 'a) list \<Rightarrow> bool" where
  "tail_shape right m B \<longleftrightarrow> m = Suc right \<or> (\<exists>r2 a2 B2. B = (m, r2, a2) # B2 \<and> m \<le> right \<and> right < r2)"

lemma split_right:
  assumes "cov m0 R hi" and "m0 \<le> Suc right" and "right < hi"
  obtains I B m where "R = I @ B" "cov m0 I m" "cov m B hi" "m0 \<le> m" "m \<le> Suc right" "tail_shape right m B"
proof (cases "m0 = Suc right")
  case True
  then show thesis using that [of "[]" R m0] assms by (simp add: tail_shape_def)
next
  case False
  then have "m0 \<le> right" using assms(2) by simp
  from cov_split [OF assms(1) this assms(3)] obtain I l r a B where
    R: "R = I @ (l, r, a) # B" "cov m0 I l" "l \<le> right" "right \<le> r" "cov (Suc r) B hi" by blast
  show thesis
  proof (cases "r = right")
    case True
    have "cov m0 (I @ [(l, r, a)]) (Suc right)" using R True by (intro cov_appendI) auto
    then show ?thesis using that [of "I @ [(l, r, a)]" B "Suc right"] R True assms(2) by (simp add: tail_shape_def)
  next
    case False
    then show ?thesis using that [of I "(l, r, a) # B" l] R cov_le [OF R(2)] by (auto simp: tail_shape_def)
  qed
qed

lemma new_range_cases:
  assumes "cov 0 rs hi" and "left \<le> right" and "right < hi"
  obtains (inside) A l1 r1 a1 B where "rs = A @ (l1, r1, a1) # B" "cov 0 A l1" "l1 < left" "right < r1" "cov (Suc r1) B hi"
  | (aligned) A I B m where "rs = A @ I @ B" "cov 0 A left" "cov left I m" "cov m B hi" "left \<le> m" "m \<le> Suc right" "tail_shape right m B"
  | (overlap) A l1 r1 a1 I B m where "rs = A @ (l1, r1, a1) # I @ B" "cov 0 A l1" "l1 < left" "left \<le> r1" "r1 \<le> right"
      "cov (Suc r1) I m" "cov m B hi" "Suc r1 \<le> m" "m \<le> Suc right" "tail_shape right m B"
proof -
  have "0 \<le> left" "left < hi" using assms(2,3) by simp_all
  from cov_split [OF assms(1) this] obtain A l1 r1 a1 R where
    rs: "rs = A @ (l1, r1, a1) # R" "cov 0 A l1" "l1 \<le> left" "left \<le> r1" "cov (Suc r1) R hi" by blast
  consider "l1 = left" | "l1 < left" "right < r1" | "l1 < left" "r1 \<le> right" using rs(3) by linarith
  then show thesis
  proof cases
    case 1
    then have "cov left ((l1, r1, a1) # R) hi" using rs by simp
    moreover have "left \<le> Suc right" using assms(2) by simp
    ultimately obtain I B m where
      "(l1, r1, a1) # R = I @ B" "cov left I m" "cov m B hi" "left \<le> m" "m \<le> Suc right" "tail_shape right m B" using assms(3) by (rule split_right)
    then show ?thesis using aligned [of A I B m] rs(1,2) 1 by metis
  next
    case 2
    then show ?thesis using inside rs by blast
  next
    case 3
    have "Suc r1 \<le> Suc right" using 3 by simp
    with rs(5) obtain I B m where
      "R = I @ B" "cov (Suc r1) I m" "cov m B hi" "Suc r1 \<le> m" "m \<le> Suc right" "tail_shape right m B"
      using assms(3) by (rule split_right)
    then show ?thesis using overlap [of A l1 r1 a1 I B m] rs 3 by blast
  qed
qed

text \<open>The end of the second loop.\<close>

definition tail_ok :: "nat \<Rightarrow> nat \<Rightarrow> (nat \<times> nat \<times> 'a) list \<Rightarrow> bool" where
  "tail_ok right m B \<longleftrightarrow>
     (m = Suc right \<and> (B = [] \<or> (\<exists>l r a B'. B = (l, r, a) # B' \<and> l < r))) \<or>
     (\<exists>r2 a2 B2. B = (m, r2, a2) # B2 \<and> m \<le> right \<and> Suc right < r2)"

lemma adjust_tail:
  assumes "cov 0 A left" and "cov m B (Suc CCL_SELECTION_MAX_COLL_SIZE)" and "left \<le> m" and "left \<le> right" and "tail_ok right m B"
  obtains B' where "adjust_loop left right (tab A @ tab B) = Inr (tab A @ tab B')"
    "cov (Suc right) B' (Suc CCL_SELECTION_MAX_COLL_SIZE)" "\<forall>s>right. alg B' s = alg B s"
  using assms(5) unfolding tail_ok_def
proof (elim disjE conjE exE)
  assume "m = Suc right" "B = []"
  then show thesis using that [of B] adjust_done [of "tab A" left right B] cov_keys [OF assms(1)] assms(2,4) by auto
next
  fix l r a B'
  assume "m = Suc right" "B = (l, r, a) # B'" "l < r"
  then show thesis using that [of B] adjust_done [of "tab A" left right B] cov_keys [OF assms(1)] assms(2,4) by auto
next
  fix r2 a2 B2
  assume B: "B = (m, r2, a2) # B2" and m: "m \<le> right" "Suc right < r2"
  have c: "cov (Suc r2) B2 (Suc CCL_SELECTION_MAX_COLL_SIZE)" using assms(2) B by simp
  have r2: "r2 \<le> CCL_SELECTION_MAX_COLL_SIZE" using cov_le [OF c] by simp
  have keys: "fst e < left" if "e \<in> set (tab A)" for e using cov_keys [OF assms(1) that] by simp
  have keys2: "r2 < fst e" if "e \<in> set (tab B2)" for e using cov_keys [OF c that] by simp
  have "adjust_loop left right (tab A @ tab [(m, r2, a2)] @ tab B2) = adjust_loop left right (tab A @ tab [(Suc right, r2, a2)] @ tab B2)"
    using adjust_right_part [of "tab A" left "tab B2" r2 m right a2, OF keys keys2] assms(3) m r2 by simp
  moreover have "adjust_loop left right (tab A @ tab ((Suc right, r2, a2) # B2)) = Inr (tab A @ tab ((Suc right, r2, a2) # B2))"
    by (rule adjust_done) (use keys c m assms(4) in auto)
  ultimately show thesis using that [of "(Suc right, r2, a2) # B2"] B m c by simp
qed

lemma adjust_tail_undefined:
  assumes "cov 0 A left" and "cov m ((m, Suc right, a2) # B2) (Suc CCL_SELECTION_MAX_COLL_SIZE)" and "left \<le> m" and "m \<le> right"
  shows "adjust_loop left right (tab A @ tab ((m, Suc right, a2) # B2)) = Inl (CclUndefined ''erase of an erased iterator'')"
proof -
  have c: "cov (Suc (Suc right)) B2 (Suc CCL_SELECTION_MAX_COLL_SIZE)" using assms(2) by simp
  have "adjust_loop left right (tab A @ tab [(m, Suc right, a2)] @ tab B2) = Inl (CclUndefined ''erase of an erased iterator'')"
    using adjust_right_part [of "tab A" left "tab B2" "Suc right" m right a2] cov_keys [OF assms(1)] cov_keys [OF c] cov_le [OF c] assms(3,4)
    by fastforce
  then show ?thesis by simp
qed

lemma map_of_tab:
  assumes "cov lo (X @ (l, r, a) # Y) hi"
  shows "map_of (tab (X @ (l, r, a) # Y)) l = Some (a, if l = r then border_both else border_left)"
    and "map_of (tab (X @ (l, r, a) # Y)) r = Some (a, if l = r then border_both else border_right)"
proof -
  from assms obtain m where X: "cov lo X m" "m = l" "l \<le> r" by (auto simp: cov_append)
  have keys: "fst e \<noteq> l" "fst e \<noteq> r" if "e \<in> set (tab X)" for e using cov_keys [OF X(1) that] X by auto
  show "map_of (tab (X @ (l, r, a) # Y)) l = Some (a, if l = r then border_both else border_left)"
    using map_of_mid [of "tab X" l] keys by (auto simp del: map_of_append)
  show "map_of (tab (X @ (l, r, a) # Y)) r = Some (a, if l = r then border_both else border_right)"
  proof (cases "l = r")
    case True
    then show ?thesis using map_of_mid [of "tab X" r] keys by (auto simp del: map_of_append)
  next
    case False
    have "map_of ((tab X @ [(l, a, border_left)]) @ (r, a, border_right) # tab Y) r = Some (a, border_right)"
      by (rule map_of_mid) (use keys False in fastforce)
    then show ?thesis using False by simp
  qed
qed

lemma tail_cases:
  assumes "tail_shape right m B" and "cov m B hi"
  obtains (ok) "tail_ok right m B" | (drop) a B' where "m = Suc right" "B = (m, m, a) # B'"
  | (twice) a B' where "B = (m, Suc right, a) # B'" "m \<le> right"
proof (cases "tail_ok right m B")
  case False
  show thesis
  proof (cases "m = Suc right")
    case True
    from False True obtain l r a B' where B: "B = (l, r, a) # B'" "\<not> l < r" by (cases B) (auto simp: tail_ok_def)
    then have "l = m" "r = m" using assms(2) by auto
    then show ?thesis using drop True B by simp
  next
    case m: False
    with assms(1) obtain r a B' where B: "B = (m, r, a) # B'" "m \<le> right" "right < r" by (auto simp: tail_shape_def)
    then have "r = Suc right" using False by (auto simp: tail_ok_def)
    then show ?thesis using twice B by simp
  qed
qed (rule ok)

lemma tail_clash:
  assumes "cov 0 (X @ B) hi" and "cov m B hi" and "tail_shape right m B" and "left \<le> m"
    and "\<not> erases_twice left right (tab (X @ B))" and "\<not> drops_range right (tab (X @ B))"
  shows "tail_ok right m B"
  using assms(3,2)
proof (cases rule: tail_cases)
  case (drop a B')
  then show ?thesis using map_of_tab(1) [of 0 X m m a B' hi] assms(1,6) by (auto simp: drops_range_def)
next
  case (twice a B')
  have "map_of (tab (X @ B)) (Suc right) = Some (a, border_right)"
    using map_of_tab(2) [of 0 X m "Suc right" a B' hi] assms(1) twice by simp
  moreover have "(m, a, border_left) \<in> set (tab (X @ B))" using twice by auto
  ultimately show ?thesis using assms(4,5) twice(2) unfolding erases_twice_def by (force simp: in_new_def)
qed

lemma no_double_erase:
  assumes "cov 0 (X @ B) hi" and "cov m B hi" and "tail_ok right m B"
  shows "map_of (tab (X @ B)) (Suc right) \<noteq> Some (a, border_right)"
  using assms(3) unfolding tail_ok_def
proof (elim disjE conjE exE)
  assume "m = Suc right" "B = []"
  then have "cov 0 X (Suc right)" using assms(1,2) by auto
  then have "map_of (tab X) (Suc right) = None" by (intro map_of_none) (auto dest: cov_keys)
  with \<open>B = []\<close> show ?thesis by simp
next
  fix l r b B'
  assume "m = Suc right" "B = (l, r, b) # B'" "l < r"
  then show ?thesis using map_of_tab(1) [of 0 X "Suc right" r b B' hi] assms(1,2) by auto
next
  fix r2 a2 B2
  assume B: "B = (m, r2, a2) # B2" "m \<le> right" "Suc right < r2"
  have "cov 0 X m" using assms(1,2) B(1) by (auto simp: cov_append)
  moreover have "cov (Suc r2) B2 hi" using assms(2) B(1) by simp
  ultimately have "map_of (tab (X @ B)) (Suc right) = None"
    using B by (intro map_of_none) (fastforce dest: cov_keys)
  then show ?thesis by (simp only: option.distinct not_False_eq_True)
qed

lemma inserted_replaces:
  assumes "inserted rs1 res" and "\<And>s. alg rs1 s = (if left \<le> s \<and> s \<le> right then Some a else alg rs s)"
  shows "\<exists>rs'. res = Inr (tab rs') \<and> cov 0 rs' (Suc CCL_SELECTION_MAX_COLL_SIZE) \<and> replaces left right a rs rs'"
  using assms by (auto simp: inserted_def replaces_def)

lemma insert_ok:
  assumes cov: "cov 0 rs (Suc CCL_SELECTION_MAX_COLL_SIZE)" and lr: "left \<le> right" "right \<le> CCL_SELECTION_MAX_COLL_SIZE"
    and clash: "\<not> erases_twice left right (tab rs)" "\<not> drops_range right (tab rs)"
  shows "\<exists>rs'. table_insert left right a (tab rs) = Inr (tab rs') \<and> cov 0 rs' (Suc CCL_SELECTION_MAX_COLL_SIZE) \<and> replaces left right a rs rs'"
proof -
  have "right < Suc CCL_SELECTION_MAX_COLL_SIZE" using lr by simp
  with cov lr(1) show ?thesis
  proof (cases rule: new_range_cases)
    case (inside A l1 r1 a1 B)
    let ?A = "A @ [(l1, left - 1, a1)]" and ?B = "(Suc right, r1, a1) # B"
    have A: "cov 0 ?A left" using inside(2,3) by (intro cov_appendI) auto
    have B: "cov (Suc right) ?B (Suc CCL_SELECTION_MAX_COLL_SIZE)" using inside(4,5) by simp
    have "adjust_loop left right (tab A @ tab [(l1, r1, a1)] @ tab B) = Inr (tab A @ tab [(l1, left - 1, a1)] @ tab [(Suc right, r1, a1)] @ tab B)"
      by (rule adjust_both_parts)
        (use inside lr cov_keys [OF inside(2)] cov_keys [OF inside(5)] cov_le [OF inside(5)] in \<open>auto simp: Suc_le_eq\<close>)
    then have "adjust_loop left right (tab rs) = Inr (tab ?A @ tab ?B)" using inside(1) by simp
    then have "table_insert left right a (tab rs) = add_range left right a (tab ?A @ tab ?B)"
      unfolding table_insert_eq inside(1) using remove_internal_inside [OF inside(2,3) lr(1) inside(4,5)] by simp
    moreover have "alg (?A @ (left, right, a) # ?B) s = (if left \<le> s \<and> s \<le> right then Some a else alg rs s)" for s
      unfolding inside(1) using inside(3,4) lr(1) by (simp add: alg_from_0 [OF inside(2)] alg_from_0 [OF A]) auto
    ultimately show ?thesis using inserted_replaces [OF add_range_inserted [OF A B lr(1)]] by metis
  next
    case (aligned A I B m)
    have ok: "tail_ok right m B" using tail_clash [of "A @ I" B _ m right left] cov aligned clash by simp
    have last: "B = [] \<or> (\<exists>l r a B'. B = (l, r, a) # B' \<and> l < r \<and> right < r)"
      using ok aligned(4) unfolding tail_ok_def by fastforce
    obtain B' where B': "adjust_loop left right (tab A @ tab B) = Inr (tab A @ tab B')"
        "cov (Suc right) B' (Suc CCL_SELECTION_MAX_COLL_SIZE)" "\<forall>s>right. alg B' s = alg B s"
      using aligned(2,4,5) lr(1) ok by (rule adjust_tail)
    have "table_insert left right a (tab rs) = add_range left right a (tab A @ tab B')"
      unfolding table_insert_eq aligned(1) using remove_internal_aligned [OF aligned(2,3,6,4) last lr(1)] B'(1) by simp
    moreover have "alg (A @ (left, right, a) # B') s = (if left \<le> s \<and> s \<le> right then Some a else alg rs s)" for s
      using aligned(6) B'(3) cov_appendI [OF aligned(2,3)] unfolding aligned(1)
      by (simp add: alg_from_0 [OF aligned(2)] alg_append [OF aligned(3)])
    ultimately show ?thesis using inserted_replaces [OF add_range_inserted [OF aligned(2) B'(2) lr(1)]] by metis
  next
    case (overlap A l1 r1 a1 I B m)
    let ?A = "A @ [(l1, left - 1, a1)]"
    have A: "cov 0 ?A left" using overlap(2,3) by (intro cov_appendI) auto
    have m: "left \<le> m" using overlap(4,8) by simp
    have ok: "tail_ok right m B" using tail_clash [of "A @ (l1, r1, a1) # I" B _ m right left] cov overlap(1,7,10) m clash by simp
    have last: "B = [] \<or> (\<exists>l r a B'. B = (l, r, a) # B' \<and> l < r \<and> right < r)"
      using ok overlap(7) unfolding tail_ok_def by fastforce
    obtain B' where B': "adjust_loop left right (tab ?A @ tab B) = Inr (tab ?A @ tab B')"
        "cov (Suc right) B' (Suc CCL_SELECTION_MAX_COLL_SIZE)" "\<forall>s>right. alg B' s = alg B s"
      using A overlap(7) m lr(1) ok by (rule adjust_tail)
    have "adjust_loop left right (tab A @ tab [(l1, r1, a1)] @ tab B) = adjust_loop left right (tab A @ tab [(l1, left - 1, a1)] @ tab B)"
      by (rule adjust_left_part)
        (use overlap cov_keys [OF overlap(2)] cov_keys [OF overlap(7)] in \<open>auto simp: Suc_le_eq intro: less_le_trans\<close>)
    then have "table_insert left right a (tab rs) = add_range left right a (tab ?A @ tab B')"
      unfolding table_insert_eq overlap(1)
      using remove_internal_overlap [OF overlap(2,3,4,5,6,9,7) last] B'(1) by simp
    moreover have "alg (?A @ (left, right, a) # B') s = (if left \<le> s \<and> s \<le> right then Some a else alg rs s)" for s
      using overlap(3,4,5,8,9) B'(3) unfolding overlap(1) alg_from_0 [OF A] alg_from_0 [OF overlap(2)]
      by (auto simp: alg_append [OF overlap(6)])
    ultimately show ?thesis using inserted_replaces [OF add_range_inserted [OF A B'(2) lr(1)]] by metis
  qed
qed

lemma insert_undefined:
  assumes cov: "cov 0 rs (Suc CCL_SELECTION_MAX_COLL_SIZE)" and lr: "left \<le> right" "right \<le> CCL_SELECTION_MAX_COLL_SIZE"
    and twice: "erases_twice left right (tab rs)"
  shows "table_insert left right a (tab rs) = Inl (CclUndefined ''erase of an erased iterator'')"
proof -
  from twice obtain b where b: "map_of (tab rs) (Suc right) = Some (b, border_right)" by (auto simp: erases_twice_def)
  have tail: "\<exists>a2 B2. B = (m, Suc right, a2) # B2 \<and> m \<le> right"
    if "rs = X @ B" "cov m B (Suc CCL_SELECTION_MAX_COLL_SIZE)" "tail_shape right m B" for X B m
    using that(3,2)
  proof (cases rule: tail_cases)
    case ok
    then show ?thesis using no_double_erase [of X B _ m right b] that(1,2) cov b by blast
  next
    case (drop a2 B2)
    then show ?thesis using map_of_tab(1) [of 0 X m m a2 B2] that(1) cov b by auto
  qed blast
  have "right < Suc CCL_SELECTION_MAX_COLL_SIZE" using lr by simp
  with cov lr(1) show ?thesis
  proof (cases rule: new_range_cases)
    case (inside A l1 r1 a1 B)
    have "\<not> in_new left right e" if "e \<in> set (tab rs)" for e
      using that inside cov_keys [OF inside(2), of e] cov_keys [OF inside(5), of e] by (auto simp: in_new_def split: if_splits)
    then show ?thesis using twice by (auto simp: erases_twice_def)
  next
    case (aligned A I B m)
    from tail [of "A @ I" B m] aligned obtain a2 B2 where B: "B = (m, Suc right, a2) # B2" "m \<le> right" by auto
    have "remove_internal left right (tab (A @ I @ B)) = Inr (tab (A @ B))"
      by (rule remove_internal_aligned) (use aligned B lr in auto)
    then show ?thesis unfolding table_insert_eq aligned(1)
      using adjust_tail_undefined [of A left m right a2 B2] aligned B by (simp del: tab.simps)
  next
    case (overlap A l1 r1 a1 I B m)
    from tail [of "A @ (l1, r1, a1) # I" B m] overlap obtain a2 B2 where B: "B = (m, Suc right, a2) # B2" "m \<le> right" by auto
    have "remove_internal left right (tab (A @ (l1, r1, a1) # I @ B)) = Inr (tab (A @ (l1, r1, a1) # B))"
      by (rule remove_internal_overlap) (use overlap B lr in auto)
    moreover have "adjust_loop left right (tab A @ tab [(l1, r1, a1)] @ tab B) = adjust_loop left right (tab A @ tab [(l1, left - 1, a1)] @ tab B)"
      by (rule adjust_left_part)
        (use overlap cov_keys [OF overlap(2)] cov_keys [OF overlap(7)] in \<open>auto simp: Suc_le_eq intro: less_le_trans\<close>)
    moreover have "cov 0 (A @ [(l1, left - 1, a1)]) left" using overlap(2,3) by (intro cov_appendI) auto
    ultimately show ?thesis unfolding table_insert_eq overlap(1)
      using adjust_tail_undefined [of "A @ [(l1, left - 1, a1)]" left m right a2 B2] overlap B by (simp add: tab.simps(2) [of l1] split del: if_split del: tab.simps(2))
  qed
qed

lemma check_borders_tab: "cov lo rs hi \<Longrightarrow> check_borders [border_left, border_both] (tab rs) = Inr ()"
proof (induction rs arbitrary: lo)
  case (Cons x rs)
  obtain l r a where x: "x = (l, r, a)" by (cases x)
  with Cons have "check_borders [border_left, border_both] (tab rs) = Inr ()" by auto
  then show ?case by (cases "l = r") (simp_all add: x)
qed simp

lemma covering_checked:
  assumes "covering t"
  shows "check_table t = Inr ()"
proof -
  from assms obtain rs where rs: "cov 0 rs (Suc CCL_SELECTION_MAX_COLL_SIZE)" "t = tab rs" by (auto simp: covering_def)
  have mx: "0 < CCL_SELECTION_MAX_COLL_SIZE" by (simp add: CCL_SELECTION_MAX_COLL_SIZE_def)
  obtain l0 r a B where c: "rs = (l0, r, a) # B" using rs(1) by (cases rs) auto
  then have c0: "l0 = 0" using rs(1) by simp
  have m0: "map_of t 0 \<noteq> None" using map_of_tab(1) [of 0 "[]" 0 r a B] rs c c0 by simp
  obtain A l r' a' B' where s: "rs = A @ (l, r', a') # B'" "cov 0 A l" "l \<le> CCL_SELECTION_MAX_COLL_SIZE"
      "CCL_SELECTION_MAX_COLL_SIZE \<le> r'" "cov (Suc r') B' (Suc CCL_SELECTION_MAX_COLL_SIZE)"
    by (rule cov_split [OF rs(1) le0 lessI])
  then have "r' = CCL_SELECTION_MAX_COLL_SIZE" using cov_le [OF s(5)] s(4) by simp
  then have m1: "map_of t CCL_SELECTION_MAX_COLL_SIZE \<noteq> None" using map_of_tab(2) [of 0 A l r' a' B'] rs s(1) by simp
  have "length t \<ge> 2"
  proof (rule ccontr)
    assume "\<not> length t \<ge> 2"
    then have "t = [] \<or> (\<exists>e. t = [e])" by (cases t; cases "tl t") auto
    then show False using m0 m1 mx by (auto split: if_splits)
  qed
  then show ?thesis using m0 m1 check_borders_tab [OF rs(1)] rs(2) by (simp add: check_table_def)
qed

text \<open>
  C12: Inserting a range into a table that covers all sizes replaces the algorithm for the sizes of the range and
  keeps it for all others; the result covers all sizes and passes the check of \<^verbatim>\<open>init\<close>. This holds unless
  the size after the range is a range of its own, or is the end of a range that begins inside the new one. In
  the latter case an iterator is erased twice.
\<close>

theorem insert_replaces_range:
  assumes "covering t" and "left \<le> right" and "right \<le> CCL_SELECTION_MAX_COLL_SIZE"
  shows "(\<not> erases_twice left right t \<and> \<not> drops_range right t \<longrightarrow>
      (\<exists>t'. table_insert left right a t = Inr t' \<and> covering t' \<and> check_table t' = Inr () \<and>
         (\<forall>s. get_value_from_table s t' = (if left \<le> s \<and> s \<le> right then Inr a else get_value_from_table s t)))) \<and>
    (erases_twice left right t \<longrightarrow> table_insert left right a t = Inl (CclUndefined ''erase of an erased iterator''))"
proof -
  from assms(1) obtain rs where rs: "cov 0 rs (Suc CCL_SELECTION_MAX_COLL_SIZE)" "t = tab rs" by (auto simp: covering_def)
  have "\<exists>t'. table_insert left right a t = Inr t' \<and> covering t' \<and> check_table t' = Inr () \<and>
      (\<forall>s. get_value_from_table s t' = (if left \<le> s \<and> s \<le> right then Inr a else get_value_from_table s t))"
    if "\<not> erases_twice left right t" "\<not> drops_range right t"
  proof -
    from insert_ok [OF rs(1) assms(2,3)] that rs(2) obtain rs' where
      rs': "table_insert left right a t = Inr (tab rs')" "cov 0 rs' (Suc CCL_SELECTION_MAX_COLL_SIZE)" "replaces left right a rs rs'" by blast
    then have "covering (tab rs')" by (auto simp: covering_def)
    moreover have "get_value_from_table s (tab rs') = (if left \<le> s \<and> s \<le> right then Inr a else get_value_from_table s t)" for s
      using rs'(3) by (auto simp: get_value_tab [OF rs'(2)] get_value_tab [OF rs(1)] rs(2) replaces_def)
    ultimately show ?thesis using rs'(1) covering_checked by blast
  qed
  then show ?thesis using insert_undefined [OF rs(1) assms(2,3)] rs(2) by blast
qed

text \<open>Algorithm 1 up to size 99 and algorithm 2 from size 100 on.\<close>

definition two_ranges :: "nat table" where
  "two_ranges = [(0, 1, border_left), (99, 1, border_right), (100, 2, border_left), (2 ^ 64 - 1, 2, border_right)]"

lemma two_ranges_covering: "covering two_ranges"
  unfolding covering_def
  by (intro exI [of _ "[(0, 99, 1), (100, 2 ^ 64 - 1, 2)]"]) (simp add: two_ranges_def CCL_SELECTION_MAX_COLL_SIZE_def)

theorem insert_replaces_range_witness:
  "covering two_ranges \<and>
   (\<exists>t'. table_insert 50 149 3 two_ranges = Inr t' \<and> covering t' \<and> get_value_from_table 49 t' = Inr 1 \<and>
      get_value_from_table 50 t' = Inr 3 \<and> get_value_from_table 149 t' = Inr 3 \<and> get_value_from_table 150 t' = Inr 2) \<and>
   table_insert 50 (2 ^ 64 - 2) 3 two_ranges = Inl (CclUndefined ''erase of an erased iterator'')"
proof -
  have m: "\<not> erases_twice 50 149 two_ranges" "\<not> drops_range 149 two_ranges"
    by (simp_all add: erases_twice_def drops_range_def two_ranges_def)
  have "(149::nat) \<le> CCL_SELECTION_MAX_COLL_SIZE" by (simp add: CCL_SELECTION_MAX_COLL_SIZE_def)
  with insert_replaces_range [OF two_ranges_covering, of 50 149 3] m obtain t' where
    t': "table_insert 50 149 3 two_ranges = Inr t'" "covering t'"
      "\<forall>s. get_value_from_table s t' = (if 50 \<le> s \<and> s \<le> 149 then Inr 3 else get_value_from_table s two_ranges)" by auto
  have "get_value_from_table 49 two_ranges = Inr 1" "get_value_from_table 150 two_ranges = Inr 2"
    by (simp_all add: get_value_from_table_def lower_bound_def two_ranges_def)
  then have "\<exists>t'. table_insert 50 149 3 two_ranges = Inr t' \<and> covering t' \<and> get_value_from_table 49 t' = Inr 1 \<and>
      get_value_from_table 50 t' = Inr 3 \<and> get_value_from_table 149 t' = Inr 3 \<and> get_value_from_table 150 t' = Inr 2"
    using t' by (intro exI [of _ t']) simp
  moreover have "erases_twice 50 (2 ^ 64 - 2) two_ranges"
    by (simp add: erases_twice_def two_ranges_def in_new_def)
  ultimately show ?thesis
    using insert_replaces_range [OF two_ranges_covering, of 50 "2 ^ 64 - 2" 3] two_ranges_covering
    by (simp add: CCL_SELECTION_MAX_COLL_SIZE_def)
qed


section \<open>The choice\<close>

lemma covering_at:
  assumes "covering t" and "s \<le> CCL_SELECTION_MAX_COLL_SIZE"
  obtains k a b suf where "lower_bound s t = (k, a, b) # suf" "get_value_from_table s t = Inr a"
proof -
  from assms(1) obtain rs where rs: "cov 0 rs (Suc CCL_SELECTION_MAX_COLL_SIZE)" "t = tab rs" by (auto simp: covering_def)
  have "s < Suc CCL_SELECTION_MAX_COLL_SIZE" using assms(2) by simp
  with rs(1) le0 obtain A l r a B where s: "rs = A @ (l, r, a) # B" "cov 0 A l" "l \<le> s" "s \<le> r"
    "cov (Suc r) B (Suc CCL_SELECTION_MAX_COLL_SIZE)" by (rule cov_split)
  have "alg rs s = Some a" using s by (simp add: alg_from_0)
  then have "get_value_from_table s t = Inr a" using get_value_tab [OF rs(1), of s] rs(2) by simp
  then show thesis using that by (auto simp: get_value_from_table_def split: list.splits)
qed



end
