(* ===== verification/SelectionParse.thy ===== *)
theory SelectionParse
  imports SelectionInsert Datatype
begin

text \<open>
  The configuration of a selection table by a string of blocks, each the name of an algorithm with or
  without a range of sizes: \<^verbatim>\<open>fill_table_from_str\<close> of \<^verbatim>\<open>src/src/coll/selection/selector_impl.hpp\<close> and
  \<^verbatim>\<open>algo_from_str\<close> of \<^verbatim>\<open>selector_helper.hpp\<close>. Of the standard library the code uses \<^verbatim>\<open>std::getline\<close>,
  \<^verbatim>\<open>substr\<close> and \<^verbatim>\<open>strtoul\<close>, which are modelled here.
\<close>

section \<open>Reading numbers and pieces of strings\<close>

text \<open>The next piece of a stream up to a delimiter and what remains; at the end of the stream there is none.\<close>

definition getline :: "char \<Rightarrow> string \<Rightarrow> (string \<times> string) option" where
  "getline d s =
     (if s = [] then None
      else Some (takeWhile (\<lambda>c. c \<noteq> d) s, drop (Suc (length (takeWhile (\<lambda>c. c \<noteq> d) s))) s))"

definition is_digit :: "char \<Rightarrow> bool" where
  "is_digit c \<longleftrightarrow> 48 \<le> (of_char c :: nat) \<and> (of_char c :: nat) \<le> 57"

definition is_space :: "char \<Rightarrow> bool" where
  "is_space c \<longleftrightarrow> (of_char c :: nat) = 32 \<or> 9 \<le> (of_char c :: nat) \<and> (of_char c :: nat) \<le> 13"

fun digits_value :: "nat \<Rightarrow> string \<Rightarrow> nat" where
  "digits_value n [] = n"
| "digits_value n (c # cs) = (if is_digit c then digits_value (10 * n + (of_char c - 48)) cs else n)"

definition strtoul :: "string \<Rightarrow> nat" where
  "strtoul s =
     (let s1 = dropWhile is_space s;
          neg = (s1 \<noteq> [] \<and> hd s1 = CHR ''-'');
          s2 = (if s1 \<noteq> [] \<and> (hd s1 = CHR ''-'' \<or> hd s1 = CHR ''+'') then tl s1 else s1);
          v = digits_value 0 s2
      in if v > CCL_SELECTION_MAX_COLL_SIZE then CCL_SELECTION_MAX_COLL_SIZE
         else if neg then (2 ^ 64 - v) mod 2 ^ 64 else v)"

definition size_of_str :: "string \<Rightarrow> nat" where
  "size_of_str s = (if s = ''max'' then CCL_SELECTION_MAX_COLL_SIZE else strtoul s)"

section \<open>The configuration\<close>

text \<open>The names of the algorithms in the order of the enumeration.\<close>

fun algo_from_str :: "('a \<times> string) list \<Rightarrow> string \<Rightarrow> 'a result" where
  "algo_from_str [] str = Inl (CclThrow ''unknown algorithm name'')"
| "algo_from_str ((a, name) # names) str = (if str = name then Inr a else algo_from_str names str)"

definition fill_block :: "('a \<times> string) list \<Rightarrow> string \<Rightarrow> 'a table \<Rightarrow> 'a table result" where
  "fill_block names block t =
     (case getline CHR '':'' block of
        None \<Rightarrow> Inl (CclThrow ''can not parse algorithm name from string'')
      | Some (algo_name_str, _) \<Rightarrow>
          rbind (algo_from_str names algo_name_str) (\<lambda>algo.
            if length algo_name_str = length block then
              table_insert 0 CCL_SELECTION_MAX_COLL_SIZE algo []
            else
              (case getline CHR ''-'' (drop (length algo_name_str + 1) block) of
                 None \<Rightarrow> Inl (CclThrow ''can not parse left size from string'')
               | Some (left_str, _) \<Rightarrow>
                   let left_size = size_of_str left_str;
                       pos = length algo_name_str + length left_str + 2
                   in if pos > length block then Inl (CclThrow ''can not parse right size from string'')
                      else
                        (case getline CHR ''-'' (drop pos block) of
                           None \<Rightarrow> Inl (CclThrow ''can not parse right size from string'')
                         | Some (right_str, _) \<Rightarrow>
                             let right_size = size_of_str right_str
                             in throw_if_not (left_size \<le> right_size) ''left border should be less or equal to right border''
                                  (table_insert left_size right_size algo t)))))"

function fill_table_from_str :: "('a \<times> string) list \<Rightarrow> string \<Rightarrow> 'a table \<Rightarrow> 'a table result" where
  "fill_table_from_str names s t =
     (case getline CHR '';'' s of
        None \<Rightarrow> Inr t
      | Some (block, rest) \<Rightarrow>
          if block = [] then Inl (CclThrow ''Empty block detected in string'')
          else (case fill_block names block t of
                  Inl e \<Rightarrow> Inl e
                | Inr t' \<Rightarrow> fill_table_from_str names rest t'))"
  by auto
termination
  by (relation "measure (\<lambda>(names, s, t). length s)") (auto simp: getline_def split: if_splits)

declare fill_table_from_str.simps [simp del]

text \<open>\<^verbatim>\<open>init\<close>: the strings of the environment configure two of the tables, and all three are checked.\<close>

definition init_selector ::
    "('a \<times> string) list \<Rightarrow> string \<Rightarrow> string \<Rightarrow> 'a ccl_algorithm_selector \<Rightarrow> 'a ccl_algorithm_selector result" where
  "init_selector names main_str scaleout_str sel =
     rbind (fill_table_from_str names main_str (main_table sel)) (\<lambda>m.
     rbind (fill_table_from_str names scaleout_str (scaleout_table sel)) (\<lambda>sc.
     rbind (check_table m) (\<lambda>_.
     rbind (check_table (fallback_table sel)) (\<lambda>_.
     rbind (check_table sc) (\<lambda>_.
       Inr (sel\<lparr>main_table := m, scaleout_table := sc\<rparr>))))))"

section \<open>Written configurations\<close>

text \<open>
  A configuration is a list of settings: an algorithm for all sizes, or for a range. It is written in the
  format that the comment of \<^verbatim>\<open>fill_table_from_str\<close> gives, the greatest size as \<^verbatim>\<open>max\<close>.
\<close>

datatype 'a setting = Whole 'a | Range 'a nat nat

definition size_to_str :: "nat \<Rightarrow> string" where
  "size_to_str n = (if n = CCL_SELECTION_MAX_COLL_SIZE then ''max'' else decimal n)"

fun setting_str :: "('a \<Rightarrow> string) \<Rightarrow> 'a setting \<Rightarrow> string" where
  "setting_str name (Whole a) = name a"
| "setting_str name (Range a l r) = name a @ '':'' @ size_to_str l @ ''-'' @ size_to_str r"

definition config_str :: "('a \<Rightarrow> string) \<Rightarrow> 'a setting list \<Rightarrow> string" where
  "config_str name cfg = concat (map (\<lambda>x. setting_str name x @ '';'') cfg)"

fun apply_settings :: "'a setting list \<Rightarrow> 'a table \<Rightarrow> 'a table result" where
  "apply_settings [] t = Inr t"
| "apply_settings (Whole a # cfg) t = rbind (table_insert 0 CCL_SELECTION_MAX_COLL_SIZE a []) (apply_settings cfg)"
| "apply_settings (Range a l r # cfg) t = rbind (table_insert l r a t) (apply_settings cfg)"

fun good_setting :: "'a set \<Rightarrow> 'a setting \<Rightarrow> bool" where
  "good_setting A (Whole a) \<longleftrightarrow> a \<in> A"
| "good_setting A (Range a l r) \<longleftrightarrow> a \<in> A \<and> l \<le> r \<and> r \<le> CCL_SELECTION_MAX_COLL_SIZE"

text \<open>The names of the algorithms are different, not empty and free of delimiters.\<close>

definition good_names :: "('a \<times> string) list \<Rightarrow> bool" where
  "good_names names \<longleftrightarrow> distinct (map fst names) \<and> distinct (map snd names) \<and>
     (\<forall>n \<in> set (map snd names). n \<noteq> [] \<and> CHR '':'' \<notin> set n \<and> CHR '';'' \<notin> set n)"

lemma takeWhile_delim: "d \<notin> set x \<Longrightarrow> takeWhile (\<lambda>c. c \<noteq> d) (x @ d # y) = x"
  by (induction x) auto

lemma getline_delim: "d \<notin> set x \<Longrightarrow> getline d (x @ d # y) = Some (x, y)"
  by (simp add: getline_def takeWhile_delim)

lemma getline_last: "d \<notin> set x \<Longrightarrow> x \<noteq> [] \<Longrightarrow> getline d x = Some (x, [])"
proof -
  assume a: "d \<notin> set x" "x \<noteq> []"
  from a(1) have "takeWhile (\<lambda>c. c \<noteq> d) x = x" by (auto simp: takeWhile_eq_all_conv)
  with a(2) show ?thesis unfolding getline_def by (simp del: takeWhile_eq_all_conv)
qed

lemma digits_value_append: "\<forall>c \<in> set xs. is_digit c \<Longrightarrow> digits_value m (xs @ ys) = digits_value (digits_value m xs) ys"
  by (induction xs arbitrary: m) auto

lemma is_digit_char: "(n :: nat) < 10 \<Longrightarrow> is_digit (char_of (48 + n))"
  by (simp add: is_digit_def)

declare decimal.simps [simp del]

lemma decimal_digits: "\<forall>c \<in> set (decimal n). is_digit c"
proof (induction n rule: decimal.induct)
  case (1 n)
  show ?case
  proof (cases "n < 10")
    case True
    then show ?thesis by (simp add: decimal.simps [of n] is_digit_char)
  next
    case False
    then have "decimal n = decimal (n div 10) @ [char_of (48 + n mod 10)]" by (simp add: decimal.simps [of n])
    then show ?thesis using 1 [OF False] is_digit_char [of "n mod 10"] by simp
  qed
qed

lemma digits_value_decimal: "digits_value 0 (decimal n) = n"
proof (induction n rule: decimal.induct)
  case (1 n)
  show ?case
  proof (cases "n < 10")
    case True
    then show ?thesis by (simp add: decimal.simps [of n] is_digit_char)
  next
    case False
    then have "decimal n = decimal (n div 10) @ [char_of (48 + n mod 10)]" by (simp add: decimal.simps [of n])
    then show ?thesis using 1 [OF False] is_digit_char [of "n mod 10"]
      by (simp add: digits_value_append [OF decimal_digits])
  qed
qed

lemma decimal_ne: "decimal n \<noteq> []"
  by (simp add: decimal.simps [of n])

lemma not_digits: "\<not> is_digit CHR ''-''" "\<not> is_digit CHR ''+''" "\<not> is_digit CHR '';''" "\<not> is_digit CHR '':''" "\<not> is_digit CHR ''m''"
  by (simp_all add: is_digit_def)

lemma digit_not_space: "is_digit c \<Longrightarrow> \<not> is_space c"
  by (auto simp: is_digit_def is_space_def)

lemma size_of_str_decimal:
  assumes "n \<le> CCL_SELECTION_MAX_COLL_SIZE"
  shows "size_of_str (size_to_str n) = n"
proof (cases "n = CCL_SELECTION_MAX_COLL_SIZE")
  case True
  then show ?thesis by (simp add: size_of_str_def size_to_str_def)
next
  case False
  obtain c cs where c: "decimal n = c # cs" using decimal_ne [of n] by (cases "decimal n") auto
  then have "is_digit c" using decimal_digits [of n] by simp
  then have "c \<noteq> CHR ''-''" "c \<noteq> CHR ''+''" "c \<noteq> CHR ''m''" "\<not> is_space c"
    using not_digits digit_not_space by auto
  then have "strtoul (decimal n) = n" "decimal n \<noteq> ''max''"
    using assms digits_value_decimal [of n] c by (simp_all add: strtoul_def Let_def)
  then show ?thesis using False by (simp add: size_of_str_def size_to_str_def)
qed

lemma size_to_str_chars: "set (size_to_str n) \<subseteq> {c. is_digit c} \<union> set ''max''"
  using decimal_digits [of n] by (auto simp: size_to_str_def)

lemma size_to_str_delims: "CHR ''-'' \<notin> set (size_to_str n)" "CHR '';'' \<notin> set (size_to_str n)" "CHR '':'' \<notin> set (size_to_str n)"
  using size_to_str_chars [of n] not_digits by auto

lemma size_to_str_ne: "size_to_str n \<noteq> []"
  by (simp add: size_to_str_def decimal_ne)

lemma algo_from_str_map_of:
  "distinct (map snd names) \<Longrightarrow> (a, n) \<in> set names \<Longrightarrow> algo_from_str names n = Inr a"
  by (induction names) (auto, force)

lemma fill_block_whole:
  assumes "good_names names" and "(a, n) \<in> set names"
  shows "fill_block names n t = table_insert 0 CCL_SELECTION_MAX_COLL_SIZE a []"
proof -
  have "getline CHR '':'' n = Some (n, [])" using assms by (intro getline_last) (auto simp: good_names_def)
  moreover have "algo_from_str names n = Inr a" using assms by (intro algo_from_str_map_of) (auto simp: good_names_def)
  ultimately show ?thesis by (simp add: fill_block_def result_simps)
qed

lemma fill_block_range:
  assumes "good_names names" and "(a, n) \<in> set names" and "l \<le> r" and "r \<le> CCL_SELECTION_MAX_COLL_SIZE"
  shows "fill_block names (n @ '':'' @ size_to_str l @ ''-'' @ size_to_str r) t = table_insert l r a t"
proof -
  let ?ls = "size_to_str l" and ?rs = "size_to_str r"
  have "getline CHR '':'' (n @ CHR '':'' # (?ls @ CHR ''-'' # ?rs)) = Some (n, ?ls @ CHR ''-'' # ?rs)"
    using assms by (intro getline_delim) (auto simp: good_names_def)
  moreover have "getline CHR ''-'' (?ls @ CHR ''-'' # ?rs) = Some (?ls, ?rs)"
    by (intro getline_delim size_to_str_delims)
  moreover have "getline CHR ''-'' ?rs = Some (?rs, [])"
    by (intro getline_last size_to_str_delims size_to_str_ne)
  moreover have "algo_from_str names n = Inr a" using assms by (intro algo_from_str_map_of) (auto simp: good_names_def)
  moreover have "size_of_str ?ls = l" "size_of_str ?rs = r" using assms by (auto intro: size_of_str_decimal)
  ultimately show ?thesis using assms(3) by (simp add: fill_block_def result_simps Let_def)
qed

lemma setting_str_block:
  assumes "good_names names" and "good_setting (fst ` set names) x"
    and name: "\<And>a. a \<in> fst ` set names \<Longrightarrow> (a, name a) \<in> set names"
  shows "setting_str name x \<noteq> []" and "CHR '';'' \<notin> set (setting_str name x)"
    and "fill_block names (setting_str name x) t = apply_settings [x] t"
proof -
  have r: "rbind q Inr = q" for q :: "'a table result" by (cases q) (simp_all add: result_simps)
  have e: "apply_settings [] = (Inr :: 'a table \<Rightarrow> 'a table result)" by (rule ext) simp
  have n: "a \<in> fst ` set names \<Longrightarrow> name a \<noteq> [] \<and> CHR '';'' \<notin> set (name a)" for a
    using name [of a] assms(1) by (force simp: good_names_def)
  show "setting_str name x \<noteq> []" using n assms(2) by (cases x) auto
  show "CHR '';'' \<notin> set (setting_str name x)" using n assms(2) size_to_str_delims by (cases x) auto
  show "fill_block names (setting_str name x) t = apply_settings [x] t"
    using assms(2) fill_block_whole [OF assms(1) name] fill_block_range [OF assms(1) name]
    by (cases x) (simp_all add: r e)
qed

lemma apply_settings_Cons: "apply_settings (x # cfg) t = rbind (apply_settings [x] t) (apply_settings cfg)"
proof -
  have r: "rbind (rbind q Inr) f = rbind q f" for q :: "'a table result" and f :: "'a table \<Rightarrow> 'a table result"
    by (cases q) (simp_all add: result_simps)
  have e: "apply_settings [] = (Inr :: 'a table \<Rightarrow> 'a table result)" by (rule ext) simp
  show ?thesis by (cases x) (simp_all add: r e)
qed

text \<open>
  C39: Parsing a written configuration inserts its settings in order. With different, non-empty names free of
  delimiters, the string that writes a list of settings, each an algorithm for all sizes or for a range
  with borders up to the greatest size, fills a table exactly as inserting the ranges one after the other does,
  an algorithm for all sizes after clearing the table; an error of an insertion is the error of the whole.
\<close>

theorem config_roundtrip:
  assumes "good_names names" and "list_all (good_setting (fst ` set names)) cfg"
    and "list_all (\<lambda>a. (a, name a) \<in> set names) (map fst names)"
  shows "fill_table_from_str names (config_str name cfg) t = apply_settings cfg t"
  using assms(2)
proof (induction cfg arbitrary: t)
  case Nil
  then show ?case by (simp add: config_str_def fill_table_from_str.simps [of names "[]"] getline_def)
next
  case (Cons x cfg)
  have nm: "(a, name a) \<in> set names" if "a \<in> fst ` set names" for a using assms(3) that by (auto simp: list_all_iff)
  note b = setting_str_block [OF assms(1) _ nm, of x]
  have "getline CHR '';'' (config_str name (x # cfg)) = Some (setting_str name x, config_str name cfg)"
    using b(2) Cons.prems by (simp add: config_str_def getline_delim)
  then have "fill_table_from_str names (config_str name (x # cfg)) t =
      (case fill_block names (setting_str name x) t of Inl e \<Rightarrow> Inl e | Inr t' \<Rightarrow> fill_table_from_str names (config_str name cfg) t')"
    using b(1) Cons.prems by (simp add: fill_table_from_str.simps [of names "config_str name (x # cfg)"])
  also have "\<dots> = (case apply_settings [x] t of Inl e \<Rightarrow> Inl e | Inr t' \<Rightarrow> apply_settings cfg t')"
    using b(3) Cons by (simp split: sum.splits)
  also have "\<dots> = apply_settings (x # cfg) t"
    by (cases "apply_settings [x] t") (simp_all add: apply_settings_Cons [of x cfg])
  finally show ?case .
qed

definition two_names :: "(nat \<times> string) list" where
  "two_names = [(0, ''direct''), (1, ''ring'')]"

theorem config_roundtrip_witness:
  "fill_table_from_str two_names ''direct;ring:0-4096;'' [] =
     Inr [(0, 1, border_left), (4096, 1, border_right), (4097, 0, border_left), (2 ^ 64 - 1, 0, border_right)]"
proof -
  let ?name = "\<lambda>a. if a = 0 then ''direct'' else ''ring''" and ?cfg = "[Whole 0, Range 1 0 4096] :: nat setting list"
  have "good_names two_names" by (simp add: two_names_def good_names_def)
  moreover have "list_all (good_setting (fst ` set two_names)) ?cfg"
    by (simp add: two_names_def CCL_SELECTION_MAX_COLL_SIZE_def)
  moreover have "list_all (\<lambda>a. (a, ?name a) \<in> set two_names) (map fst two_names)" by (simp add: two_names_def)
  ultimately have "fill_table_from_str two_names (config_str ?name ?cfg) [] = apply_settings ?cfg []"
    by (rule config_roundtrip)
  moreover have "config_str ?name ?cfg = ''direct;ring:0-4096;''"
    by (simp add: config_str_def size_to_str_def CCL_SELECTION_MAX_COLL_SIZE_def decimal.simps char_of_def bit_iff_odd)
  moreover have "apply_settings ?cfg [] =
      Inr [(0, 1, border_left), (4096, 1, border_right), (4097, 0, border_left), (2 ^ 64 - 1, 0, border_right)]"
    by (simp add: table_insert_def remove_internal_def lower_bound_def before_def adjust_loop.simps adjust_inside_def
        adjust_overlap_def tab_erase_def merge_loop.simps size_inc_def CCL_SELECTION_MAX_COLL_SIZE_def)
  ultimately show ?thesis by simp
qed

end
