(* ===== verification/Confluence.thy ===== *)
theory Confluence
  imports Prelude
begin

text \<open>
  Step relations in which concurrent steps commute. If one run of such a system ends in a
  state without successors, then every run can be completed to that state, no run is
  longer, and no other final state can be reached: one schedule of the steps decides them
  all. The execution of collective schedules is an instance (theory \<open>CollExec\<close>).
\<close>

locale commuting_steps =
  fixes step :: "'s \<Rightarrow> 's \<Rightarrow> bool"
    and good :: "'s \<Rightarrow> bool"
  assumes good_step: "good s \<Longrightarrow> step s t \<Longrightarrow> good t"
    and commute: "good s \<Longrightarrow> step s t \<Longrightarrow> step s u \<Longrightarrow> t = u \<or> (\<exists>v. step t v \<and> step u v)"
begin

definition final :: "'s \<Rightarrow> bool" where
  "final s \<longleftrightarrow> (\<forall>t. \<not> step s t)"

lemma good_run: "step\<^sup>*\<^sup>* s t \<Longrightarrow> good s \<Longrightarrow> good t"
  by (induction rule: rtranclp_induct) (auto intro: good_step)

text \<open>A single step away from a run of length \<open>n\<close> to a final state leaves \<open>n - 1\<close> steps to it.\<close>

lemma strip:
  "good s \<Longrightarrow> (step ^^ Suc n) s t \<Longrightarrow> final t \<Longrightarrow> step s u \<Longrightarrow> (step ^^ n) u t"
proof (induction n arbitrary: s u)
  case 0
  then have st: "step s t" by auto
  from commute [OF 0(1) st 0(4)] 0(3) show ?case
    by (auto simp: final_def)
next
  case (Suc n)
  from Suc.prems(2) obtain s1 where s1: "step s s1" "(step ^^ Suc n) s1 t"
    by (metis relpowp_Suc_D2)
  have g1: "good s1" by (rule good_step [OF Suc.prems(1) s1(1)])
  from commute [OF Suc.prems(1) s1(1) Suc.prems(4)] show ?case
  proof
    assume "s1 = u"
    with s1(2) show ?case by simp
  next
    assume "\<exists>v. step s1 v \<and> step u v"
    then obtain v where v: "step s1 v" "step u v" by blast
    from Suc.IH [OF g1 s1(2) Suc.prems(3) v(1)] v(2) show ?case
      by (metis relpowp_Suc_I2)
  qed
qed

lemma strip_0: "(step ^^ 0) s t \<Longrightarrow> final t \<Longrightarrow> \<not> step s u"
  by (auto simp: final_def)

lemma strip_run:
  assumes "good s" and "(step ^^ n) s t" and "final t" and "(step ^^ k) s u"
  shows "k \<le> n \<and> (step ^^ (n - k)) u t"
  using assms(4)
proof (induction k arbitrary: u)
  case 0
  with assms show ?case by simp
next
  case (Suc k)
  from Suc.prems obtain v where v: "(step ^^ k) s v" "step v u" by auto
  from Suc.IH [OF v(1)] have vt: "k \<le> n" "(step ^^ (n - k)) v t" by auto
  have "good v" by (rule good_run [OF relpowp_imp_rtranclp [OF v(1)] assms(1)])
  show ?case
  proof (cases "n - k")
    case 0
    with vt(2) strip_0 [of v t u] assms(3) v(2) show ?thesis by simp
  next
    case (Suc d)
    then have "Suc k \<le> n" "n - Suc k = d" by auto
    moreover have "(step ^^ d) u t"
      using strip [OF \<open>good v\<close> _ assms(3) v(2), of d] vt(2) Suc by simp
    ultimately show ?thesis by simp
  qed
qed

theorem every_run_completes:
  assumes "good s" and "step\<^sup>*\<^sup>* s t" and "final t" and "step\<^sup>*\<^sup>* s u"
  shows "step\<^sup>*\<^sup>* u t"
  using strip_run [OF assms(1) _ assms(3)] assms(2,4)
  by (metis relpowp_imp_rtranclp rtranclp_imp_relpowp)

corollary final_state_unique:
  assumes "good s" and "step\<^sup>*\<^sup>* s t" and "final t" and "step\<^sup>*\<^sup>* s u" and "final u"
  shows "u = t"
  using every_run_completes [OF assms(1-4)] assms(5)
  by (metis converse_rtranclpE final_def)

corollary no_infinite_run:
  assumes "good s" and "(step ^^ n) s t" and "final t" and "(step ^^ k) s u"
  shows "k \<le> n"
  using strip_run [OF assms] by simp

end

end
