(* ===== verification/CollExec.thy ===== *)
theory CollExec
  imports Confluence
begin

text \<open>
  Execution of collective schedules. Every rank runs the list of entries that a builder of
  \<^verbatim>\<open>src/src/coll/algorithms\<close> produced; the entries communicate through the transport layer. This
  theory has the data operations of the entries (\<^verbatim>\<open>send_entry\<close>, \<^verbatim>\<open>recv_entry\<close>,
  \<^verbatim>\<open>recv_reduce_entry\<close>, \<^verbatim>\<open>recv_copy_entry\<close>, \<^verbatim>\<open>copy_entry\<close>, \<^verbatim>\<open>reduce_local_entry\<close> of
  \<^verbatim>\<open>src/src/sched/entry\<close>), the state a builder threads through its calls, and the steps of a
  set of ranks.

  Memory is split into buffers, and a location is a buffer with a byte offset, as in
  \<^verbatim>\<open>ccl_buffer\<close>; the cell at a location holds the element that starts at that byte. The
  reduction is a parameter \<open>f\<close>: \<open>f a b\<close> is what the reduction leaves in the inout element
  \<open>b\<close> for the input element \<open>a\<close>.

  The transport is third-party code (MPI or libfabric under the ATL layer): it is a
  parameter, a record of its send and receive operations, and what the entries rely on is the
  locale \<open>fifo_transport\<close>: messages between two ranks with one tag arrive in the order sent.
\<close>

section \<open>Memory\<close>

type_synonym rank = nat
type_synonym loc = "nat \<times> nat"
type_synonym 'v mem = "loc \<Rightarrow> 'v"
type_synonym 'v msg = "nat \<times> 'v list"

definition loc_add :: "loc \<Rightarrow> nat \<Rightarrow> loc" where
  "loc_add l n = (fst l, snd l + n)"

definition read_cells :: "'v mem \<Rightarrow> loc \<Rightarrow> nat \<Rightarrow> nat \<Rightarrow> 'v list" where
  "read_cells m l cnt ds = map (\<lambda>i. m (loc_add l (i * ds))) [0..<cnt]"

definition in_cells :: "loc \<Rightarrow> nat \<Rightarrow> nat \<Rightarrow> loc \<Rightarrow> bool" where
  "in_cells l cnt ds a \<longleftrightarrow>
     fst a = fst l \<and> snd l \<le> snd a \<and> (snd a - snd l) mod ds = 0 \<and> (snd a - snd l) div ds < cnt"

definition write_cells :: "'v mem \<Rightarrow> loc \<Rightarrow> nat \<Rightarrow> 'v list \<Rightarrow> 'v mem" where
  "write_cells m l ds vs =
     (\<lambda>a. if in_cells l (length vs) ds a then vs ! ((snd a - snd l) div ds) else m a)"

definition reduce_cells :: "('v \<Rightarrow> 'v \<Rightarrow> 'v) \<Rightarrow> 'v mem \<Rightarrow> loc \<Rightarrow> nat \<Rightarrow> loc \<Rightarrow> nat \<Rightarrow> 'v mem" where
  "reduce_cells f m l_in cnt l_io ds =
     write_cells m l_io ds (map2 f (read_cells m l_in cnt ds) (read_cells m l_io cnt ds))"

section \<open>Entries\<close>

text \<open>
  The arguments are those of the constructors of the entries: locations, element count,
  element size in bytes and peer rank. \<open>RecvReduce\<close> ends with the communication buffer and
  whether the result goes to the local buffer (\<^verbatim>\<open>ccl_recv_reduce_local_buf\<close>); \<open>RecvCopy\<close> gives
  its byte count as elements times element size.
\<close>

datatype sched_op =
    Send loc nat nat rank
  | Recv loc nat nat rank
  | RecvReduce loc nat nat rank loc bool
  | RecvCopy loc loc nat nat rank
  | Copy loc loc nat nat
  | ReduceLocal loc nat loc nat

fun send_dst :: "sched_op \<Rightarrow> rank option" where
  "send_dst (Send l cnt ds dst) = Some dst"
| "send_dst _ = None"

fun recv_src :: "sched_op \<Rightarrow> rank option" where
  "recv_src (Recv l cnt ds src) = Some src"
| "recv_src (RecvReduce l cnt ds src cb res) = Some src"
| "recv_src (RecvCopy rb cb cnt ds src) = Some src"
| "recv_src _ = None"

definition is_local :: "sched_op \<Rightarrow> bool" where
  "is_local x \<longleftrightarrow> send_dst x = None \<and> recv_src x = None"

text \<open>Element size and count of the message an entry sends or expects.\<close>

fun msg_shape :: "sched_op \<Rightarrow> nat \<times> nat" where
  "msg_shape (Send l cnt ds dst) = (ds, cnt)"
| "msg_shape (Recv l cnt ds src) = (ds, cnt)"
| "msg_shape (RecvReduce l cnt ds src cb res) = (ds, cnt)"
| "msg_shape (RecvCopy rb cb cnt ds src) = (ds, cnt)"
| "msg_shape (Copy l l' cnt ds) = (ds, cnt)"
| "msg_shape (ReduceLocal l cnt l' ds) = (ds, cnt)"

text \<open>
  What each entry does with the memory of its rank: what a send reads, and what the others
  change, given the elements \<open>vs\<close> they received. Copies and reductions run to completion in
  one call.
\<close>

definition start_send :: "'v mem \<Rightarrow> loc \<Rightarrow> nat \<Rightarrow> nat \<Rightarrow> 'v msg" where
  "start_send m buf cnt ds = (ds, read_cells m buf cnt ds)"

definition recv_update :: "'v mem \<Rightarrow> loc \<Rightarrow> nat \<Rightarrow> 'v list \<Rightarrow> 'v mem" where
  "recv_update m buf ds vs = write_cells m buf ds vs"

definition recv_reduce_update ::
    "('v \<Rightarrow> 'v \<Rightarrow> 'v) \<Rightarrow> 'v mem \<Rightarrow> loc \<Rightarrow> nat \<Rightarrow> nat \<Rightarrow> loc \<Rightarrow> bool \<Rightarrow> 'v list \<Rightarrow> 'v mem" where
  "recv_reduce_update f m inout_buf in_cnt ds comm_buf local_result vs =
     (let m1 = write_cells m comm_buf ds vs;
          reduce_in_buf = (if local_result then comm_buf else inout_buf);
          reduce_inout_buf = (if local_result then inout_buf else comm_buf)
      in reduce_cells f m1 reduce_in_buf in_cnt reduce_inout_buf ds)"

definition recv_copy_update :: "'v mem \<Rightarrow> loc \<Rightarrow> loc \<Rightarrow> nat \<Rightarrow> nat \<Rightarrow> 'v list \<Rightarrow> 'v mem" where
  "recv_copy_update m recv_buf copy_buf cnt ds vs =
     (let m1 = write_cells m recv_buf ds vs
      in write_cells m1 copy_buf ds (read_cells m1 recv_buf cnt ds))"

definition do_regular_copy :: "'v mem \<Rightarrow> loc \<Rightarrow> loc \<Rightarrow> nat \<Rightarrow> nat \<Rightarrow> 'v mem" where
  "do_regular_copy m in_buf out_buf cnt ds = write_cells m out_buf ds (read_cells m in_buf cnt ds)"

definition start_on_host :: "('v \<Rightarrow> 'v \<Rightarrow> 'v) \<Rightarrow> 'v mem \<Rightarrow> loc \<Rightarrow> nat \<Rightarrow> loc \<Rightarrow> nat \<Rightarrow> 'v mem" where
  "start_on_host f m in_buf in_cnt inout_buf ds = reduce_cells f m in_buf in_cnt inout_buf ds"

lemmas entry_defs [simp] =
  start_send_def recv_update_def recv_reduce_update_def recv_copy_update_def do_regular_copy_def start_on_host_def

fun payload_of :: "sched_op \<Rightarrow> 'v mem \<Rightarrow> 'v msg" where
  "payload_of (Send l cnt ds dst) m = start_send m l cnt ds"
| "payload_of _ m = (0, [])"

fun apply_op :: "('v \<Rightarrow> 'v \<Rightarrow> 'v) \<Rightarrow> sched_op \<Rightarrow> 'v list \<Rightarrow> 'v mem \<Rightarrow> 'v mem" where
  "apply_op f (Send l cnt ds dst) vs m = m"
| "apply_op f (Recv l cnt ds src) vs m = recv_update m l ds vs"
| "apply_op f (RecvReduce l cnt ds src cb res) vs m = recv_reduce_update f m l cnt ds cb res vs"
| "apply_op f (RecvCopy rb cb cnt ds src) vs m = recv_copy_update m rb cb cnt ds vs"
| "apply_op f (Copy l l' cnt ds) vs m = do_regular_copy m l l' cnt ds"
| "apply_op f (ReduceLocal l cnt l' ds) vs m = start_on_host f m l cnt l' ds"

section \<open>Building a schedule\<close>

text \<open>
  What a builder changes of its schedule: the entries with their barrier flags, in order, and
  the buffers allocated so far (\<^verbatim>\<open>sched->alloc_buffer\<close> returns memory nothing else uses).
  Entries are appended, the default mode of \<^verbatim>\<open>add_entry\<close>.
\<close>

record builder =
  ops :: "(sched_op \<times> bool) list"
  next_buf :: nat

definition create :: "sched_op \<Rightarrow> builder \<Rightarrow> builder" where
  "create x s = s\<lparr>ops := ops s @ [(x, False)]\<rparr>"

definition barrier_here :: "builder \<Rightarrow> builder" where
  "barrier_here s =
     (if ops s = [] then s else s\<lparr>ops := butlast (ops s) @ [(fst (last (ops s)), True)]\<rparr>)"

definition alloc_buffer :: "builder \<Rightarrow> loc \<times> builder" where
  "alloc_buffer s = ((next_buf s, 0), s\<lparr>next_buf := Suc (next_buf s)\<rparr>)"

text \<open>\<^verbatim>\<open>ccl_buffer()\<close>, for messages without content.\<close>

definition null_buf :: loc where
  "null_buf = (0, 0)"

text \<open>
  The constructor of \<^verbatim>\<open>recv_reduce_entry\<close>: without a communication buffer (\<open>None\<close>), or with the
  inout buffer given for it, it allocates one.
\<close>

definition create_recv_reduce ::
    "loc \<Rightarrow> nat \<Rightarrow> nat \<Rightarrow> rank \<Rightarrow> loc option \<Rightarrow> bool \<Rightarrow> builder \<Rightarrow> builder" where
  "create_recv_reduce inout_buf cnt ds src comm_buf local_result s =
     (if (comm_buf = None \<or> comm_buf = Some inout_buf) \<and> 0 < cnt then
        let (b, s1) = alloc_buffer s
        in create (RecvReduce inout_buf cnt ds src b local_result) s1
      else create (RecvReduce inout_buf cnt ds src (case comm_buf of None \<Rightarrow> null_buf | Some b \<Rightarrow> b) local_result) s)"

text \<open>
  Barriers split the entries into phases; an entry of a phase starts only when every
  earlier phase is complete (property \<open>barrier_separates_entries\<close> of the schedule).
\<close>

fun phases :: "(sched_op \<times> bool) list \<Rightarrow> sched_op list list" where
  "phases [] = []"
| "phases ((x, b) # xs) =
     (if b then [x] # phases xs
      else case phases xs of [] \<Rightarrow> [[x]] | p # ps \<Rightarrow> (x # p) # ps)"

section \<open>Transport\<close>

record ('n, 'v) transport =
  tr_send :: "rank \<times> rank \<Rightarrow> 'v msg \<Rightarrow> 'n \<Rightarrow> 'n"
  tr_recv :: "rank \<times> rank \<Rightarrow> 'n \<Rightarrow> ('v msg \<times> 'n) option"
  tr_pending :: "'n \<Rightarrow> rank \<times> rank \<Rightarrow> 'v msg list"
  tr_idle :: 'n

section \<open>Steps of a set of ranks\<close>

text \<open>
  The state: the remaining phases and the memory of every rank, and the transport. An
  entry of the first phase of a rank may complete when the entries before it in the phase
  leave it free to: entries that run to completion inside \<^verbatim>\<open>start\<close> (copies and local
  reductions) complete before the next entry starts, and messages to or from one peer
  are matched in the order in which the entries were started.
\<close>

record ('n, 'v) gstate =
  progs :: "rank \<Rightarrow> sched_op list list"
  mems :: "rank \<Rightarrow> 'v mem"
  net :: 'n

definition same_channel :: "sched_op \<Rightarrow> sched_op \<Rightarrow> bool" where
  "same_channel y x \<longleftrightarrow>
     (send_dst x \<noteq> None \<and> send_dst y = send_dst x) \<or> (recv_src x \<noteq> None \<and> recv_src y = recv_src x)"

definition ready :: "sched_op list \<Rightarrow> sched_op \<Rightarrow> bool" where
  "ready before x \<longleftrightarrow> (\<forall>y \<in> set before. \<not> is_local y \<and> \<not> same_channel y x)"

text \<open>
  A receive accepts a message that is not longer than its buffer: the transport delivers
  what was sent and leaves the rest of the buffer alone.
\<close>

definition msg_fits :: "nat \<times> nat \<Rightarrow> nat \<times> nat \<Rightarrow> bool" where
  "msg_fits sent posted \<longleftrightarrow> fst sent = fst posted \<and> snd sent \<le> snd posted"

definition take_msg ::
    "('n, 'v) transport \<Rightarrow> rank \<Rightarrow> sched_op \<Rightarrow> 'n \<Rightarrow> ('v list \<times> 'n) option" where
  "take_msg T r x n =
     (case recv_src x of
        None \<Rightarrow> Some ([], n)
      | Some src \<Rightarrow>
          (case tr_recv T (src, r) n of
             None \<Rightarrow> None
           | Some ((ds, vs), n') \<Rightarrow> if msg_fits (ds, length vs) (msg_shape x) then Some (vs, n') else None))"

definition put_msg ::
    "('n, 'v) transport \<Rightarrow> rank \<Rightarrow> sched_op \<Rightarrow> 'v mem \<Rightarrow> 'n \<Rightarrow> 'n" where
  "put_msg T r x m n =
     (case send_dst x of None \<Rightarrow> n | Some dst \<Rightarrow> tr_send T (r, dst) (payload_of x m) n)"

text \<open>One entry: receive, change the memory, send.\<close>

definition fire ::
    "('n, 'v) transport \<Rightarrow> ('v \<Rightarrow> 'v \<Rightarrow> 'v) \<Rightarrow> rank \<Rightarrow> sched_op \<Rightarrow> 'v mem \<Rightarrow> 'n \<Rightarrow> ('v mem \<times> 'n) option" where
  "fire T f r x m n =
     (case take_msg T r x n of
        None \<Rightarrow> None
      | Some (vs, n') \<Rightarrow> Some (apply_op f x vs m, put_msg T r x m n'))"

definition del :: "nat \<Rightarrow> 'a list \<Rightarrow> 'a list" where
  "del i xs = take i xs @ drop (Suc i) xs"

definition drop_done :: "sched_op list \<Rightarrow> sched_op list list \<Rightarrow> sched_op list list" where
  "drop_done ph rest = (if ph = [] then rest else ph # rest)"

definition step_at ::
    "('n, 'v) transport \<Rightarrow> ('v \<Rightarrow> 'v \<Rightarrow> 'v) \<Rightarrow> rank \<Rightarrow> nat \<Rightarrow> ('n, 'v) gstate \<Rightarrow> ('n, 'v) gstate option" where
  "step_at T f r i g =
     (case progs g r of
        [] \<Rightarrow> None
      | ph # rest \<Rightarrow>
          if i < length ph \<and> ready (take i ph) (ph ! i) then
            (case fire T f r (ph ! i) (mems g r) (net g) of
               None \<Rightarrow> None
             | Some (m, n) \<Rightarrow>
                 Some (g\<lparr>progs := (progs g)(r := drop_done (del i ph) rest),
                         mems := (mems g)(r := m),
                         net := n\<rparr>))
          else None)"

definition exec_step ::
    "('n, 'v) transport \<Rightarrow> ('v \<Rightarrow> 'v \<Rightarrow> 'v) \<Rightarrow> ('n, 'v) gstate \<Rightarrow> ('n, 'v) gstate \<Rightarrow> bool" where
  "exec_step T f g g' \<longleftrightarrow> (\<exists>r i. step_at T f r i g = Some g')"

abbreviation exec :: "('n, 'v) transport \<Rightarrow> ('v \<Rightarrow> 'v \<Rightarrow> 'v) \<Rightarrow> ('n, 'v) gstate \<Rightarrow> ('n, 'v) gstate \<Rightarrow> bool" where
  "exec T f \<equiv> (exec_step T f)\<^sup>*\<^sup>*"

section \<open>Race freedom\<close>

text \<open>
  Two entries commute when neither changes what the other reads or writes, whatever they
  receive. A phase is race free when every two of its entries commute, are kept in order
  by the transport, or the first of them completes in its start.
\<close>

definition commute_ops :: "('v \<Rightarrow> 'v \<Rightarrow> 'v) \<Rightarrow> sched_op \<Rightarrow> sched_op \<Rightarrow> bool" where
  "commute_ops f y x \<longleftrightarrow>
     (\<forall>vs ws m. (recv_src y \<noteq> None \<longrightarrow> length vs \<le> snd (msg_shape y)) \<longrightarrow>
                (recv_src x \<noteq> None \<longrightarrow> length ws \<le> snd (msg_shape x)) \<longrightarrow>
        apply_op f y vs (apply_op f x ws m) = apply_op f x ws (apply_op f y vs m) \<and>
        payload_of y (apply_op f x ws m) = payload_of y m \<and>
        payload_of x (apply_op f y vs m) = payload_of x m)"

definition race_free_phase :: "('v \<Rightarrow> 'v \<Rightarrow> 'v) \<Rightarrow> sched_op list \<Rightarrow> bool" where
  "race_free_phase f ph \<longleftrightarrow>
     sorted_wrt (\<lambda>y x. is_local y \<or> same_channel y x \<or> commute_ops f y x) ph"

definition race_free :: "('v \<Rightarrow> 'v \<Rightarrow> 'v) \<Rightarrow> ('n, 'v) gstate \<Rightarrow> bool" where
  "race_free f g \<longleftrightarrow> (\<forall>r. \<forall>ph \<in> set (progs g r). race_free_phase f ph)"

section \<open>Removing an entry\<close>

lemma length_del [simp]: "i < length xs \<Longrightarrow> length (del i xs) = length xs - 1"
  by (auto simp: del_def min_def)

lemma del_decomp: "i < length xs \<Longrightarrow> xs = take i xs @ xs ! i # drop (Suc i) xs"
  by (simp add: id_take_nth_drop)

lemma nth_del: "i < length xs \<Longrightarrow> k < length xs - 1 \<Longrightarrow> del i xs ! k = (if k < i then xs ! k else xs ! Suc k)"
  by (auto simp: del_def nth_append min_def)

lemma take_del_le: "k \<le> i \<Longrightarrow> take k (del i xs) = take k xs"
  by (auto simp: del_def min_def)

lemma del_del:
  assumes "i < j" and "j < length xs"
  shows "del i (del j xs) = del (j - 1) (del i xs)"
  using assms by (intro nth_equalityI) (auto simp: nth_del)

lemma set_del: "set (del i xs) \<subseteq> set xs"
  by (auto simp: del_def dest: in_set_takeD in_set_dropD)

lemma take_del_ge: "i \<le> k \<Longrightarrow> take k (del i xs) = del i (take (Suc k) xs)"
  by (cases "length xs \<le> i") (auto simp: del_def min_def drop_take Suc_diff_le)

lemma ready_subset: "ready before x \<Longrightarrow> set before' \<subseteq> set before \<Longrightarrow> ready before' x"
  by (auto simp: ready_def)

lemma race_free_phase_del: "race_free_phase f ph \<Longrightarrow> race_free_phase f (del i ph)"
proof (cases "i < length ph")
  case True
  assume "race_free_phase f ph"
  then have "race_free_phase f (take i ph @ ph ! i # drop (Suc i) ph)"
    using del_decomp [OF True] by simp
  then show ?thesis
    by (auto simp: race_free_phase_def del_def sorted_wrt_append)
qed (simp add: del_def)

section \<open>The transport's contract\<close>

locale fifo_transport =
  fixes T :: "('n, 'v) transport"
  assumes idle: "tr_pending T (tr_idle T) k = []"
    and send: "tr_pending T (tr_send T k x n) = (tr_pending T n)(k := tr_pending T n k @ [x])"
    and recv_none: "tr_recv T k n = None \<longleftrightarrow> tr_pending T n k = []"
    and recv_some: "tr_recv T k n = Some (x, n') \<Longrightarrow>
      \<exists>q. tr_pending T n k = x # q \<and> tr_pending T n' = (tr_pending T n)(k := q)"
    and pending_ext: "tr_pending T n = tr_pending T n' \<Longrightarrow> n = n'"
begin

lemma recv_pending:
  assumes "tr_pending T n k = x # q"
  obtains n' where "tr_recv T k n = Some (x, n')" "tr_pending T n' = (tr_pending T n)(k := q)"
proof -
  from assms recv_none [of k n] obtain y n' where y: "tr_recv T k n = Some (y, n')"
    by (cases "tr_recv T k n") auto
  from recv_some [OF this] assms that [of n'] y show thesis by auto
qed

lemma send_send:
  "k \<noteq> k' \<Longrightarrow> tr_send T k x (tr_send T k' y n) = tr_send T k' y (tr_send T k x n)"
  by (rule pending_ext) (auto simp: send)

lemma recv_send:
  assumes "tr_recv T k n = Some (x, n1)"
  shows "tr_recv T k (tr_send T k' y n) = Some (x, tr_send T k' y n1)"
proof -
  from recv_some [OF assms] obtain q where
    q: "tr_pending T n k = x # q" "tr_pending T n1 = (tr_pending T n)(k := q)" by blast
  let ?q = "if k = k' then q @ [y] else q"
  have "tr_pending T (tr_send T k' y n) k = x # ?q" using q(1) by (auto simp: send)
  then obtain n' where n': "tr_recv T k (tr_send T k' y n) = Some (x, n')"
    "tr_pending T n' = (tr_pending T (tr_send T k' y n))(k := ?q)" by (rule recv_pending)
  have "tr_pending T n' = tr_pending T (tr_send T k' y n1)"
    by (auto simp: n'(2) send q(2))
  with pending_ext n'(1) show ?thesis by metis
qed

lemma recv_recv:
  assumes "k \<noteq> k'" and "tr_recv T k n = Some (x, n1)" and "tr_recv T k' n = Some (y, n2)"
  obtains n3 where "tr_recv T k' n1 = Some (y, n3)" "tr_recv T k n2 = Some (x, n3)"
proof -
  from recv_some [OF assms(2)] obtain q where
    q: "tr_pending T n k = x # q" "tr_pending T n1 = (tr_pending T n)(k := q)" by blast
  from recv_some [OF assms(3)] obtain q' where
    q': "tr_pending T n k' = y # q'" "tr_pending T n2 = (tr_pending T n)(k' := q')" by blast
  have "tr_pending T n1 k' = y # q'" "tr_pending T n2 k = x # q"
    using assms(1) q q' by auto
  then obtain a b where
    ab: "tr_recv T k' n1 = Some (y, a)" "tr_pending T a = (tr_pending T n1)(k' := q')"
        "tr_recv T k n2 = Some (x, b)" "tr_pending T b = (tr_pending T n2)(k := q)"
    by (metis recv_pending)
  have "a = b" using assms(1) by (intro pending_ext) (auto simp: ab q(2) q'(2))
  with ab that show thesis by blast
qed

end

section \<open>Concurrent steps commute\<close>

lemma recv_not_send: "recv_src x = Some src \<Longrightarrow> send_dst x = None"
  by (cases x) auto

lemma take_msg_length:
  "take_msg T r x n = Some (vs, n') \<Longrightarrow> recv_src x \<noteq> None \<Longrightarrow> length vs \<le> snd (msg_shape x)"
  by (auto simp: take_msg_def msg_fits_def split: option.splits if_splits)

lemma put_msg_cong: "payload_of x m = payload_of x m' \<Longrightarrow> put_msg T r x m n = put_msg T r x m' n"
  by (simp add: put_msg_def split: option.split)

lemma step_atE:
  assumes "step_at T f r i g = Some g'"
  obtains ph rest m n where "progs g r = ph # rest" "i < length ph" "ready (take i ph) (ph ! i)"
    "fire T f r (ph ! i) (mems g r) (net g) = Some (m, n)"
    "g' = g\<lparr>progs := (progs g)(r := drop_done (del i ph) rest), mems := (mems g)(r := m), net := n\<rparr>"
  using assms by (auto simp: step_at_def split: list.splits if_splits option.splits)

lemma step_atI:
  "progs g r = ph # rest \<Longrightarrow> i < length ph \<Longrightarrow> ready (take i ph) (ph ! i) \<Longrightarrow>
   fire T f r (ph ! i) (mems g r) (net g) = Some (m, n) \<Longrightarrow>
   step_at T f r i g =
     Some (g\<lparr>progs := (progs g)(r := drop_done (del i ph) rest), mems := (mems g)(r := m), net := n\<rparr>)"
  by (simp add: step_at_def)

lemma drop_done_Cons: "i < length ph \<Longrightarrow> j < length ph \<Longrightarrow> i \<noteq> j \<Longrightarrow> drop_done (del i ph) rest = del i ph # rest"
  by (cases "length ph") (auto simp: drop_done_def del_def)

lemma race_free_step:
  assumes "race_free f g" and "exec_step T f g g'"
  shows "race_free f g'"
proof -
  from assms(2) obtain r i where "step_at T f r i g = Some g'" by (auto simp: exec_step_def)
  then obtain ph rest m n where
    a: "progs g r = ph # rest" "progs g' = (progs g)(r := drop_done (del i ph) rest)"
    by (auto elim!: step_atE)
  from assms(1) have "\<forall>p \<in> set (progs g r). race_free_phase f p" by (simp add: race_free_def)
  with a(1) have "race_free_phase f (del i ph)" "\<forall>p \<in> set rest. race_free_phase f p"
    by (auto intro: race_free_phase_del)
  with assms(1) show ?thesis by (auto simp: race_free_def a(2) drop_done_def)
qed

lemma race_free_pair:
  assumes "race_free f g" and "progs g r = ph # rest" and "i < j" and "j < length ph"
    and "ready (take j ph) (ph ! j)"
  shows "\<not> is_local (ph ! i)" and "\<not> same_channel (ph ! i) (ph ! j)" and "commute_ops f (ph ! i) (ph ! j)"
proof -
  have "ph ! i \<in> set (take j ph)"
    using assms(3,4) by (auto simp: in_set_conv_nth intro!: exI [of _ i])
  with assms(5) show l: "\<not> is_local (ph ! i)" and c: "\<not> same_channel (ph ! i) (ph ! j)"
    by (auto simp: ready_def)
  from assms(1) have "\<forall>p \<in> set (progs g r). race_free_phase f p" by (simp add: race_free_def)
  with assms(2) have "race_free_phase f ph" by simp
  with assms(3,4) l c show "commute_ops f (ph ! i) (ph ! j)"
    by (auto simp: race_free_phase_def sorted_wrt_iff_nth_less)
qed

context fifo_transport
begin

lemma take_put:
  "take_msg T r x n = Some (vs, n1) \<Longrightarrow>
   take_msg T r x (put_msg T s y m n) = Some (vs, put_msg T s y m n1)"
  by (auto simp: take_msg_def put_msg_def recv_send split: option.splits if_splits)

lemma put_put:
  "(r, send_dst x) \<noteq> (s, send_dst y) \<or> send_dst x = None \<Longrightarrow>
   put_msg T r x m (put_msg T s y m' n) = put_msg T s y m' (put_msg T r x m n)"
  by (auto simp: put_msg_def intro: send_send split: option.splits)

lemma take_take:
  assumes "(r, recv_src x) \<noteq> (s, recv_src y) \<or> recv_src x = None"
    and "take_msg T r x n = Some (vs, n1)" and "take_msg T s y n = Some (ws, n2)"
  shows "\<exists>n3. take_msg T s y n1 = Some (ws, n3) \<and> take_msg T r x n2 = Some (vs, n3)"
proof (cases "recv_src x")
  case None
  with assms show ?thesis by (auto simp: take_msg_def)
next
  case x: (Some a)
  show ?thesis
  proof (cases "recv_src y")
    case None
    with assms show ?thesis by (auto simp: take_msg_def)
  next
    case y: (Some b)
    from assms(2) x have tx: "tr_recv T (a, r) n = Some ((fst (msg_shape x), vs), n1)"
      and lx: "length vs \<le> snd (msg_shape x)"
      by (auto simp: take_msg_def msg_fits_def split: option.splits if_splits)
    from assms(3) y have ty: "tr_recv T (b, s) n = Some ((fst (msg_shape y), ws), n2)"
      and ly: "length ws \<le> snd (msg_shape y)"
      by (auto simp: take_msg_def msg_fits_def split: option.splits if_splits)
    from assms(1) x y have "(a, r) \<noteq> (b, s)" by auto
    from recv_recv [OF this tx ty] obtain n3 where
      n3: "tr_recv T (b, s) n1 = Some ((fst (msg_shape y), ws), n3)"
        "tr_recv T (a, r) n2 = Some ((fst (msg_shape x), vs), n3)" .
    have "take_msg T s y n1 = Some (ws, n3)" using n3(1) y ly by (simp add: take_msg_def msg_fits_def)
    moreover have "take_msg T r x n2 = Some (vs, n3)" using n3(2) x lx by (simp add: take_msg_def msg_fits_def)
    ultimately show ?thesis by blast
  qed
qed

lemma fire_commute:
  assumes chan: "r \<noteq> s \<or> \<not> same_channel x y"
    and x: "fire T f r x m n = Some (m1, n1)" and y: "fire T f s y m' n = Some (m2, n2)"
  obtains vs ws n3 where
    "m1 = apply_op f x vs m" and "m2 = apply_op f y ws m'"
    and "recv_src x \<noteq> None \<longrightarrow> length vs \<le> snd (msg_shape x)"
    and "recv_src y \<noteq> None \<longrightarrow> length ws \<le> snd (msg_shape y)"
    and "\<And>ma. payload_of x ma = payload_of x m \<Longrightarrow> fire T f r x ma n2 = Some (apply_op f x vs ma, n3)"
    and "\<And>mb. payload_of y mb = payload_of y m' \<Longrightarrow> fire T f s y mb n1 = Some (apply_op f y ws mb, n3)"
proof -
  from x obtain vs n1' where vs: "take_msg T r x n = Some (vs, n1')" "m1 = apply_op f x vs m"
    "n1 = put_msg T r x m n1'" by (auto simp: fire_def split: option.splits)
  from y obtain ws n2' where ws: "take_msg T s y n = Some (ws, n2')" "m2 = apply_op f y ws m'"
    "n2 = put_msg T s y m' n2'" by (auto simp: fire_def split: option.splits)
  from chan have dr: "(r, recv_src x) \<noteq> (s, recv_src y) \<or> recv_src x = None"
    and ds: "(r, send_dst x) \<noteq> (s, send_dst y) \<or> send_dst x = None"
    by (auto simp: same_channel_def)
  from take_take [OF dr vs(1) ws(1)] obtain n3 where
    n3: "take_msg T s y n1' = Some (ws, n3)" "take_msg T r x n2' = Some (vs, n3)" by blast
  show thesis
  proof (rule that [of vs ws "put_msg T r x m (put_msg T s y m' n3)"])
    fix ma assume "payload_of x ma = payload_of x m"
    then show "fire T f r x ma n2 =
        Some (apply_op f x vs ma, put_msg T r x m (put_msg T s y m' n3))"
      using take_put [OF n3(2)] put_msg_cong [of x ma m T r] by (simp add: fire_def ws(3))
  next
    fix mb assume "payload_of y mb = payload_of y m'"
    then show "fire T f s y mb n1 =
        Some (apply_op f y ws mb, put_msg T r x m (put_msg T s y m' n3))"
      using take_put [OF n3(1)] put_msg_cong [of y mb m' T s] put_put [OF ds]
      by (simp add: fire_def vs(3))
  qed (use vs ws take_msg_length [OF vs(1)] take_msg_length [OF ws(1)] in auto)
qed

lemma step_other_rank:
  assumes "r \<noteq> s" and g1: "step_at T f r i g = Some g1" and g2: "step_at T f s j g = Some g2"
  shows "\<exists>g3. step_at T f s j g1 = Some g3 \<and> step_at T f r i g2 = Some g3"
proof -
  from g1 obtain ph rest m n where
    a: "progs g r = ph # rest" "i < length ph" "ready (take i ph) (ph ! i)"
      "fire T f r (ph ! i) (mems g r) (net g) = Some (m, n)"
      "g1 = g\<lparr>progs := (progs g)(r := drop_done (del i ph) rest), mems := (mems g)(r := m), net := n\<rparr>"
    by (rule step_atE)
  from g2 obtain ph' rest' m' n' where
    b: "progs g s = ph' # rest'" "j < length ph'" "ready (take j ph') (ph' ! j)"
      "fire T f s (ph' ! j) (mems g s) (net g) = Some (m', n')"
      "g2 = g\<lparr>progs := (progs g)(s := drop_done (del j ph') rest'), mems := (mems g)(s := m'), net := n'\<rparr>"
    by (rule step_atE)
  from fire_commute [OF disjI1 [OF assms(1)] a(4) b(4)] obtain n3 where
    n3: "fire T f r (ph ! i) (mems g r) n' = Some (m, n3)"
      "fire T f s (ph' ! j) (mems g s) n = Some (m', n3)" by metis
  have "step_at T f s j g1 = Some (g1\<lparr>progs := (progs g1)(s := drop_done (del j ph') rest'),
      mems := (mems g1)(s := m'), net := n3\<rparr>)"
    by (rule step_atI) (use assms(1) a(5) b n3 in auto)
  moreover have "step_at T f r i g2 = Some (g2\<lparr>progs := (progs g2)(r := drop_done (del i ph) rest),
      mems := (mems g2)(r := m), net := n3\<rparr>)"
    by (rule step_atI) (use assms(1) a b(5) n3 in auto)
  ultimately show ?thesis
    using assms(1) by (auto simp: a(5) b(5) fun_upd_twist)
qed

lemma step_same_rank:
  assumes "i < j" and "race_free f g"
    and g1: "step_at T f r i g = Some g1" and g2: "step_at T f r j g = Some g2"
  shows "\<exists>g3. step_at T f r (j - 1) g1 = Some g3 \<and> step_at T f r i g2 = Some g3"
proof -
  from g1 obtain ph rest m n where
    a: "progs g r = ph # rest" "i < length ph" "ready (take i ph) (ph ! i)"
      "fire T f r (ph ! i) (mems g r) (net g) = Some (m, n)"
      "g1 = g\<lparr>progs := (progs g)(r := drop_done (del i ph) rest), mems := (mems g)(r := m), net := n\<rparr>"
    by (rule step_atE)
  from g2 a(1) obtain m' n' where
    b: "j < length ph" "ready (take j ph) (ph ! j)"
      "fire T f r (ph ! j) (mems g r) (net g) = Some (m', n')"
      "g2 = g\<lparr>progs := (progs g)(r := drop_done (del j ph) rest), mems := (mems g)(r := m'), net := n'\<rparr>"
    by (auto elim: step_atE)
  note pair = race_free_pair [OF assms(2) a(1) assms(1) b(1,2)]
  from fire_commute [OF disjI2 [OF pair(2)] a(4) b(3)] obtain vs ws n3 where
    m: "m = apply_op f (ph ! i) vs (mems g r)" "m' = apply_op f (ph ! j) ws (mems g r)"
    and len: "recv_src (ph ! i) \<noteq> None \<longrightarrow> length vs \<le> snd (msg_shape (ph ! i))"
      "recv_src (ph ! j) \<noteq> None \<longrightarrow> length ws \<le> snd (msg_shape (ph ! j))"
    and F: "\<And>ma. payload_of (ph ! i) ma = payload_of (ph ! i) (mems g r) \<Longrightarrow>
        fire T f r (ph ! i) ma n' = Some (apply_op f (ph ! i) vs ma, n3)"
      "\<And>mb. payload_of (ph ! j) mb = payload_of (ph ! j) (mems g r) \<Longrightarrow>
        fire T f r (ph ! j) mb n = Some (apply_op f (ph ! j) ws mb, n3)"
    by blast
  from pair(3) len have c: "apply_op f (ph ! i) vs m' = apply_op f (ph ! j) ws m"
      "payload_of (ph ! i) m' = payload_of (ph ! i) (mems g r)"
      "payload_of (ph ! j) m = payload_of (ph ! j) (mems g r)"
    by (auto simp: commute_ops_def m)
  have dd: "drop_done (del i ph) rest = del i ph # rest" "drop_done (del j ph) rest = del j ph # rest"
    using assms(1) a(2) b(1) drop_done_Cons [of i ph j rest] drop_done_Cons [of j ph i rest] by auto
  have ij: "del i ph ! (j - 1) = ph ! j" "del j ph ! i = ph ! i" "j - 1 < length (del i ph)" "i < length (del j ph)"
    using assms(1) a(2) b(1) by (auto simp: nth_del)
  have r1: "ready (take (j - 1) (del i ph)) (ph ! j)"
    using ready_subset [OF b(2)] set_del [of i "take j ph"] take_del_ge [of i "j - 1" ph] assms(1)
    by simp
  have r2: "ready (take i (del j ph)) (ph ! i)"
    using a(3) take_del_le [of i j ph] assms(1) by simp
  have "step_at T f r (j - 1) g1 = Some (g1\<lparr>progs := (progs g1)(r := drop_done (del (j - 1) (del i ph)) rest),
      mems := (mems g1)(r := apply_op f (ph ! j) ws m), net := n3\<rparr>)"
    by (rule step_atI) (use a(5) dd ij r1 c F in auto)
  moreover have "step_at T f r i g2 = Some (g2\<lparr>progs := (progs g2)(r := drop_done (del i (del j ph)) rest),
      mems := (mems g2)(r := apply_op f (ph ! i) vs m'), net := n3\<rparr>)"
    by (rule step_atI) (use b(4) dd ij r2 c F in auto)
  ultimately show ?thesis
    using c(1) del_del [OF assms(1) b(1)] by (simp add: a(5) b(4))
qed

lemma exec_step_commute:
  assumes "race_free f g" and "exec_step T f g g1" and "exec_step T f g g2"
  shows "g1 = g2 \<or> (\<exists>g3. exec_step T f g1 g3 \<and> exec_step T f g2 g3)"
proof -
  from assms(2,3) obtain r i s j where
    st: "step_at T f r i g = Some g1" "step_at T f s j g = Some g2" by (auto simp: exec_step_def)
  consider "r \<noteq> s" | "r = s" "i < j" | "r = s" "j < i" | "r = s" "i = j" by linarith
  then show ?thesis
  proof cases
    case 1
    with step_other_rank [OF _ st] show ?thesis by (auto simp: exec_step_def)
  next
    case 2
    with step_same_rank [OF _ assms(1), of i j r g1 g2] st show ?thesis by (auto simp: exec_step_def)
  next
    case 3
    with step_same_rank [OF _ assms(1), of j i r g2 g1] st show ?thesis by (auto simp: exec_step_def)
  qed (use st in auto)
qed

end

sublocale fifo_transport \<subseteq> runs: commuting_steps "exec_step T f" "race_free f" for f
  by unfold_locales (rule race_free_step exec_step_commute; assumption)+

section \<open>A concrete transport\<close>

text \<open>Queues of messages per ordered pair of ranks, to show that the contract can hold.\<close>

definition queue_transport :: "(rank \<times> rank \<Rightarrow> 'v msg list, 'v) transport" where
  "queue_transport =
     \<lparr>tr_send = (\<lambda>k x q. q(k := q k @ [x])),
      tr_recv = (\<lambda>k q. case q k of [] \<Rightarrow> None | x # xs \<Rightarrow> Some (x, q(k := xs))),
      tr_pending = (\<lambda>q. q),
      tr_idle = (\<lambda>_. [])\<rparr>"

interpretation queues: fifo_transport queue_transport
  by unfold_locales (auto simp: queue_transport_def split: list.splits)

end
