(* ===== verification/CollRounds.thy ===== *)
theory CollRounds
  imports CollExec
begin

text \<open>
  Correctness of a set of rank programs by rounds. A round takes a prefix of the first phase
  of every rank such that the messages sent in the round are those received in it. Running
  the rounds one after the other is one interleaving of the ranks; by the commutation of
  concurrent steps (theory \<open>CollExec\<close>) every interleaving ends in the same state.
\<close>

section \<open>Byte ranges and disjoint entries\<close>

type_synonym rng = "loc \<times> nat"

definition in_rng :: "rng \<Rightarrow> loc \<Rightarrow> bool" where
  "in_rng R a \<longleftrightarrow> fst a = fst (fst R) \<and> snd (fst R) \<le> snd a \<and> snd a < snd (fst R) + snd R"

definition rng_disj :: "rng \<Rightarrow> rng \<Rightarrow> bool" where
  "rng_disj R S \<longleftrightarrow> fst (fst R) \<noteq> fst (fst S) \<or> snd R = 0 \<or> snd S = 0 \<or>
     snd (fst R) + snd R \<le> snd (fst S) \<or> snd (fst S) + snd S \<le> snd (fst R)"

fun op_reads :: "sched_op \<Rightarrow> rng list" where
  "op_reads (Send l cnt ds dst) = [(l, cnt * ds)]"
| "op_reads (Recv l cnt ds src) = []"
| "op_reads (RecvReduce l cnt ds src cb res) = [(l, cnt * ds), (cb, cnt * ds)]"
| "op_reads (RecvCopy rb cb cnt ds src) = [(rb, cnt * ds)]"
| "op_reads (Copy l l' cnt ds) = [(l, cnt * ds)]"
| "op_reads (ReduceLocal l cnt l' ds) = [(l, cnt * ds), (l', cnt * ds)]"

fun op_writes :: "sched_op \<Rightarrow> rng list" where
  "op_writes (Send l cnt ds dst) = []"
| "op_writes (Recv l cnt ds src) = [(l, cnt * ds)]"
| "op_writes (RecvReduce l cnt ds src cb res) = (cb, cnt * ds) # (if res then [(l, cnt * ds)] else [])"
| "op_writes (RecvCopy rb cb cnt ds src) = [(rb, cnt * ds), (cb, cnt * ds)]"
| "op_writes (Copy l l' cnt ds) = [(l', cnt * ds)]"
| "op_writes (ReduceLocal l cnt l' ds) = [(l', cnt * ds)]"

definition rngs_disj :: "rng list \<Rightarrow> rng list \<Rightarrow> bool" where
  "rngs_disj Rs Ss \<longleftrightarrow> (\<forall>R \<in> set Rs. \<forall>S \<in> set Ss. rng_disj R S)"

definition ops_disj :: "sched_op \<Rightarrow> sched_op \<Rightarrow> bool" where
  "ops_disj y x \<longleftrightarrow>
     rngs_disj (op_writes y) (op_reads x @ op_writes x) \<and> rngs_disj (op_writes x) (op_reads y)"

lemma rng_disjD: "rng_disj R S \<Longrightarrow> in_rng R a \<Longrightarrow> \<not> in_rng S a"
  by (auto simp: rng_disj_def in_rng_def)

lemma in_cells_rng:
  assumes "in_cells l cnt ds a" and "0 < ds"
  shows "in_rng (l, cnt * ds) a"
proof -
  from assms have d: "(snd a - snd l) mod ds = 0" "(snd a - snd l) div ds < cnt" "snd l \<le> snd a"
    "fst a = fst l" by (auto simp: in_cells_def)
  have "snd a - snd l = (snd a - snd l) div ds * ds"
    using d(1) by (metis add.right_neutral div_mult_mod_eq)
  also have "\<dots> < cnt * ds" using d(2) assms(2) by simp
  finally show ?thesis using d(3,4) by (simp add: in_rng_def)
qed

lemma loc_add_rng: "i < cnt \<Longrightarrow> 0 < ds \<Longrightarrow> in_rng (l, cnt * ds) (loc_add l (i * ds))"
  by (simp add: in_rng_def loc_add_def)

section \<open>Reading and writing cells\<close>

lemma length_read_cells [simp]: "length (read_cells m l cnt ds) = cnt"
  by (simp add: read_cells_def)

lemma nth_read_cells [simp]: "i < cnt \<Longrightarrow> read_cells m l cnt ds ! i = m (loc_add l (i * ds))"
  by (simp add: read_cells_def)

lemma write_cells_other: "\<not> in_cells l (length vs) ds a \<Longrightarrow> write_cells m l ds vs a = m a"
  by (simp add: write_cells_def)

lemma write_cells_outside:
  assumes "0 < ds" and "\<not> in_rng (l, cnt * ds) a" and "length vs \<le> cnt"
  shows "write_cells m l ds vs a = m a"
proof -
  have "\<not> in_cells l (length vs) ds a"
    using in_cells_rng [OF _ assms(1), of l cnt a] assms(2,3) by (auto simp: in_cells_def)
  then show ?thesis by (rule write_cells_other)
qed

lemma write_cells_at: "i < length vs \<Longrightarrow> 0 < ds \<Longrightarrow> write_cells m l ds vs (loc_add l (i * ds)) = vs ! i"
  by (simp add: write_cells_def in_cells_def loc_add_def)

lemma write_cells_cong: "in_cells l (length vs) ds a \<Longrightarrow> write_cells m l ds vs a = write_cells m' l ds vs a"
  by (simp add: write_cells_def)

lemma read_cells_cong:
  "(\<And>a. in_rng (l, cnt * ds) a \<Longrightarrow> m a = m' a) \<Longrightarrow> 0 < ds \<Longrightarrow> read_cells m l cnt ds = read_cells m' l cnt ds"
  by (auto simp: read_cells_def loc_add_rng)

lemma read_write_same [simp]: "0 < ds \<Longrightarrow> length vs = cnt \<Longrightarrow> read_cells (write_cells m l ds vs) l cnt ds = vs"
  by (auto simp: write_cells_at intro!: nth_equalityI)

lemma read_write_other:
  "rng_disj (l, length vs * ds) (l', cnt * ds') \<Longrightarrow> 0 < ds \<Longrightarrow> 0 < ds' \<Longrightarrow>
   read_cells (write_cells m l ds vs) l' cnt ds' = read_cells m l' cnt ds'"
  by (rule read_cells_cong) (auto dest: rng_disjD intro!: write_cells_outside)

section \<open>What an entry reads and changes\<close>

definition op_size_ok :: "sched_op \<Rightarrow> bool" where
  "op_size_ok x \<longleftrightarrow> 0 < fst (msg_shape x)"

definition op_vals_ok :: "sched_op \<Rightarrow> 'v list \<Rightarrow> bool" where
  "op_vals_ok x vs \<longleftrightarrow> (recv_src x \<noteq> None \<longrightarrow> length vs \<le> snd (msg_shape x))"

lemma apply_op_frame:
  assumes "op_size_ok x" and "op_vals_ok x vs" and "\<forall>R \<in> set (op_writes x). \<not> in_rng R a"
  shows "apply_op f x vs m a = m a"
  using assms by (cases x) (auto simp: op_size_ok_def op_vals_ok_def reduce_cells_def Let_def write_cells_outside)

definition agree_on :: "rng list \<Rightarrow> 'v mem \<Rightarrow> 'v mem \<Rightarrow> bool" where
  "agree_on Rs m m' \<longleftrightarrow> (\<forall>R \<in> set Rs. \<forall>a. in_rng R a \<longrightarrow> m a = m' a)"

lemma agree_onD: "agree_on Rs m m' \<Longrightarrow> R \<in> set Rs \<Longrightarrow> in_rng R a \<Longrightarrow> m a = m' a"
  unfolding agree_on_def by blast

lemma agree_on_append [simp]: "agree_on (Rs @ Ss) m m' \<longleftrightarrow> agree_on Rs m m' \<and> agree_on Ss m m'"
  by (auto simp: agree_on_def)

lemma agree_on_Nil [simp]: "agree_on [] m m'"
  by (auto simp: agree_on_def)

lemma agree_on_Cons:
  "agree_on (R # S # Rs) m m' \<longleftrightarrow> agree_on [R] m m' \<and> agree_on (S # Rs) m m'"
  by (auto simp: agree_on_def)

lemma agree_read: "agree_on [(l, cnt * ds)] m m' \<Longrightarrow> 0 < ds \<Longrightarrow> read_cells m l cnt ds = read_cells m' l cnt ds"
  by (rule read_cells_cong) (auto simp: agree_on_def)

lemma agree_write:
  "agree_on Rs m m' \<Longrightarrow> agree_on Rs (write_cells m l ds vs) (write_cells m' l ds vs)"
  by (auto simp: agree_on_def write_cells_def)

text \<open>What an entry writes depends on nothing but what it reads.\<close>

lemma agree_reduce:
  assumes "agree_on [(l, cnt * ds)] m m'" and "agree_on [(l', cnt * ds)] m m'" and "0 < ds"
    and "agree_on Rs m m'"
  shows "agree_on Rs (reduce_cells f m l cnt l' ds) (reduce_cells f m' l cnt l' ds)"
  using agree_read [OF assms(1,3)] agree_read [OF assms(2,3)] agree_write [OF assms(4)]
  by (simp add: reduce_cells_def)

lemma apply_op_agree:
  assumes "op_size_ok x" and "agree_on (op_reads x @ op_writes x) m m'"
    and "agree_on Rs m m'"
  shows "agree_on Rs (apply_op f x vs m) (apply_op f x vs m')"
proof (cases x)
  case (Send l cnt ds dst)
  with assms show ?thesis by simp
next
  case (Recv l cnt ds src)
  with assms show ?thesis by (simp add: agree_write)
next
  case (RecvReduce l cnt ds src cb res)
  have "agree_on [(l, cnt * ds)] m m'" "agree_on [(cb, cnt * ds)] m m'" "0 < ds"
    using assms(1,2) RecvReduce by (auto simp: op_size_ok_def agree_on_Cons)
  note this(1,2) [THEN agree_write] this(3)
  with assms(3) RecvReduce show ?thesis
    by (simp add: Let_def agree_reduce agree_write)
next
  case (RecvCopy rb cb cnt ds src)
  have "agree_on [(rb, cnt * ds)] m m'" "0 < ds"
    using assms(1,2) RecvCopy by (auto simp: op_size_ok_def agree_on_Cons)
  from agree_read [OF agree_write [OF this(1)] this(2)] assms(3) RecvCopy show ?thesis
    by (simp add: Let_def agree_write)
next
  case (Copy l l' cnt ds)
  have "agree_on [(l, cnt * ds)] m m'" "0 < ds"
    using assms(1,2) Copy by (auto simp: op_size_ok_def agree_on_Cons)
  from agree_read [OF this] assms(3) Copy show ?thesis by (simp add: agree_write)
next
  case (ReduceLocal l cnt l' ds)
  have "agree_on [(l, cnt * ds)] m m'" "agree_on [(l', cnt * ds)] m m'" "0 < ds"
    using assms(1,2) ReduceLocal by (auto simp: op_size_ok_def agree_on_Cons)
  with assms(3) ReduceLocal show ?thesis by (simp add: agree_reduce)
qed

lemma frame_agree:
  assumes "op_size_ok x" and "op_vals_ok x vs" and "rngs_disj (op_writes x) Rs"
  shows "agree_on Rs m (apply_op f x vs m)"
  using assms by (auto simp: agree_on_def rngs_disj_def dest: rng_disjD intro!: apply_op_frame [symmetric])

lemma agree_payload: "agree_on (op_reads x) m m' \<Longrightarrow> op_size_ok x \<Longrightarrow> payload_of x m = payload_of x m'"
  by (cases x) (auto simp: op_size_ok_def dest: agree_read)

lemma agree_sym: "agree_on Rs m m' \<Longrightarrow> agree_on Rs m' m"
  by (auto simp: agree_on_def)

lemma rngs_disj_append [simp]: "rngs_disj Rs (Ss @ Ts) \<longleftrightarrow> rngs_disj Rs Ss \<and> rngs_disj Rs Ts"
  by (auto simp: rngs_disj_def)

lemma rng_disj_sym: "rng_disj R S \<longleftrightarrow> rng_disj S R"
  by (auto simp: rng_disj_def)

lemma rngs_disj_sym: "rngs_disj Rs Ss \<longleftrightarrow> rngs_disj Ss Rs"
  by (auto simp: rngs_disj_def rng_disj_sym)

lemma ops_disj_sym: "ops_disj y x \<longleftrightarrow> ops_disj x y"
  by (auto simp: ops_disj_def rngs_disj_sym)

text \<open>Entries that touch disjoint ranges commute.\<close>

lemma ops_disj_apply:
  assumes y: "op_size_ok y" "op_vals_ok y vs" and x: "op_size_ok x" "op_vals_ok x ws"
    and d: "ops_disj y x"
  shows "apply_op f y vs (apply_op f x ws m) = apply_op f x ws (apply_op f y vs m)"
proof
  fix a
  from d have yx: "rngs_disj (op_writes y) (op_reads x @ op_writes x)"
    and xy: "rngs_disj (op_writes x) (op_reads y @ op_writes y)"
    by (auto simp: ops_disj_def rngs_disj_sym)
  show "apply_op f y vs (apply_op f x ws m) a = apply_op f x ws (apply_op f y vs m) a"
  proof (cases "\<exists>R \<in> set (op_writes y). in_rng R a")
    case True
    then obtain R where R: "R \<in> set (op_writes y)" "in_rng R a" by blast
    then have "\<forall>S \<in> set (op_writes x). \<not> in_rng S a"
      using yx by (auto simp: rngs_disj_def dest: rng_disjD)
    note ax = apply_op_frame [OF x this]
    have "agree_on (op_reads y @ op_writes y) (apply_op f x ws m) m"
      by (rule agree_sym, rule frame_agree [OF x xy])
    then have "agree_on (op_writes y) (apply_op f y vs (apply_op f x ws m)) (apply_op f y vs m)"
      by (intro apply_op_agree [OF y(1)]) auto
    from agree_onD [OF this R] ax show ?thesis by simp
  next
    case False
    then have ay: "\<And>m. apply_op f y vs m a = m a" by (intro apply_op_frame [OF y]) auto
    have "agree_on (op_reads x @ op_writes x) m (apply_op f y vs m)"
      by (rule frame_agree [OF y yx])
    then have ag: "agree_on (op_writes x) (apply_op f x ws m) (apply_op f x ws (apply_op f y vs m))"
      by (intro apply_op_agree [OF x(1)]) auto
    show ?thesis
    proof (cases "\<exists>R \<in> set (op_writes x). in_rng R a")
      case True
      then obtain R where R: "R \<in> set (op_writes x)" "in_rng R a" by blast
      from agree_onD [OF ag R] show ?thesis by (simp add: ay)
    next
      case False
      then have "\<And>m. apply_op f x ws m a = m a" by (intro apply_op_frame [OF x]) auto
      then show ?thesis by (simp add: ay)
    qed
  qed
qed

lemma ops_disj_commute:
  assumes "op_size_ok y" and "op_size_ok x" and "ops_disj y x"
  shows "commute_ops f y x"
  unfolding commute_ops_def
proof (intro allI impI conjI)
  fix vs ws :: "'a list" and m
  assume "recv_src y \<noteq> None \<longrightarrow> length vs \<le> snd (msg_shape y)"
    and "recv_src x \<noteq> None \<longrightarrow> length ws \<le> snd (msg_shape x)"
  then have v: "op_vals_ok y vs" "op_vals_ok x ws" by (auto simp: op_vals_ok_def)
  show "apply_op f y vs (apply_op f x ws m) = apply_op f x ws (apply_op f y vs m)"
    by (rule ops_disj_apply) (use assms v in auto)
  from assms(3) have d: "rngs_disj (op_writes x) (op_reads y)" "rngs_disj (op_writes y) (op_reads x)"
    by (auto simp: ops_disj_def)
  show "payload_of y (apply_op f x ws m) = payload_of y m"
    using agree_payload [OF frame_agree [OF assms(2) v(2) d(1)] assms(1)] by simp
  show "payload_of x (apply_op f y vs m) = payload_of x m"
    using agree_payload [OF frame_agree [OF assms(1) v(1) d(2)] assms(2)] by simp
qed

definition safe_phase :: "sched_op list \<Rightarrow> bool" where
  "safe_phase ph \<longleftrightarrow> (\<forall>x \<in> set ph. op_size_ok x) \<and>
     sorted_wrt (\<lambda>y x. is_local y \<or> same_channel y x \<or> ops_disj y x) ph"

lemma safe_phase_race_free: "safe_phase ph \<Longrightarrow> race_free_phase f ph"
  unfolding safe_phase_def race_free_phase_def
  by (auto intro: ops_disj_commute sorted_wrt_mono_rel
      [of ph "\<lambda>y x. is_local y \<or> same_channel y x \<or> ops_disj y x"])

section \<open>The front of a program\<close>

text \<open>Entries \<open>seg\<close> before the phases \<open>rest\<close>, with or without a barrier between them.\<close>

definition glue :: "bool \<Rightarrow> sched_op list \<Rightarrow> sched_op list list \<Rightarrow> sched_op list list" where
  "glue b seg rest =
     (if seg = [] then rest else if b then seg # rest
      else case rest of [] \<Rightarrow> [seg] | p # ps \<Rightarrow> (seg @ p) # ps)"

definition one_phase :: "(sched_op \<times> bool) list \<Rightarrow> bool" where
  "one_phase E \<longleftrightarrow> (\<forall>e \<in> set (butlast E). \<not> snd e)"

definition ends_barrier :: "(sched_op \<times> bool) list \<Rightarrow> bool" where
  "ends_barrier E \<longleftrightarrow> E \<noteq> [] \<and> snd (last E)"

lemma glue_Nil [simp]: "glue b [] rest = rest"
  by (simp add: glue_def)

lemma phases_nonempty: "[] \<notin> set (phases es)"
  by (induction es rule: phases.induct) (auto split: list.splits)

lemma phases_one: "one_phase E \<Longrightarrow> phases (E @ es) = glue (ends_barrier E) (map fst E) (phases es)"
proof (induction E)
  case (Cons e E)
  obtain x b where e: "e = (x, b)" by force
  show ?case
  proof (cases "E = []")
    case True
    then show ?thesis by (auto simp: e glue_def ends_barrier_def split: list.splits)
  next
    case False
    with Cons.prems have "\<not> b" "one_phase E" by (auto simp: one_phase_def e)
    with False Cons.IH show ?thesis
      by (auto simp: e glue_def ends_barrier_def split: list.splits)
  qed
qed simp

lemma drop_done_glue:
  assumes "i < length seg" and "[] \<notin> set rest"
  obtains ph ps where "glue b seg rest = ph # ps" "i < length ph" "take i ph = take i seg" "ph ! i = seg ! i"
    "drop_done (del i ph) ps = glue b (del i seg) rest"
proof (cases "b \<or> rest = []")
  case True
  then have "drop_done (del i seg) rest = glue b (del i seg) rest" "glue b seg rest = seg # rest"
    using assms(1) by (auto simp: glue_def drop_done_def)
  with assms that [of seg rest] show ?thesis by auto
next
  case False
  then obtain p ps where r: "rest = p # ps" "p \<noteq> []" using assms(2) by (cases rest) auto
  with False assms that [of "seg @ p" ps] show ?thesis
    by (auto simp: glue_def drop_done_def del_def nth_append)
qed

lemma glue_step:
  assumes "progs g r = glue b seg rest" and "i < length seg" and "[] \<notin> set rest"
    and "ready (take i seg) (seg ! i)" and "fire T f r (seg ! i) (mems g r) (net g) = Some (m, n)"
  shows "exec_step T f g
    (g\<lparr>progs := (progs g)(r := glue b (del i seg) rest), mems := (mems g)(r := m), net := n\<rparr>)"
proof -
  from drop_done_glue [OF assms(2,3)] obtain ph ps where
    p: "glue b seg rest = ph # ps" "i < length ph" "take i ph = take i seg" "ph ! i = seg ! i"
      "drop_done (del i ph) ps = glue b (del i seg) rest" .
  show ?thesis
    using step_atI [of g r ph ps i T f m n] assms p by (auto simp: exec_step_def)
qed

section \<open>One round\<close>

definition sends_to :: "(rank \<Rightarrow> sched_op list) \<Rightarrow> rank \<Rightarrow> rank \<Rightarrow> sched_op list" where
  "sends_to seg s d = filter (\<lambda>x. send_dst x = Some d) (seg s)"

definition recvs_from :: "(rank \<Rightarrow> sched_op list) \<Rightarrow> rank \<Rightarrow> rank \<Rightarrow> sched_op list" where
  "recvs_from seg d s = filter (\<lambda>x. recv_src x = Some s) (seg d)"

definition inbox :: "(rank \<Rightarrow> sched_op list) \<Rightarrow> (rank \<Rightarrow> 'v mem) \<Rightarrow> rank \<Rightarrow> rank \<Rightarrow> 'v list" where
  "inbox seg M s d = concat (map (\<lambda>x. snd (payload_of x (M s))) (sends_to seg s d))"

definition recv_vals :: "(rank \<Rightarrow> sched_op list) \<Rightarrow> (rank \<Rightarrow> 'v mem) \<Rightarrow> rank \<Rightarrow> sched_op \<Rightarrow> 'v list" where
  "recv_vals seg M r x = (case recv_src x of None \<Rightarrow> [] | Some s \<Rightarrow> inbox seg M s r)"

definition round_mem ::
    "('v \<Rightarrow> 'v \<Rightarrow> 'v) \<Rightarrow> (rank \<Rightarrow> sched_op list) \<Rightarrow> (rank \<Rightarrow> 'v mem) \<Rightarrow> rank \<Rightarrow> 'v mem" where
  "round_mem f seg M = (\<lambda>r. fold (\<lambda>x. apply_op f x (recv_vals seg M r x)) (seg r) (M r))"

definition comm_round :: "nat \<Rightarrow> (rank \<Rightarrow> sched_op list) \<Rightarrow> bool" where
  "comm_round N seg \<longleftrightarrow> (\<forall>r \<ge> N. seg r = []) \<and> (\<forall>r. \<forall>x \<in> set (seg r). \<not> is_local x) \<and>
     (\<forall>s d. list_all2 (\<lambda>y x. msg_fits (msg_shape y) (msg_shape x)) (sends_to seg s d) (recvs_from seg d s) \<and>
            length (recvs_from seg d s) \<le> 1)"

definition local_round :: "nat \<Rightarrow> (rank \<Rightarrow> sched_op list) \<Rightarrow> bool" where
  "local_round N seg \<longleftrightarrow> (\<forall>r \<ge> N. seg r = []) \<and> (\<forall>r. \<forall>x \<in> set (seg r). is_local x)"

lemma del_append: "del (length xs) (xs @ y # ys) = xs @ ys"
  by (simp add: del_def)

lemma del_0: "del 0 (x # xs) = xs"
  by (simp add: del_def)

lemma fire_send: "recv_src x = None \<Longrightarrow> send_dst x = Some d \<Longrightarrow> fire T f r x m n = Some (m, put_msg T r x m n)"
  by (cases x) (auto simp: fire_def take_msg_def)

lemma send_stage_rank:
  assumes "progs g r = glue b (pre @ seg) rest" and "[] \<notin> set rest"
    and "\<forall>x \<in> set (pre @ seg). \<not> is_local x" and "\<forall>x \<in> set pre. send_dst x = None"
  shows "exec T f g
    (g\<lparr>progs := (progs g)(r := glue b (pre @ filter (\<lambda>x. send_dst x = None) seg) rest),
       net := fold (\<lambda>x. put_msg T r x (mems g r)) seg (net g)\<rparr>)"
  using assms
proof (induction seg arbitrary: pre g)
  case Nil
  then have "(progs g)(r := glue b (pre @ []) rest) = progs g" by auto
  then show ?case by simp
next
  case (Cons x seg)
  show ?case
  proof (cases "send_dst x")
    case None
    then have "put_msg T r x (mems g r) (net g) = net g" by (simp add: put_msg_def)
    with None Cons.prems Cons.IH [of g "pre @ [x]"] show ?thesis by auto
  next
    case (Some d)
    then have rx: "recv_src x = None" by (cases x) auto
    let ?g = "g\<lparr>progs := (progs g)(r := glue b (pre @ seg) rest), net := put_msg T r x (mems g r) (net g)\<rparr>"
    have "exec_step T f g (g\<lparr>progs := (progs g)(r := glue b (del (length pre) (pre @ x # seg)) rest),
        mems := (mems g)(r := mems g r), net := put_msg T r x (mems g r) (net g)\<rparr>)"
      by (rule glue_step)
        (use Cons.prems Some rx fire_send [OF rx Some] in \<open>auto simp: ready_def same_channel_def\<close>)
    then have st: "exec_step T f g ?g" by (simp add: del_append)
    have ex: "exec T f ?g (?g\<lparr>progs := (progs ?g)(r := glue b (pre @ filter (\<lambda>x. send_dst x = None) seg) rest),
       net := fold (\<lambda>x. put_msg T r x (mems ?g r)) seg (net ?g)\<rparr>)"
      by (rule Cons.IH) (use Cons.prems in auto)
    have eq: "?g\<lparr>progs := (progs ?g)(r := glue b (pre @ filter (\<lambda>x. send_dst x = None) seg) rest),
         net := fold (\<lambda>x. put_msg T r x (mems ?g r)) seg (net ?g)\<rparr> =
       g\<lparr>progs := (progs g)(r := glue b (pre @ filter (\<lambda>x. send_dst x = None) (x # seg)) rest),
         net := fold (\<lambda>x. put_msg T r x (mems g r)) (x # seg) (net g)\<rparr>"
      by (rule gstate.equality) (auto simp: Some)
    from converse_rtranclp_into_rtranclp [OF st ex] show ?thesis unfolding eq .
  qed
qed

lemma send_stage:
  assumes "\<forall>r. progs g r = glue (b r) (seg r) (rest r)" and "\<forall>r. [] \<notin> set (rest r)"
    and "\<forall>r. \<forall>x \<in> set (seg r). \<not> is_local x"
  shows "exec T f g
    (g\<lparr>progs := (\<lambda>r. if r < N then glue (b r) (filter (\<lambda>x. send_dst x = None) (seg r)) (rest r) else progs g r),
       net := fold (\<lambda>r. fold (\<lambda>x. put_msg T r x (mems g r)) (seg r)) [0..<N] (net g)\<rparr>)"
proof (induction N)
  case (Suc N)
  let ?F = "filter (\<lambda>x. send_dst x = None)"
  let ?g = "g\<lparr>progs := (\<lambda>r. if r < N then glue (b r) (?F (seg r)) (rest r) else progs g r),
       net := fold (\<lambda>r. fold (\<lambda>x. put_msg T r x (mems g r)) (seg r)) [0..<N] (net g)\<rparr>"
  have "exec T f ?g (?g\<lparr>progs := (progs ?g)(N := glue (b N) ([] @ ?F (seg N)) (rest N)),
       net := fold (\<lambda>x. put_msg T N x (mems ?g N)) (seg N) (net ?g)\<rparr>)"
    by (rule send_stage_rank) (use assms in auto)
  moreover have "(\<lambda>r. if r < Suc N then glue (b r) (?F (seg r)) (rest r) else progs g r) =
      (\<lambda>r. if r < N then glue (b r) (?F (seg r)) (rest r) else progs g r)(N := glue (b N) (?F (seg N)) (rest N))"
    by (auto simp: less_Suc_eq)
  ultimately show ?case using Suc by (simp add: rtranclp_trans)
qed simp

context fifo_transport
begin

lemma pending_put:
  "tr_pending T (put_msg T r x m n) (s, d) =
     tr_pending T n (s, d) @ (if s = r \<and> send_dst x = Some d then [payload_of x m] else [])"
  by (auto simp: put_msg_def send split: option.splits)

lemma pending_puts:
  "tr_pending T (fold (\<lambda>x. put_msg T r x m) seg n) (s, d) =
     tr_pending T n (s, d) @
     (if s = r then map (\<lambda>x. payload_of x m) (filter (\<lambda>x. send_dst x = Some d) seg) else [])"
  by (induction seg arbitrary: n) (auto simp: pending_put)

lemma pending_all_puts:
  "tr_pending T (fold (\<lambda>r. fold (\<lambda>x. put_msg T r x (M r)) (seg r)) [0..<N] n) (s, d) =
     tr_pending T n (s, d) @ (if s < N then map (\<lambda>x. payload_of x (M s)) (sends_to seg s d) else [])"
  by (induction N) (auto simp: pending_puts sends_to_def less_Suc_eq)

lemma recv_stage_rank:
  assumes "progs g r = glue b xs rest" and "[] \<notin> set rest"
    and "\<forall>x \<in> set xs. \<exists>s. recv_src x = Some s \<and>
      tr_pending T (net g) (s, r) = [(fst (msg_shape x), V s)] \<and> length (V s) \<le> snd (msg_shape x)"
    and "distinct (map recv_src xs)"
  shows "\<exists>n. exec T f g (g\<lparr>progs := (progs g)(r := rest),
        mems := (mems g)(r := fold (\<lambda>x. apply_op f x (V (the (recv_src x)))) xs (mems g r)), net := n\<rparr>) \<and>
      (\<forall>s d. tr_pending T n (s, d) = (if d = r \<and> Some s \<in> set (map recv_src xs) then []
         else tr_pending T (net g) (s, d)))"
  using assms
proof (induction xs arbitrary: g)
  case Nil
  then have "progs g = (progs g)(r := rest)" by auto
  then show ?case by (intro exI [of _ "net g"]) auto
next
  case (Cons x xs)
  from Cons.prems(3) obtain s where s: "recv_src x = Some s"
    "tr_pending T (net g) (s, r) = [(fst (msg_shape x), V s)]" "length (V s) \<le> snd (msg_shape x)" by auto
  from recv_pending [OF s(2)] obtain n1 where
    n1: "tr_recv T (s, r) (net g) = Some ((fst (msg_shape x), V s), n1)"
      "tr_pending T n1 = (tr_pending T (net g))((s, r) := [])" by blast
  have fx: "fire T f r x (mems g r) (net g) = Some (apply_op f x (V s) (mems g r), n1)"
    using n1(1) s recv_not_send [OF s(1)]
    by (auto simp: fire_def take_msg_def put_msg_def msg_fits_def)
  let ?g = "g\<lparr>progs := (progs g)(r := glue b xs rest),
    mems := (mems g)(r := apply_op f x (V s) (mems g r)), net := n1\<rparr>"
  have "exec_step T f g (g\<lparr>progs := (progs g)(r := glue b (del 0 (x # xs)) rest),
    mems := (mems g)(r := apply_op f x (V s) (mems g r)), net := n1\<rparr>)"
    by (rule glue_step) (use Cons.prems fx in \<open>auto simp: ready_def\<close>)
  then have st: "exec_step T f g ?g" by (simp add: del_0)
  have oth: "Some s \<notin> recv_src ` set xs" using Cons.prems(4) s(1) by (auto simp: image_iff)
  have "\<exists>n. exec T f ?g (?g\<lparr>progs := (progs ?g)(r := rest),
        mems := (mems ?g)(r := fold (\<lambda>x. apply_op f x (V (the (recv_src x)))) xs (mems ?g r)), net := n\<rparr>) \<and>
      (\<forall>s d. tr_pending T n (s, d) = (if d = r \<and> Some s \<in> set (map recv_src xs) then []
         else tr_pending T (net ?g) (s, d)))"
  proof (rule Cons.IH)
    show "\<forall>y \<in> set xs. \<exists>s'. recv_src y = Some s' \<and>
      tr_pending T (net ?g) (s', r) = [(fst (msg_shape y), V s')] \<and> length (V s') \<le> snd (msg_shape y)"
      using Cons.prems(3) oth by (auto simp: n1(2) image_iff) metis
  qed (use Cons.prems in auto)
  then obtain n where ex: "exec T f ?g (?g\<lparr>progs := (progs ?g)(r := rest),
        mems := (mems ?g)(r := fold (\<lambda>x. apply_op f x (V (the (recv_src x)))) xs (mems ?g r)), net := n\<rparr>)"
    and pn: "\<forall>s d. tr_pending T n (s, d) = (if d = r \<and> Some s \<in> set (map recv_src xs) then []
         else tr_pending T (net ?g) (s, d))" by blast
  have eq: "?g\<lparr>progs := (progs ?g)(r := rest),
      mems := (mems ?g)(r := fold (\<lambda>x. apply_op f x (V (the (recv_src x)))) xs (mems ?g r)), net := n\<rparr> =
    g\<lparr>progs := (progs g)(r := rest),
      mems := (mems g)(r := fold (\<lambda>x. apply_op f x (V (the (recv_src x)))) (x # xs) (mems g r)), net := n\<rparr>"
    by (rule gstate.equality) (auto simp: s(1))
  from converse_rtranclp_into_rtranclp [OF st ex] have "exec T f g (g\<lparr>progs := (progs g)(r := rest),
      mems := (mems g)(r := fold (\<lambda>x. apply_op f x (V (the (recv_src x)))) (x # xs) (mems g r)), net := n\<rparr>)"
    unfolding eq .
  moreover have "\<forall>s d. tr_pending T n (s, d) = (if d = r \<and> Some s \<in> set (map recv_src (x # xs)) then []
         else tr_pending T (net g) (s, d))"
    using pn s(1) by (auto simp: n1(2))
  ultimately show ?case by blast
qed

lemma recv_stage:
  assumes "\<forall>r. progs g r = glue (b r) (xs r) (rest r)" and "\<forall>r. [] \<notin> set (rest r)"
    and "\<forall>r. \<forall>x \<in> set (xs r). \<exists>s. recv_src x = Some s \<and>
      tr_pending T (net g) (s, r) = [(fst (msg_shape x), V s r)] \<and> length (V s r) \<le> snd (msg_shape x)"
    and "\<forall>r. distinct (map recv_src (xs r))"
  shows "\<exists>n. exec T f g (g\<lparr>progs := (\<lambda>r. if r < N then rest r else progs g r),
        mems := (\<lambda>r. if r < N then fold (\<lambda>x. apply_op f x (V (the (recv_src x)) r)) (xs r) (mems g r) else mems g r),
        net := n\<rparr>) \<and>
      (\<forall>s d. tr_pending T n (s, d) = (if d < N \<and> Some s \<in> set (map recv_src (xs d)) then []
         else tr_pending T (net g) (s, d)))"
proof (induction N)
  case (Suc N)
  let ?R = "\<lambda>r. fold (\<lambda>x. apply_op f x (V (the (recv_src x)) r)) (xs r) (mems g r)"
  from Suc obtain n where
    ex: "exec T f g (g\<lparr>progs := (\<lambda>r. if r < N then rest r else progs g r),
        mems := (\<lambda>r. if r < N then ?R r else mems g r), net := n\<rparr>)" (is "exec T f g ?g")
    and pn: "\<forall>s d. tr_pending T n (s, d) = (if d < N \<and> Some s \<in> set (map recv_src (xs d)) then []
         else tr_pending T (net g) (s, d))" by blast
  have "\<exists>n'. exec T f ?g (?g\<lparr>progs := (progs ?g)(N := rest N),
        mems := (mems ?g)(N := fold (\<lambda>x. apply_op f x (V (the (recv_src x)) N)) (xs N) (mems ?g N)), net := n'\<rparr>) \<and>
      (\<forall>s d. tr_pending T n' (s, d) = (if d = N \<and> Some s \<in> set (map recv_src (xs N)) then []
         else tr_pending T (net ?g) (s, d)))"
    by (rule recv_stage_rank [where b = "b N" and V = "\<lambda>s. V s N"]) (use assms pn in auto)
  then obtain n' where ex': "exec T f ?g (?g\<lparr>progs := (progs ?g)(N := rest N),
        mems := (mems ?g)(N := fold (\<lambda>x. apply_op f x (V (the (recv_src x)) N)) (xs N) (mems ?g N)), net := n'\<rparr>)"
    and pn': "\<forall>s d. tr_pending T n' (s, d) = (if d = N \<and> Some s \<in> set (map recv_src (xs N)) then []
         else tr_pending T (net ?g) (s, d))" by blast
  have eq: "?g\<lparr>progs := (progs ?g)(N := rest N),
        mems := (mems ?g)(N := fold (\<lambda>x. apply_op f x (V (the (recv_src x)) N)) (xs N) (mems ?g N)), net := n'\<rparr> =
    g\<lparr>progs := (\<lambda>r. if r < Suc N then rest r else progs g r),
        mems := (\<lambda>r. if r < Suc N then ?R r else mems g r), net := n'\<rparr>"
    by (rule gstate.equality) (auto simp: less_Suc_eq)
  from rtranclp_trans [OF ex ex'] pn pn' show ?case
    unfolding eq by (intro exI [of _ n']) (auto simp: less_Suc_eq)
qed (intro exI [of _ "net g"]; auto)

end

lemma send_shape: "send_dst y = Some d \<Longrightarrow> \<exists>l. y = Send l (snd (msg_shape y)) (fst (msg_shape y)) d"
  by (cases y) auto

lemma comm_round_recv:
  assumes "comm_round N seg" and "x \<in> set (seg r)" and "recv_src x = Some s"
  obtains l cnt where "recvs_from seg r s = [x]"
    "sends_to seg s r = [Send l cnt (fst (msg_shape x)) r]" "cnt \<le> snd (msg_shape x)" "s < N" "r < N"
proof -
  from assms(1) have c: "list_all2 (\<lambda>y x. msg_fits (msg_shape y) (msg_shape x)) (sends_to seg s r) (recvs_from seg r s)"
    "length (recvs_from seg r s) \<le> 1" "\<forall>r \<ge> N. seg r = []" by (auto simp: comm_round_def)
  from assms(2,3) have "x \<in> set (recvs_from seg r s)" by (simp add: recvs_from_def)
  with c(2) have rx: "recvs_from seg r s = [x]" by (cases "recvs_from seg r s") auto
  with c(1) obtain y where y: "sends_to seg s r = [y]" "msg_fits (msg_shape y) (msg_shape x)"
    by (auto simp: list_all2_Cons2)
  then have "y \<in> set (seg s)" "send_dst y = Some r" by (auto simp: sends_to_def filter_eq_Cons_iff)
  moreover obtain l where "y = Send l (snd (msg_shape y)) (fst (msg_shape x)) r"
    using send_shape [OF \<open>send_dst y = Some r\<close>] y(2) by (auto simp: msg_fits_def)
  moreover have "s < N" "r < N" using c(3) assms(2) \<open>y \<in> set (seg s)\<close> by (metis empty_iff empty_set not_le)+
  ultimately show thesis using rx y that [of l "snd (msg_shape y)"] by (simp add: msg_fits_def)
qed

lemma comm_round_distinct:
  assumes "comm_round N seg"
  shows "distinct (map recv_src (filter (\<lambda>x. send_dst x = None) (seg r)))"
proof -
  have l: "length (filter (\<lambda>x. recv_src x = Some s) (seg r)) \<le> 1" for s
    using assms by (auto simp: comm_round_def recvs_from_def)
  have nl: "\<forall>x \<in> set (seg r). \<not> is_local x" using assms by (auto simp: comm_round_def)
  have "(\<And>s. length (filter (\<lambda>x. recv_src x = Some s) xs) \<le> 1) \<Longrightarrow> \<forall>x \<in> set xs. \<not> is_local x \<Longrightarrow>
    distinct (map recv_src (filter (\<lambda>x. send_dst x = None) xs))" for xs
  proof (induction xs)
    case (Cons x xs)
    have "length (filter (\<lambda>x. recv_src x = Some s) xs) \<le> 1" for s
      using Cons.prems(1) [of s] by (auto split: if_splits)
    then have IH: "distinct (map recv_src (filter (\<lambda>x. send_dst x = None) xs))"
      using Cons by auto
    show ?case
    proof (cases "recv_src x")
      case None
      with Cons.prems(2) IH show ?thesis by (auto simp: is_local_def)
    next
      case (Some s)
      with Cons.prems(1) [of s] have "filter (\<lambda>x. recv_src x = Some s) xs = []" by simp
      with Some IH show ?thesis by (auto simp: filter_empty_conv)
    qed
  qed simp
  with l nl show ?thesis by blast
qed

lemma fold_apply_filter:
  "fold (\<lambda>x. apply_op f x (V x)) (filter (\<lambda>x. send_dst x = None) xs) m = fold (\<lambda>x. apply_op f x (V x)) xs m"
proof (induction xs arbitrary: m)
  case (Cons x xs)
  then show ?case by (cases x) auto
qed simp

lemma round_mem_recvs:
  assumes "comm_round N seg"
  shows "fold (\<lambda>x. apply_op f x (inbox seg M (the (recv_src x)) r)) (filter (\<lambda>x. send_dst x = None) (seg r)) (M r) =
    round_mem f seg M r"
proof -
  have nl: "\<forall>x \<in> set (seg r). \<not> is_local x" using assms by (auto simp: comm_round_def)
  have "fold (\<lambda>x. apply_op f x (inbox seg M (the (recv_src x)) r)) (filter (\<lambda>x. send_dst x = None) (seg r)) (M r) =
      fold (\<lambda>x. apply_op f x (recv_vals seg M r x)) (filter (\<lambda>x. send_dst x = None) (seg r)) (M r)"
    using nl by (intro fold_cong) (auto simp: recv_vals_def is_local_def)
  then show ?thesis by (simp add: fold_apply_filter round_mem_def)
qed

lemma comm_round_recv_side:
  assumes "comm_round N seg" and "sends_to seg s d \<noteq> []"
  shows "d < N" and "Some s \<in> set (map recv_src (filter (\<lambda>x. send_dst x = None) (seg d)))"
proof -
  from assms(1) have "list_all2 (\<lambda>y x. msg_fits (msg_shape y) (msg_shape x)) (sends_to seg s d) (recvs_from seg d s)"
    by (simp add: comm_round_def)
  from list_all2_lengthD [OF this] have "length (sends_to seg s d) = length (recvs_from seg d s)" .
  with assms(2) obtain x xs where "recvs_from seg d s = x # xs" by (cases "recvs_from seg d s") auto
  then have x: "x \<in> set (seg d)" "recv_src x = Some s" by (auto simp: recvs_from_def filter_eq_Cons_iff)
  from comm_round_recv [OF assms(1) x] show "d < N" by blast
  show "Some s \<in> set (map recv_src (filter (\<lambda>x. send_dst x = None) (seg d)))"
    using x recv_not_send [OF x(2)] by force
qed

lemma comm_round_inbox:
  assumes "comm_round N seg" and "x \<in> set (seg r)" and "send_dst x = None"
  shows "\<exists>s. recv_src x = Some s \<and> s < N \<and>
    map (\<lambda>x. payload_of x (M s)) (sends_to seg s r) = [(fst (msg_shape x), inbox seg M s r)] \<and>
    length (inbox seg M s r) \<le> snd (msg_shape x)"
proof -
  have "\<not> is_local x" using assms(1,2) by (auto simp: comm_round_def)
  with assms(3) obtain s where s: "recv_src x = Some s" by (auto simp: is_local_def)
  from comm_round_recv [OF assms(1,2) s] obtain l cnt where
    "sends_to seg s r = [Send l cnt (fst (msg_shape x)) r]" "cnt \<le> snd (msg_shape x)" "s < N" by blast
  with s show ?thesis by (auto simp: inbox_def)
qed

context fifo_transport
begin

lemma comm_round_run:
  assumes round: "comm_round N seg" and g: "\<forall>r. progs g r = glue (b r) (seg r) (rest r)"
    and rest: "\<forall>r. [] \<notin> set (rest r)" and quiet: "net g = tr_idle T"
  shows "exec T f g (g\<lparr>progs := rest, mems := round_mem f seg (mems g)\<rparr>)"
proof -
  let ?F = "filter (\<lambda>x. send_dst x = None)"
  let ?n = "fold (\<lambda>r. fold (\<lambda>x. put_msg T r x (mems g r)) (seg r)) [0..<N] (net g)"
  let ?g = "g\<lparr>progs := (\<lambda>r. if r < N then glue (b r) (?F (seg r)) (rest r) else progs g r), net := ?n\<rparr>"
  let ?h = "\<lambda>n. ?g\<lparr>progs := (\<lambda>r. if r < N then rest r else progs ?g r),
        mems := (\<lambda>r. if r < N then fold (\<lambda>x. apply_op f x (inbox seg (mems g) (the (recv_src x)) r)) (?F (seg r)) (mems ?g r)
                     else mems ?g r), net := n\<rparr>"
  have Nil: "\<forall>r \<ge> N. seg r = []" and nl: "\<forall>r. \<forall>x \<in> set (seg r). \<not> is_local x"
    using round by (auto simp: comm_round_def)
  have sends: "exec T f g ?g" by (rule send_stage) (use g rest nl in auto)
  have pend: "tr_pending T ?n (s, d) =
      (if s < N then map (\<lambda>x. payload_of x (mems g s)) (sends_to seg s d) else [])" for s d
    by (simp add: pending_all_puts quiet idle)
  have "\<exists>n'. exec T f ?g (?h n') \<and>
      (\<forall>s d. tr_pending T n' (s, d) = (if d < N \<and> Some s \<in> set (map recv_src (?F (seg d))) then []
         else tr_pending T (net ?g) (s, d)))"
  proof (rule recv_stage)
    show "\<forall>r. progs ?g r = glue (b r) (?F (seg r)) (rest r)" using g Nil by (auto simp: not_less)
    show "\<forall>r. \<forall>x \<in> set (?F (seg r)). \<exists>s. recv_src x = Some s \<and>
        tr_pending T (net ?g) (s, r) = [(fst (msg_shape x), inbox seg (mems g) s r)] \<and>
        length (inbox seg (mems g) s r) \<le> snd (msg_shape x)"
      using comm_round_inbox [OF round, of _ _ "mems g"] by (fastforce simp: pend)
  qed (use rest comm_round_distinct [OF round] in auto)
  then obtain n' where recvs: "exec T f ?g (?h n')"
    and pn: "\<forall>s d. tr_pending T n' (s, d) = (if d < N \<and> Some s \<in> set (map recv_src (?F (seg d))) then []
         else tr_pending T (net ?g) (s, d))" by blast
  have "tr_pending T n' (s, d) = []" for s d
    using comm_round_recv_side [OF round, of s d] by (cases "sends_to seg s d = []") (auto simp: pn pend)
  then have "n' = tr_idle T" by (intro pending_ext) (auto simp: idle fun_eq_iff)
  moreover have "round_mem f seg (mems g) r = mems g r" if "\<not> r < N" for r
    using Nil that by (simp add: round_mem_def)
  then have "mems (?h n') = round_mem f seg (mems g)"
    by (intro ext) (simp add: round_mem_recvs [OF round])
  ultimately have "?h n' = g\<lparr>progs := rest, mems := round_mem f seg (mems g)\<rparr>"
    using g Nil quiet by (intro gstate.equality) (auto simp: not_less fun_eq_iff)
  with rtranclp_trans [OF sends recvs] show ?thesis by simp
qed

end

lemma local_stage_rank:
  assumes "progs g r = glue b xs rest" and "[] \<notin> set rest" and "\<forall>x \<in> set xs. is_local x"
  shows "exec T f g (g\<lparr>progs := (progs g)(r := rest), mems := (mems g)(r := fold (\<lambda>x. apply_op f x []) xs (mems g r))\<rparr>)"
  using assms
proof (induction xs arbitrary: g)
  case Nil
  then have "(progs g)(r := rest) = progs g" by auto
  then show ?case by simp
next
  case (Cons x xs)
  then have fx: "fire T f r x (mems g r) (net g) = Some (apply_op f x [] (mems g r), net g)"
    by (simp add: fire_def take_msg_def put_msg_def is_local_def)
  let ?g = "g\<lparr>progs := (progs g)(r := glue b xs rest), mems := (mems g)(r := apply_op f x [] (mems g r))\<rparr>"
  have "exec_step T f g (g\<lparr>progs := (progs g)(r := glue b (del 0 (x # xs)) rest),
    mems := (mems g)(r := apply_op f x [] (mems g r)), net := net g\<rparr>)"
    by (rule glue_step) (use Cons.prems fx in \<open>auto simp: ready_def\<close>)
  then have st: "exec_step T f g ?g" by (simp add: del_0)
  have ex: "exec T f ?g (?g\<lparr>progs := (progs ?g)(r := rest), mems := (mems ?g)(r := fold (\<lambda>x. apply_op f x []) xs (mems ?g r))\<rparr>)"
    by (rule Cons.IH) (use Cons.prems in auto)
  have eq: "?g\<lparr>progs := (progs ?g)(r := rest), mems := (mems ?g)(r := fold (\<lambda>x. apply_op f x []) xs (mems ?g r))\<rparr> =
    g\<lparr>progs := (progs g)(r := rest), mems := (mems g)(r := fold (\<lambda>x. apply_op f x []) (x # xs) (mems g r))\<rparr>"
    by (rule gstate.equality) auto
  from converse_rtranclp_into_rtranclp [OF st ex] show ?case unfolding eq .
qed

lemma local_stage:
  assumes "\<forall>r. progs g r = glue (b r) (seg r) (rest r)" and "\<forall>r. [] \<notin> set (rest r)"
    and "\<forall>r. \<forall>x \<in> set (seg r). is_local x"
  shows "exec T f g (g\<lparr>progs := (\<lambda>r. if r < N then rest r else progs g r),
    mems := (\<lambda>r. if r < N then fold (\<lambda>x. apply_op f x []) (seg r) (mems g r) else mems g r)\<rparr>)"
proof (induction N)
  case (Suc N)
  let ?h = "\<lambda>N. g\<lparr>progs := (\<lambda>r. if r < N then rest r else progs g r),
    mems := (\<lambda>r. if r < N then fold (\<lambda>x. apply_op f x []) (seg r) (mems g r) else mems g r)\<rparr>"
  let ?g = "?h N"
  have ex: "exec T f ?g (?g\<lparr>progs := (progs ?g)(N := rest N), mems := (mems ?g)(N := fold (\<lambda>x. apply_op f x []) (seg N) (mems ?g N))\<rparr>)"
    by (rule local_stage_rank) (use assms in auto)
  have eq: "?g\<lparr>progs := (progs ?g)(N := rest N), mems := (mems ?g)(N := fold (\<lambda>x. apply_op f x []) (seg N) (mems ?g N))\<rparr> = ?h (Suc N)"
    by (rule gstate.equality) (auto simp: less_Suc_eq)
  from rtranclp_trans [OF Suc ex] show ?case unfolding eq .
qed simp

lemma local_round_run:
  assumes round: "local_round N seg" and g: "\<forall>r. progs g r = glue (b r) (seg r) (rest r)"
    and rest: "\<forall>r. [] \<notin> set (rest r)"
  shows "exec T f g (g\<lparr>progs := rest, mems := round_mem f seg (mems g)\<rparr>)"
proof -
  have Nil: "\<forall>r \<ge> N. seg r = []" and l: "\<forall>r. \<forall>x \<in> set (seg r). is_local x"
    using round by (auto simp: local_round_def)
  have "round_mem f seg (mems g) r = fold (\<lambda>x. apply_op f x []) (seg r) (mems g r)" for r
    unfolding round_mem_def by (rule fold_cong) (use l in \<open>auto simp: recv_vals_def is_local_def\<close>)
  then have "(\<lambda>r. if r < N then fold (\<lambda>x. apply_op f x []) (seg r) (mems g r) else mems g r) = round_mem f seg (mems g)"
    using Nil by (intro ext) simp
  moreover have "(\<lambda>r. if r < N then rest r else progs g r) = rest" using g Nil by (auto simp: not_less)
  ultimately show ?thesis using local_stage [OF g rest l, of T f N] by simp
qed

section \<open>Rounds in sequence\<close>

text \<open>
  The start of a collective: every rank has the entries of its builder, and nothing is in
  flight. Ranks from \<open>N\<close> on do not exist.
\<close>

definition coll_start ::
    "('n, 'v) transport \<Rightarrow> nat \<Rightarrow> (rank \<Rightarrow> (sched_op \<times> bool) list) \<Rightarrow> (rank \<Rightarrow> 'v mem) \<Rightarrow> ('n, 'v) gstate" where
  "coll_start T N es M = \<lparr>progs = (\<lambda>r. if r < N then phases (es r) else []), mems = M, net = tr_idle T\<rparr>"

definition all_done :: "('n, 'v) transport \<Rightarrow> ('n, 'v) gstate \<Rightarrow> bool" where
  "all_done T g \<longleftrightarrow> (\<forall>r. progs g r = []) \<and> net g = tr_idle T"

text \<open>
  A collective is correct when from every state it can reach it can finish, and the
  state in which it finishes is right: no interleaving gets stuck, and every interleaving that
  runs to the end leaves the right memory and no message behind.
\<close>

definition coll_correct ::
    "('n, 'v) transport \<Rightarrow> ('v \<Rightarrow> 'v \<Rightarrow> 'v) \<Rightarrow> ('n, 'v) gstate \<Rightarrow> ((rank \<Rightarrow> 'v mem) \<Rightarrow> bool) \<Rightarrow> bool" where
  "coll_correct T f g Q \<longleftrightarrow>
     (\<forall>s. exec T f g s \<longrightarrow> (\<exists>t. exec T f s t \<and> all_done T t \<and> Q (mems t))) \<and>
     (\<forall>s. exec T f g s \<longrightarrow> (\<forall>u. \<not> exec_step T f s u) \<longrightarrow> all_done T s \<and> Q (mems s))"

fun rounds_mem :: "('v \<Rightarrow> 'v \<Rightarrow> 'v) \<Rightarrow> (nat \<Rightarrow> rank \<Rightarrow> sched_op list) \<Rightarrow> nat \<Rightarrow> (rank \<Rightarrow> 'v mem) \<Rightarrow> rank \<Rightarrow> 'v mem" where
  "rounds_mem f seg 0 M = M"
| "rounds_mem f seg (Suc k) M = round_mem f (seg k) (rounds_mem f seg k M)"

definition is_round :: "nat \<Rightarrow> (rank \<Rightarrow> sched_op list) \<Rightarrow> bool" where
  "is_round N seg \<longleftrightarrow> comm_round N seg \<or> local_round N seg"

lemma all_done_final: "all_done T g \<Longrightarrow> \<not> exec_step T f g g'"
  by (auto simp: all_done_def exec_step_def step_at_def)

lemma phases_barriers:
  "\<forall>E \<in> set Es. one_phase E \<and> (E = [] \<or> ends_barrier E) \<Longrightarrow>
   phases (concat Es) = filter (\<lambda>ph. ph \<noteq> []) (map (map fst) Es)"
  by (induction Es) (auto simp: phases_one glue_def)

lemma race_free_start:
  "(\<And>r ph. r < N \<Longrightarrow> ph \<in> set (phases (es r)) \<Longrightarrow> safe_phase ph) \<Longrightarrow> race_free f (coll_start T N es M)"
  by (auto simp: race_free_def coll_start_def intro: safe_phase_race_free split: if_splits)

context fifo_transport
begin

lemma is_round_run:
  "is_round N seg \<Longrightarrow> \<forall>r. progs g r = glue (b r) (seg r) (rest r) \<Longrightarrow> \<forall>r. [] \<notin> set (rest r) \<Longrightarrow>
   net g = tr_idle T \<Longrightarrow> exec T f g (g\<lparr>progs := rest, mems := round_mem f seg (mems g)\<rparr>)"
  unfolding is_round_def using comm_round_run [of N seg] local_round_run [of N seg] by blast

lemma rounds_run:
  assumes es: "\<And>r. r < N \<Longrightarrow> es r = concat (map (\<lambda>k. E k r) [0..<K])"
    and one: "\<And>k r. k < K \<Longrightarrow> r < N \<Longrightarrow> one_phase (E k r)"
    and seg: "\<And>k r. k < K \<Longrightarrow> r < N \<Longrightarrow> seg k r = map fst (E k r)"
    and rounds: "\<And>k. k < K \<Longrightarrow> is_round N (seg k)"
  shows "k \<le> K \<Longrightarrow> exec T f (coll_start T N es M)
    \<lparr>progs = (\<lambda>r. if r < N then phases (concat (map (\<lambda>k. E k r) [k..<K])) else []),
     mems = rounds_mem f seg k M, net = tr_idle T\<rparr>"
proof (induction k)
  case 0
  have "(\<lambda>r. if r < N then phases (es r) else []) =
      (\<lambda>r. if r < N then phases (concat (map (\<lambda>k. E k r) [0..<K])) else [])"
    using es by auto
  then show ?case by (simp add: coll_start_def)
next
  case (Suc k)
  let ?rest = "\<lambda>k r. if r < N then phases (concat (map (\<lambda>k. E k r) [k..<K])) else []"
  let ?g = "\<lparr>progs = ?rest k, mems = rounds_mem f seg k M, net = tr_idle T\<rparr>"
  from Suc.prems have k: "k < K" by simp
  have Nil: "\<forall>r \<ge> N. seg k r = []"
    using rounds [OF k] by (auto simp: is_round_def comm_round_def local_round_def)
  have "progs ?g r = glue (ends_barrier (E k r)) (seg k r) (?rest (Suc k) r)" for r
    using Nil one [OF k, of r] seg [OF k, of r] by (auto simp: upt_conv_Cons [OF k] phases_one)
  then have "exec T f ?g (?g\<lparr>progs := ?rest (Suc k), mems := round_mem f (seg k) (mems ?g)\<rparr>)"
    by (intro is_round_run [OF rounds [OF k]]) (auto simp: phases_nonempty)
  with Suc show ?case by (simp add: rtranclp_trans)
qed

theorem rounds_correct:
  assumes es: "\<And>r. r < N \<Longrightarrow> es r = concat (map (\<lambda>k. E k r) [0..<K])"
    and one: "\<And>k r. k < K \<Longrightarrow> r < N \<Longrightarrow> one_phase (E k r)"
    and seg: "\<And>k r. k < K \<Longrightarrow> r < N \<Longrightarrow> seg k r = map fst (E k r)"
    and rounds: "\<And>k. k < K \<Longrightarrow> is_round N (seg k)"
    and race: "race_free f (coll_start T N es M)"
    and Q: "Q (rounds_mem f seg K M)"
  shows "coll_correct T f (coll_start T N es M) Q"
proof -
  let ?t = "\<lparr>progs = (\<lambda>r. []), mems = rounds_mem f seg K M, net = tr_idle T\<rparr>"
  have "exec T f (coll_start T N es M)
    \<lparr>progs = (\<lambda>r. if r < N then phases (concat (map (\<lambda>k. E k r) [K..<K])) else []),
     mems = rounds_mem f seg K M, net = tr_idle T\<rparr>"
    by (rule rounds_run [OF es one seg rounds]) auto
  then have run: "exec T f (coll_start T N es M) ?t" by (simp cong: if_cong)
  have dn: "all_done T ?t" by (simp add: all_done_def)
  then have fin: "runs.final f ?t" by (simp add: runs.final_def all_done_final)
  have "exec T f s ?t" if "exec T f (coll_start T N es M) s" for s
    by (rule runs.every_run_completes [OF race run fin that])
  moreover have "s = ?t" if "exec T f (coll_start T N es M) s" "\<forall>u. \<not> exec_step T f s u" for s
    using runs.final_state_unique [OF race run fin that(1)] that(2) by (simp add: runs.final_def)
  moreover have "all_done T ?t \<and> Q (mems ?t)" using dn Q by simp
  ultimately show ?thesis unfolding coll_correct_def by blast
qed

text \<open>The usual way to use it: an invariant of the rounds.\<close>

corollary rounds_invariant:
  assumes es: "\<And>r. r < N \<Longrightarrow> es r = concat (map (\<lambda>k. E k r) [0..<K])"
    and one: "\<And>k r. k < K \<Longrightarrow> r < N \<Longrightarrow> one_phase (E k r)"
    and seg: "\<And>k r. k < K \<Longrightarrow> r < N \<Longrightarrow> seg k r = map fst (E k r)"
    and rounds: "\<And>k. k < K \<Longrightarrow> is_round N (seg k)"
    and race: "race_free f (coll_start T N es M)"
    and init: "I 0 M"
    and step: "\<And>k M. k < K \<Longrightarrow> I k M \<Longrightarrow> I (Suc k) (round_mem f (seg k) M)"
    and fin: "\<And>M. I K M \<Longrightarrow> Q M"
  shows "coll_correct T f (coll_start T N es M) Q"
proof -
  have "k \<le> K \<Longrightarrow> I k (rounds_mem f seg k M)" for k
    by (induction k) (auto intro: init step)
  then show ?thesis by (intro rounds_correct [OF es one seg rounds race] fin) auto
qed

end

end
