(* ===== verification/CollBuild.thy ===== *)
theory CollBuild
  imports CollRounds
begin

text \<open>
  Facts the proofs about the builders share: what the calls on a builder append, the number
  of rounds of a loop that doubles its mask, and arithmetic of ranks modulo the size of the
  communicator.
\<close>

section \<open>Appending entries\<close>

definition new_builder :: "nat \<Rightarrow> builder" where
  "new_builder nb = \<lparr>ops = [], next_buf = nb\<rparr>"

lemma ops_create [simp]: "ops (create x s) = ops s @ [(x, False)]"
  by (simp add: create_def)

lemma ops_barrier_create [simp]: "ops (barrier_here (create x s)) = ops s @ [(x, True)]"
  by (simp add: create_def barrier_here_def)

lemma next_create [simp]: "next_buf (create x s) = next_buf s"
  by (simp add: create_def)

lemma next_barrier [simp]: "next_buf (barrier_here s) = next_buf s"
  by (simp add: barrier_here_def)

section \<open>Rounds with at most one message between two ranks\<close>

lemma comm_roundI:
  assumes "\<And>r. N \<le> r \<Longrightarrow> seg r = []" and "\<And>r x. x \<in> set (seg r) \<Longrightarrow> \<not> is_local x"
    and "\<And>s d. sends_to seg s d = (if P s d then [SX s d] else [])"
    and "\<And>s d. recvs_from seg d s = (if P s d then [RX s d] else [])"
    and "\<And>s d. P s d \<Longrightarrow> msg_fits (msg_shape (SX s d)) (msg_shape (RX s d))"
  shows "comm_round N seg"
  using assms by (auto simp: comm_round_def)

lemma inbox_eq:
  "sends_to seg s d = (if P s d then [SX s d] else []) \<Longrightarrow>
   inbox seg M s d = (if P s d then snd (payload_of (SX s d) (M s)) else [])"
  by (simp add: inbox_def)

lemma filter_eq_distinct: "distinct xs \<Longrightarrow> filter (\<lambda>i. i = d) xs = (if d \<in> set xs then [d] else [])"
  by (induction xs) auto

lemma sends_to_all:
  "distinct xs \<Longrightarrow> (\<And>i. send_dst (h i) = Some i) \<Longrightarrow>
   filter (\<lambda>x. send_dst x = Some d) (map h xs) = (if d \<in> set xs then [h d] else [])"
  by (simp add: filter_map comp_def filter_eq_distinct)

lemma recvs_from_all:
  "distinct xs \<Longrightarrow> (\<And>i. recv_src (h i) = Some i) \<Longrightarrow>
   filter (\<lambda>x. recv_src x = Some s) (map h xs) = (if s \<in> set xs then [h s] else [])"
  by (simp add: filter_map comp_def filter_eq_distinct)

lemma fold_sends: "\<forall>x \<in> set xs. send_dst x \<noteq> None \<Longrightarrow> fold (\<lambda>x. apply_op f x (V x)) xs m = m"
proof (induction xs arbitrary: m)
  case (Cons x xs)
  then show ?case by (cases x) auto
qed simp

lemma sorted_wrt_all: "(\<And>x y. x \<in> set xs \<Longrightarrow> y \<in> set xs \<Longrightarrow> P x y) \<Longrightarrow> sorted_wrt P xs"
  by (induction xs) auto

lemma phases_no_barrier: "phases (map (\<lambda>x. (x, False)) xs) = (if xs = [] then [] else [xs])"
  by (induction xs) auto

lemma race_free_barriers:
  assumes es: "\<And>r. r < N \<Longrightarrow> es r = concat (map (\<lambda>k. E k r) [0..<K])"
    and ends: "\<And>k r. k < K \<Longrightarrow> r < N \<Longrightarrow> one_phase (E k r) \<and> (E k r = [] \<or> ends_barrier (E k r))"
    and safe: "\<And>k r. k < K \<Longrightarrow> r < N \<Longrightarrow> safe_phase (map fst (E k r))"
  shows "race_free f (coll_start T N es M)"
proof (rule race_free_start)
  fix r ph assume r: "r < N" and ph: "ph \<in> set (phases (es r))"
  have "phases (es r) = filter (\<lambda>ph. ph \<noteq> []) (map (map fst) (map (\<lambda>k. E k r) [0..<K]))"
    unfolding es [OF r] by (rule phases_barriers) (use ends r in auto)
  with ph have "ph \<in> set (map (map fst) (map (\<lambda>k. E k r) [0..<K]))"
    by (metis filter_is_subset subsetD)
  then obtain k where "k < K" "ph = map fst (E k r)" by auto
  with safe r show "safe_phase ph" by simp
qed

lemma concat_map_unique:
  "distinct xs \<Longrightarrow> (\<And>x. x \<in> set xs \<Longrightarrow> g x = (if x = x0 then ys else [])) \<Longrightarrow>
   concat (map g xs) = (if x0 \<in> set xs then ys else [])"
  by (induction xs) auto

lemma fold_concat_map: "fold h (concat (map g xs)) s = fold (\<lambda>x s. fold h (g x) s) xs s"
  by (induction xs arbitrary: s) auto

lemma loc_add_add: "loc_add (loc_add l a) b = loc_add l (a + b)"
  by (simp add: loc_add_def)

lemma read_cells_0 [simp]: "read_cells m l 0 ds = []"
  by (simp add: read_cells_def)

lemma write_cells_Nil [simp]: "write_cells m l ds [] = m"
  by (auto simp: write_cells_def in_cells_def)

text \<open>Writing several blocks that do not overlap.\<close>

lemma fold_write_blocks:
  assumes "0 < ds" and "\<And>i j. i \<in> J \<Longrightarrow> j \<in> J \<Longrightarrow> i \<noteq> j \<Longrightarrow> rng_disj (L i, C i * ds) (L j, C j * ds)"
    and "\<And>j. j \<in> J \<Longrightarrow> length (V j) = C j" and "j \<in> J"
  shows "set js \<subseteq> J \<Longrightarrow>
    read_cells (fold (\<lambda>j m. write_cells m (L j) ds (V j)) js m) (L j) (C j) ds =
    (if j \<in> set js then V j else read_cells m (L j) (C j) ds)"
proof (induction js arbitrary: m)
  case (Cons i js)
  then have i: "i \<in> J" by simp
  have "read_cells (write_cells m (L i) ds (V i)) (L j) (C j) ds = (if j = i then V j else read_cells m (L j) (C j) ds)"
    using assms(1,4) assms(2) [OF i assms(4)] assms(3) [OF i] by (auto intro!: read_write_other)
  with Cons show ?case by auto
qed simp

lemma fold_write_blocks_outside:
  assumes "0 < ds" and "\<And>j. j \<in> set js \<Longrightarrow> length (V j) = C j \<and> \<not> in_rng (L j, C j * ds) a"
  shows "fold (\<lambda>j m. write_cells m (L j) ds (V j)) js m a = m a"
  using assms(2)
proof (induction js arbitrary: m)
  case (Cons i js)
  then have "write_cells m (L i) ds (V i) a = m a"
    using assms(1) by (intro write_cells_outside [where cnt = "C i"]) auto
  with Cons show ?case by simp
qed simp

text \<open>Entries all of whose phases are safe.\<close>

definition safe_entries :: "(sched_op \<times> bool) list \<Rightarrow> bool" where
  "safe_entries es \<longleftrightarrow> (\<forall>ph \<in> set (phases es). safe_phase ph)"

lemma race_free_entries:
  "(\<And>r. r < N \<Longrightarrow> safe_entries (es r)) \<Longrightarrow> race_free f (coll_start T N es M)"
  by (rule race_free_start) (simp add: safe_entries_def)

lemma safe_entries_Nil [simp]: "safe_entries []"
  by (simp add: safe_entries_def)

lemma safe_entries_barrier:
  "one_phase E \<Longrightarrow> E = [] \<or> ends_barrier E \<Longrightarrow> safe_phase (map fst E) \<Longrightarrow> safe_entries es \<Longrightarrow> safe_entries (E @ es)"
  by (auto simp: safe_entries_def phases_one glue_def split: if_splits)

lemma safe_phase_locals:
  "\<forall>x \<in> set ls. is_local x \<and> op_size_ok x \<Longrightarrow> safe_phase ph \<Longrightarrow> safe_phase (ls @ ph)"
  by (auto simp: safe_phase_def sorted_wrt_append intro!: sorted_wrt_all)

lemma safe_entries_locals:
  assumes "one_phase E" and "\<forall>e \<in> set E. is_local (fst e) \<and> op_size_ok (fst e)" and "safe_entries es"
  shows "safe_entries (E @ es)"
proof -
  have ls: "\<forall>x \<in> set (map fst E). is_local x \<and> op_size_ok x" using assms(2) by auto
  have "safe_phase (map fst E)" using safe_phase_locals [OF ls, of "[]"] by (simp add: safe_phase_def)
  with assms(1,3) safe_phase_locals [OF ls] show ?thesis
    by (auto simp: safe_entries_def phases_one glue_def split: if_splits list.splits)
qed

lemma safe_entries_concat:
  "(\<And>E. E \<in> set Es \<Longrightarrow> one_phase E \<and> (E = [] \<or> ends_barrier E) \<and> safe_phase (map fst E)) \<Longrightarrow> safe_entries (concat Es)"
  by (induction Es) (auto intro: safe_entries_barrier)

section \<open>Powers of two below a size\<close>

definition rounds_of :: "nat \<Rightarrow> nat" where
  "rounds_of n = (LEAST k. n \<le> 2 ^ k)"

lemma rounds_of_le: "n \<le> 2 ^ rounds_of n"
  unfolding rounds_of_def by (rule LeastI [of _ n]) (simp add: less_imp_le)

lemma rounds_of_less: "k < rounds_of n \<longleftrightarrow> 2 ^ k < n"
proof
  assume "k < rounds_of n"
  then show "2 ^ k < n" unfolding rounds_of_def using not_less_Least by (metis not_le)
next
  assume "2 ^ k < n"
  show "k < rounds_of n"
  proof (rule ccontr)
    assume "\<not> k < rounds_of n"
    then have "(2::nat) ^ rounds_of n \<le> 2 ^ k" by simp
    with rounds_of_le [of n] \<open>2 ^ k < n\<close> show False by simp
  qed
qed

section \<open>Ranks modulo the size\<close>

lemma mod_shift: "s < n \<Longrightarrow> d \<le> n \<Longrightarrow> ((s + n - d) mod n + d) mod n = s" for s n d :: nat
  by (metis add.commute add_diff_inverse_nat le_add2 le_trans mod_add_left_eq mod_add_self1 mod_less not_le)

lemma mod_shift': "r < n \<Longrightarrow> d \<le> n \<Longrightarrow> ((r + d) mod n + n - d) mod n = r" for r n d :: nat
proof -
  assume r: "r < n" and d: "d \<le> n"
  have "((r + d) mod n + n - d) mod n = ((r + d) mod n + (n - d)) mod n" using d by simp
  also have "\<dots> = (r + d + (n - d)) mod n" by (simp add: mod_add_left_eq)
  also have "\<dots> = r" using r d by simp
  finally show ?thesis .
qed

lemma mod_shift_iff: "r < n \<Longrightarrow> s < n \<Longrightarrow> d \<le> n \<Longrightarrow> s = (r + d) mod n \<longleftrightarrow> r = (s + n - d) mod n"
  for r s n d :: nat
  using mod_shift mod_shift' by metis

lemma shift_inj: "a < n \<Longrightarrow> b < n \<Longrightarrow> (r + a) mod n = (r + b) mod n \<Longrightarrow> a = b" for r a b n :: nat
proof -
  assume a: "a < n" and b: "b < n" and eq: "(r + a) mod n = (r + b) mod n"
  have "(c + r mod n) mod n = (r + c) mod n" for c
    by (metis add.commute mod_add_right_eq)
  with eq have "(a + r mod n) mod n = (b + r mod n) mod n" by simp
  with mod_shift' [of a n "r mod n"] mod_shift' [of b n "r mod n"] a b show "a = b"
    by (metis less_imp_le_nat less_nat_zero_code mod_less_divisor neq0_conv)
qed

lemma mod_shift_diff: "r < n \<Longrightarrow> s < n \<Longrightarrow> (r + n - (r + n - s) mod n) mod n = s" for r s n :: nat
proof -
  assume r: "r < n" and s: "s < n"
  let ?d = "(r + n - s) mod n"
  have d: "?d < n" using r by simp
  have "?d + s = r \<or> ?d + s = r + n" using r s by (auto simp: mod_if)
  then show ?thesis using r s d by (auto simp: mod_if)
qed

end
