(* ===== verification/CollOrder.thy ===== *)
theory CollOrder
  imports CollRounds
begin

text \<open>
  What a reachable state says about the past: messages are neither lost nor made up, and a
  rank that has completed an entry has completed all earlier phases. Used for the
  synchronisation property of the barrier.
\<close>

section \<open>Conservation of messages\<close>

definition sends_left :: "('n, 'v) gstate \<Rightarrow> rank \<Rightarrow> rank \<Rightarrow> nat" where
  "sends_left g s d = length (filter (\<lambda>x. send_dst x = Some d) (concat (progs g s)))"

definition recvs_left :: "('n, 'v) gstate \<Rightarrow> rank \<Rightarrow> rank \<Rightarrow> nat" where
  "recvs_left g d s = length (filter (\<lambda>x. recv_src x = Some s) (concat (progs g d)))"

lemma concat_drop_done: "concat (drop_done ph rest) = ph @ concat rest"
  by (simp add: drop_done_def)

lemma filter_del:
  "i < length xs \<Longrightarrow> length (filter P xs) = length (filter P (del i xs)) + (if P (xs ! i) then 1 else 0)"
  by (subst (1) del_decomp, assumption) (simp add: del_def del: append_take_drop_id)

lemma recvs_left_step: "exec_step T f g g' \<Longrightarrow> recvs_left g' d s \<le> recvs_left g d s"
proof -
  assume "exec_step T f g g'"
  then obtain r i where "step_at T f r i g = Some g'" by (auto simp: exec_step_def)
  then obtain ph rest where a: "progs g r = ph # rest" "i < length ph" "progs g' = (progs g)(r := drop_done (del i ph) rest)"
    by (auto elim: step_atE)
  then show ?thesis using filter_del [OF a(2), of "\<lambda>x. recv_src x = Some s"]
    by (cases "d = r") (simp_all add: recvs_left_def concat_drop_done)
qed

lemma recvs_left_mono: "exec T f g g' \<Longrightarrow> recvs_left g' d s \<le> recvs_left g d s"
  by (induction rule: rtranclp_induct) (auto dest: recvs_left_step intro: order_trans)

context fifo_transport
begin

lemma take_pending:
  assumes "take_msg T r x n = Some (vs, n')"
  shows "length (tr_pending T n (s, d)) =
    length (tr_pending T n' (s, d)) + (if d = r \<and> recv_src x = Some s then 1 else 0)"
proof (cases "recv_src x")
  case None
  with assms show ?thesis by (simp add: take_msg_def)
next
  case (Some a)
  with assms obtain m where "tr_recv T (a, r) n = Some (m, n')"
    by (auto simp: take_msg_def split: option.splits if_splits)
  from recv_some [OF this] Some show ?thesis by auto
qed

lemma fire_pending:
  assumes "fire T f r x m n = Some (m', n')"
  shows "length (tr_pending T n (s, d)) + (if s = r \<and> send_dst x = Some d then 1 else 0) =
    length (tr_pending T n' (s, d)) + (if d = r \<and> recv_src x = Some s then 1 else 0)"
proof -
  from assms obtain vs n1 where "take_msg T r x n = Some (vs, n1)" "n' = put_msg T r x m n1"
    by (auto simp: fire_def split: option.splits)
  with take_pending [OF this(1), of s d] show ?thesis by (simp add: pending_put)
qed

lemma step_conserves:
  assumes "exec_step T f g g'"
  shows "sends_left g' s d + length (tr_pending T (net g') (s, d)) + recvs_left g d s =
    sends_left g s d + length (tr_pending T (net g) (s, d)) + recvs_left g' d s"
proof -
  from assms obtain r i where "step_at T f r i g = Some g'" by (auto simp: exec_step_def)
  then obtain ph rest m n where
    a: "progs g r = ph # rest" "i < length ph" "fire T f r (ph ! i) (mems g r) (net g) = Some (m, n)"
      "g' = g\<lparr>progs := (progs g)(r := drop_done (del i ph) rest), mems := (mems g)(r := m), net := n\<rparr>"
    by (rule step_atE)
  have p: "progs g' t = (if t = r then drop_done (del i ph) rest else progs g t)" for t
    by (simp add: a(4))
  have "sends_left g s d = sends_left g' s d + (if s = r \<and> send_dst (ph ! i) = Some d then 1 else 0)"
    using filter_del [OF a(2), of "\<lambda>x. send_dst x = Some d"]
    by (cases "s = r") (simp_all add: sends_left_def p a(1) concat_drop_done)
  moreover have "recvs_left g d s = recvs_left g' d s + (if d = r \<and> recv_src (ph ! i) = Some s then 1 else 0)"
    using filter_del [OF a(2), of "\<lambda>x. recv_src x = Some s"]
    by (cases "d = r") (simp_all add: recvs_left_def p a(1) concat_drop_done)
  moreover have "net g' = n" by (simp add: a(4))
  ultimately show ?thesis using fire_pending [OF a(3), of s d] by simp
qed

lemma exec_conserves:
  "exec T f g g' \<Longrightarrow>
   sends_left g' s d + length (tr_pending T (net g') (s, d)) + recvs_left g d s =
   sends_left g s d + length (tr_pending T (net g) (s, d)) + recvs_left g' d s"
proof (induction rule: rtranclp_induct)
  case (step y z)
  with step_conserves [OF step(2), of s d] show ?case by linarith
qed simp

end

section \<open>Program order\<close>

text \<open>What is left of a program: part of one phase, and the phases after it.\<close>

definition suffix_of :: "sched_op list list \<Rightarrow> sched_op list list \<Rightarrow> bool" where
  "suffix_of P ps \<longleftrightarrow>
     (\<exists>j ph. ps = drop_done ph (drop (Suc j) P) \<and> set ph \<subseteq> (if j < length P then set (P ! j) else {}))"

lemma suffix_of_refl: "[] \<notin> set P \<Longrightarrow> suffix_of P P"
proof (cases P)
  case Nil
  then show ?thesis by (auto simp: suffix_of_def drop_done_def)
next
  case (Cons a list)
  assume "[] \<notin> set P"
  with Cons have "P = drop_done a (drop (Suc 0) P)" "set a \<subseteq> (if 0 < length P then set (P ! 0) else {})"
    by (auto simp: drop_done_def)
  then show ?thesis unfolding suffix_of_def by blast
qed

lemma suffix_of_step:
  assumes "suffix_of P (ph # rest)" and "[] \<notin> set P"
  shows "suffix_of P (drop_done (del i ph) rest)"
proof -
  from assms(1) obtain j q where
    j: "ph # rest = drop_done q (drop (Suc j) P)" "set q \<subseteq> (if j < length P then set (P ! j) else {})"
    by (auto simp: suffix_of_def)
  show ?thesis
  proof (cases "q = []")
    case True
    with j(1) have "drop (Suc j) P = ph # rest" by (simp add: drop_done_def)
    then have "Suc j < length P" "P ! Suc j = ph" "drop (Suc (Suc j)) P = rest"
      by (metis drop_eq_Nil list.distinct(1) not_less, metis hd_drop_conv_nth list.sel(1) drop_eq_Nil list.distinct(1) not_less, metis drop_Suc list.sel(3) tl_drop)
    with set_del [of i ph] show ?thesis unfolding suffix_of_def by (intro exI [of _ "Suc j"] exI) auto
  next
    case False
    with j(1) have "q = ph" "rest = drop (Suc j) P" by (auto simp: drop_done_def)
    with j(2) set_del [of i ph] show ?thesis unfolding suffix_of_def by (intro exI [of _ j] exI) auto
  qed
qed

lemma exec_suffix:
  assumes "exec T f g g'" and "\<And>r. [] \<notin> set (progs g r)"
  shows "suffix_of (progs g r) (progs g' r)"
  using assms(1)
proof (induction rule: rtranclp_induct)
  case base
  show ?case by (rule suffix_of_refl [OF assms(2)])
next
  case (step y z)
  then obtain r' i where "step_at T f r' i y = Some z" by (auto simp: exec_step_def)
  then obtain ph rest where "progs y r' = ph # rest" "progs z = (progs y)(r' := drop_done (del i ph) rest)"
    by (auto elim: step_atE)
  with step.IH suffix_of_step [OF _ assms(2), of r ph rest i] show ?case by (cases "r = r'") auto
qed

lemma suffix_of_subset: "suffix_of P ps \<Longrightarrow> set (concat ps) \<subseteq> set (concat P)"
proof -
  assume "suffix_of P ps"
  then obtain j ph where
    j: "ps = drop_done ph (drop (Suc j) P)" "set ph \<subseteq> (if j < length P then set (P ! j) else {})"
    by (auto simp: suffix_of_def)
  have "set ph \<subseteq> set (concat P)"
    using j(2) by (cases "j < length P") (auto intro!: bexI [of _ "P ! j"])
  with j(1) have "concat ps = ph @ concat (drop (Suc j) P)" "set ph \<subseteq> set (concat P)"
    by (auto simp: concat_drop_done)
  then show ?thesis by (auto dest: in_set_dropD)
qed

text \<open>If an entry of phase \<open>k\<close> is complete, so are the entries of earlier phases.\<close>

lemma suffix_of_order:
  assumes "suffix_of P ps" and "k < length P" and "x \<in> set (P ! k)" and "x \<notin> set (concat ps)"
    and "\<And>i. k \<le> i \<Longrightarrow> i < length P \<Longrightarrow> y \<notin> set (P ! i)"
  shows "y \<notin> set (concat ps)"
proof -
  from assms(1) obtain j ph where
    j: "ps = drop_done ph (drop (Suc j) P)" "set ph \<subseteq> (if j < length P then set (P ! j) else {})"
    by (auto simp: suffix_of_def)
  have "k \<le> j"
  proof (rule ccontr)
    assume "\<not> k \<le> j"
    then have "P ! k \<in> set (drop (Suc j) P)"
      using assms(2) by (auto simp: in_set_conv_nth intro!: exI [of _ "k - Suc j"])
    with assms(3,4) j(1) show False by (auto simp: concat_drop_done)
  qed
  with assms(5) j show ?thesis
    by (auto simp: concat_drop_done in_set_conv_nth [of _ "drop (Suc j) P"] split: if_splits)
qed

section \<open>Given interleavings\<close>

text \<open>Runs the entries named by (rank, index in the rank's first phase), in order.\<close>

fun run_steps ::
    "('n, 'v) transport \<Rightarrow> ('v \<Rightarrow> 'v \<Rightarrow> 'v) \<Rightarrow> (rank \<times> nat) list \<Rightarrow> ('n, 'v) gstate \<Rightarrow> ('n, 'v) gstate option" where
  "run_steps T f [] g = Some g"
| "run_steps T f ((r, i) # xs) g =
     (case step_at T f r i g of None \<Rightarrow> None | Some g' \<Rightarrow> run_steps T f xs g')"

lemma run_steps_exec: "run_steps T f xs g = Some g' \<Longrightarrow> exec T f g g'"
proof (induction T f xs g rule: run_steps.induct)
  case (2 T f r i xs g)
  then obtain g1 where "step_at T f r i g = Some g1" "run_steps T f xs g1 = Some g'"
    by (auto split: option.splits)
  with 2 show ?case
    by (auto simp: exec_step_def intro: converse_rtranclp_into_rtranclp)
qed simp

lemma run_steps_the:
  "run_steps T f xs g \<noteq> None \<Longrightarrow> exec T f g (the (run_steps T f xs g))"
  by (auto intro: run_steps_exec)

end
