(* ===== verification/CollBarrier.thy ===== *)
theory CollBarrier
  imports CollBuild CollOrder
begin

text \<open>
  The dissemination barrier (\<^verbatim>\<open>src/src/coll/algorithms/barrier/barrier.cpp\<close>): its builder, that
  every interleaving of the ranks completes, and that no rank leaves the barrier before every
  rank has entered it.
\<close>

section \<open>The builder\<close>

text \<open>The loop over \<^verbatim>\<open>mask\<close>, which starts at one and is never zero.\<close>

function dissemination_loop :: "nat \<Rightarrow> rank \<Rightarrow> nat \<Rightarrow> builder \<Rightarrow> builder" where
  "dissemination_loop comm_size rank msk s =
     (if 0 < msk \<and> msk < comm_size then
        let dst = (rank + msk) mod comm_size;
            src = (rank + comm_size - msk) mod comm_size;
            s1 = create (Send null_buf 0 1 dst) s;
            s2 = create (Recv null_buf 0 1 src) s1
        in dissemination_loop comm_size rank (2 * msk) (barrier_here s2)
      else s)"
  by pat_completeness auto
termination by (relation "measure (\<lambda>(comm_size, rank, msk, s). comm_size - msk)") auto

declare dissemination_loop.simps [simp del]

definition ccl_coll_build_dissemination_barrier :: "nat \<Rightarrow> rank \<Rightarrow> builder \<Rightarrow> builder" where
  "ccl_coll_build_dissemination_barrier comm_size rank s =
     (if comm_size = 1 then s else dissemination_loop comm_size rank 1 s)"

section \<open>The rounds of the barrier\<close>

definition barrier_round :: "nat \<Rightarrow> nat \<Rightarrow> rank \<Rightarrow> (sched_op \<times> bool) list" where
  "barrier_round n k r =
     [(Send null_buf 0 1 ((r + 2 ^ k) mod n), False), (Recv null_buf 0 1 ((r + n - 2 ^ k) mod n), True)]"

lemma dissemination_loop_ops:
  "k \<le> rounds_of n \<Longrightarrow> ops (dissemination_loop n r (2 ^ k) s) =
     ops s @ concat (map (\<lambda>k. barrier_round n k r) [k..<rounds_of n])"
proof (induction "rounds_of n - k" arbitrary: k s)
  case 0
  then have "\<not> 2 ^ k < n" using rounds_of_less [of k n] by simp
  then show ?case using 0 by (simp add: dissemination_loop.simps)
next
  case (Suc d)
  then have k: "k < rounds_of n" by simp
  then have lt: "2 ^ k < n" by (simp add: rounds_of_less)
  let ?s = "barrier_here (create (Recv null_buf 0 1 ((r + n - 2 ^ k) mod n)) (create (Send null_buf 0 1 ((r + 2 ^ k) mod n)) s))"
  have "dissemination_loop n r (2 ^ k) s = dissemination_loop n r (2 ^ Suc k) ?s"
    using lt by (subst dissemination_loop.simps) (simp add: Let_def)
  moreover have "ops (dissemination_loop n r (2 ^ Suc k) ?s) =
      ops ?s @ concat (map (\<lambda>k. barrier_round n k r) [Suc k..<rounds_of n])"
    by (rule Suc.hyps(1)) (use Suc k in auto)
  ultimately show ?case by (simp add: upt_conv_Cons [OF k] barrier_round_def)
qed

definition barrier_entries :: "nat \<Rightarrow> rank \<Rightarrow> (sched_op \<times> bool) list" where
  "barrier_entries n r = ops (ccl_coll_build_dissemination_barrier n r (new_builder 1))"

lemma barrier_entries_rounds:
  "0 < n \<Longrightarrow> barrier_entries n r = concat (map (\<lambda>k. barrier_round n k r) [0..<rounds_of n])"
proof (cases "n = 1")
  case True
  then have "rounds_of n = 0" using rounds_of_less [of 0 n] by simp
  with True show ?thesis by (simp add: barrier_entries_def ccl_coll_build_dissemination_barrier_def new_builder_def)
next
  case False
  with dissemination_loop_ops [of 0 n r "new_builder 1"] show ?thesis
    by (simp add: barrier_entries_def ccl_coll_build_dissemination_barrier_def new_builder_def)
qed

section \<open>The barrier completes\<close>

definition barrier_seg :: "nat \<Rightarrow> nat \<Rightarrow> rank \<Rightarrow> sched_op list" where
  "barrier_seg n k r = (if r < n then map fst (barrier_round n k r) else [])"

lemma barrier_comm_round:
  assumes "2 ^ k < n"
  shows "comm_round n (barrier_seg n k)"
  by (rule comm_roundI [where P = "\<lambda>s d. s < n \<and> d < n \<and> d = (s + 2 ^ k) mod n"
        and SX = "\<lambda>s d. Send null_buf 0 1 d" and RX = "\<lambda>s d. Recv null_buf 0 1 s"])
    (use assms mod_shift [of _ n "2 ^ k"] mod_shift' [of _ n "2 ^ k"] in
      \<open>auto simp: barrier_seg_def barrier_round_def sends_to_def recvs_from_def is_local_def msg_fits_def\<close>)

lemma barrier_safe:
  "0 < n \<Longrightarrow> ph \<in> set (phases (barrier_entries n r)) \<Longrightarrow> safe_phase ph"
  by (auto simp: barrier_entries_rounds phases_barriers one_phase_def ends_barrier_def barrier_round_def
      safe_phase_def op_size_ok_def ops_disj_def rngs_disj_def rng_disj_def)

section \<open>The barrier synchronises\<close>

lemma barrier_phases:
  "0 < n \<Longrightarrow> phases (barrier_entries n r) = map (\<lambda>k. map fst (barrier_round n k r)) [0..<rounds_of n]"
  by (simp add: barrier_entries_rounds phases_barriers one_phase_def ends_barrier_def barrier_round_def comp_def)

definition fired :: "('n, 'v) gstate \<Rightarrow> rank \<Rightarrow> sched_op \<Rightarrow> bool" where
  "fired g r x \<longleftrightarrow> x \<notin> set (concat (progs g r))"

abbreviation sendk :: "nat \<Rightarrow> rank \<Rightarrow> nat \<Rightarrow> sched_op" where
  "sendk n r k \<equiv> Send null_buf 0 1 ((r + 2 ^ k) mod n)"

abbreviation recvk :: "nat \<Rightarrow> rank \<Rightarrow> nat \<Rightarrow> sched_op" where
  "recvk n r k \<equiv> Recv null_buf 0 1 ((r + n - 2 ^ k) mod n)"

lemma barrier_order:
  assumes "exec T f (coll_start T n (barrier_entries n) M) g" and "r < n" and "k < rounds_of n"
    and "fired g r (sendk n r k)" and "j < k"
  shows "fired g r (recvk n r j)" and "fired g r (sendk n r j)"
proof -
  let ?P = "phases (barrier_entries n r)"
  have n: "0 < n" using assms(2) by simp
  have P: "progs (coll_start T n (barrier_entries n) M) r = ?P" using assms(2) by (simp add: coll_start_def)
  have suf: "suffix_of ?P (progs g r)"
    using exec_suffix [OF assms(1), of r] by (simp add: P) (simp add: coll_start_def phases_nonempty)
  have len: "length ?P = rounds_of n" by (simp add: barrier_phases [OF n])
  have nth: "i < rounds_of n \<Longrightarrow> ?P ! i = [sendk n r i, recvk n r i]" for i
    by (simp add: barrier_phases [OF n] barrier_round_def)
  have lt: "i < rounds_of n \<Longrightarrow> 2 ^ i < n" for i by (simp add: rounds_of_less)
  have ne: "(2::nat) ^ i \<noteq> 2 ^ j" if "k \<le> i" for i using that assms(5) by simp
  have "recvk n r j \<notin> set (?P ! i)" if "k \<le> i" "i < rounds_of n" for i
  proof
    assume "recvk n r j \<in> set (?P ! i)"
    then have "(r + n - 2 ^ j) mod n = (r + n - 2 ^ i) mod n" using that by (simp add: nth)
    then have "(r + (n - 2 ^ j)) mod n = (r + (n - 2 ^ i)) mod n"
      using lt [OF that(2)] lt [of j] that assms(3,5) by simp
    with shift_inj [of "n - 2 ^ j" n "n - 2 ^ i" r] have "n - 2 ^ j = n - 2 ^ i" using n by simp
    moreover have "2 ^ i < n" "2 ^ j < n" using lt [OF that(2)] lt [of j] that assms(3,5) by auto
    ultimately have "(2::nat) ^ j = 2 ^ i" by linarith
    with ne [OF that(1)] show False by simp
  qed
  note r = this
  have snd: "sendk n r j \<notin> set (?P ! i)" if "k \<le> i" "i < rounds_of n" for i
  proof
    assume "sendk n r j \<in> set (?P ! i)"
    then have "(r + 2 ^ j) mod n = (r + 2 ^ i) mod n" using that by (simp add: nth)
    with shift_inj [of "2 ^ j" n "2 ^ i" r] lt [OF that(2)] lt [of j] that assms(3,5)
    have "(2::nat) ^ j = 2 ^ i" by simp
    with ne [OF that(1)] show False by simp
  qed
  have k: "k < length ?P" "sendk n r k \<in> set (?P ! k)" "sendk n r k \<notin> set (concat (progs g r))"
    using assms(3,4) by (simp_all add: len nth fired_def)
  show "fired g r (recvk n r j)"
    unfolding fired_def by (rule suffix_of_order [OF suf k]) (use r in \<open>simp add: len\<close>)
  show "fired g r (sendk n r j)"
    unfolding fired_def by (rule suffix_of_order [OF suf k]) (use snd in \<open>simp add: len\<close>)
qed

lemma length_filter_concat: "length (filter P (concat xss)) = sum_list (map (\<lambda>xs. length (filter P xs)) xss)"
  by (induction xss) auto

lemma barrier_sends_recvs:
  assumes "s < n" and "d < n"
  shows "length (filter (\<lambda>x. send_dst x = Some d) (concat (phases (barrier_entries n s)))) =
    length (filter (\<lambda>x. recv_src x = Some s) (concat (phases (barrier_entries n d))))"
proof -
  have n: "0 < n" using assms(1) by simp
  have *: "k < rounds_of n \<Longrightarrow> length (filter (\<lambda>x. send_dst x = Some d) (map fst (barrier_round n k s))) =
      length (filter (\<lambda>x. recv_src x = Some s) (map fst (barrier_round n k d)))" for k
  proof -
    assume "k < rounds_of n"
    then have "2 ^ k \<le> n" by (simp add: rounds_of_less)
    from mod_shift_iff [OF assms this] have "(s + 2 ^ k) mod n = d \<longleftrightarrow> (d + n - 2 ^ k) mod n = s"
      by (metis (no_types))
    then show ?thesis by (simp add: barrier_round_def)
  qed
  have "map (\<lambda>k. length (filter (\<lambda>x. send_dst x = Some d) (map fst (barrier_round n k s)))) [0..<rounds_of n] =
    map (\<lambda>k. length (filter (\<lambda>x. recv_src x = Some s) (map fst (barrier_round n k d)))) [0..<rounds_of n]"
    using * by auto
  then show ?thesis unfolding length_filter_concat barrier_phases [OF n] map_map comp_def by (rule arg_cong)
qed

lemma barrier_heard:
  assumes "fifo_transport T" and "exec T f (coll_start T n (barrier_entries n) M) g" and "r < n"
    and "k < rounds_of n" and "fired g r (recvk n r k)"
  shows "fired g ((r + n - 2 ^ k) mod n) (sendk n ((r + n - 2 ^ k) mod n) k)"
proof -
  let ?s = "(r + n - 2 ^ k) mod n" and ?g = "coll_start T n (barrier_entries n) M"
  have n: "0 < n" "?s < n" using assms(3) by auto
  have "sends_left ?g ?s r = recvs_left ?g r ?s"
    using barrier_sends_recvs [OF n(2) assms(3)] n assms(3)
    by (simp add: sends_left_def recvs_left_def coll_start_def)
  moreover have "tr_pending T (net ?g) (?s, r) = []"
    by (simp add: coll_start_def fifo_transport.idle [OF assms(1)])
  ultimately have left: "sends_left g ?s r \<le> recvs_left g r ?s"
    using fifo_transport.exec_conserves [OF assms(1,2), of ?s r] by simp
  have "suffix_of (progs ?g r) (progs g r)"
    by (rule exec_suffix [OF assms(2)]) (simp add: coll_start_def phases_nonempty)
  from suffix_of_subset [OF this] have "\<forall>x \<in> set (concat (progs g r)). recv_src x = Some ?s \<longrightarrow> x = recvk n r k"
    using assms(3) by (auto simp: coll_start_def barrier_phases [OF n(1)] barrier_round_def)
  with assms(5) have "recvs_left g r ?s = 0" by (auto simp: recvs_left_def fired_def filter_empty_conv)
  with left have "\<forall>x \<in> set (concat (progs g ?s)). send_dst x \<noteq> Some r"
    by (simp add: sends_left_def filter_empty_conv)
  moreover have "(?s + 2 ^ k) mod n = r"
    using mod_shift [of r n "2 ^ k"] assms(3,4) by (simp add: rounds_of_less)
  ultimately show ?thesis unfolding fired_def by (metis send_dst.simps(1))
qed

lemma barrier_spread:
  assumes "fifo_transport T" and "exec T f (coll_start T n (barrier_entries n) M) g"
  shows "m \<le> rounds_of n \<Longrightarrow> r < n \<Longrightarrow> \<forall>j < m. fired g r (recvk n r j) \<Longrightarrow> 0 < d \<Longrightarrow> d < 2 ^ m \<Longrightarrow> d < n \<Longrightarrow>
    fired g ((r + n - d) mod n) (sendk n ((r + n - d) mod n) 0)"
proof (induction m arbitrary: r d)
  case (Suc m)
  show ?case
  proof (cases "d < 2 ^ m")
    case True
    with Suc show ?thesis by (intro Suc.IH) auto
  next
    case False
    let ?q = "(r + n - 2 ^ m) mod n"
    from Suc.prems have m: "m < rounds_of n" "?q < n" by auto
    from m(1) have lt: "2 ^ m < n" by (simp add: rounds_of_less)
    have sq: "fired g ?q (sendk n ?q m)"
      by (rule barrier_heard [OF assms Suc.prems(2) m(1)]) (use Suc.prems(3) in simp)
    have s0: "fired g ?q (sendk n ?q 0)"
      using sq barrier_order(2) [OF assms(2) m(2,1) sq, of 0] by (cases m) auto
    have eq: "(?q + n - (d - 2 ^ m)) mod n = (r + n - d) mod n"
    proof -
      have "(?q + n - (d - 2 ^ m)) mod n = (?q + (n - (d - 2 ^ m))) mod n" using Suc.prems(6) by simp
      also have "\<dots> = (r + n - 2 ^ m + (n - (d - 2 ^ m))) mod n" by (rule mod_add_left_eq)
      also have "r + n - 2 ^ m + (n - (d - 2 ^ m)) = (r + n - d) + n" using False Suc.prems(6) lt by simp
      finally show ?thesis by simp
    qed
    show ?thesis
    proof (cases "d = 2 ^ m")
      case True
      with s0 show ?thesis by simp
    next
      case ne: False
      have "fired g ((?q + n - (d - 2 ^ m)) mod n) (sendk n ((?q + n - (d - 2 ^ m)) mod n) 0)"
      proof (rule Suc.IH)
        show "\<forall>j < m. fired g ?q (recvk n ?q j)"
          using barrier_order(1) [OF assms(2) m(2,1) sq] by blast
      qed (use Suc.prems m lt False ne in auto)
      then show ?thesis by (simp only: eq)
    qed
  qed
qed simp

text \<open>C19: every interleaving of the ranks through the barrier completes.\<close>

theorem dissemination_barrier_completes:
  assumes "fifo_transport T" and "0 < n"
  shows "coll_correct T f (coll_start T n (barrier_entries n) M) (\<lambda>M'. M' = M)"
proof (rule fifo_transport.rounds_invariant [OF assms(1), where E = "barrier_round n"
      and seg = "barrier_seg n" and K = "rounds_of n" and I = "\<lambda>_ M'. M' = M"])
  show "race_free f (coll_start T n (barrier_entries n) M)"
    by (rule race_free_start) (rule barrier_safe [OF assms(2)])
  show "round_mem f (barrier_seg n k) M' = M" if "M' = M" for k M'
    using that by (auto simp: round_mem_def barrier_seg_def barrier_round_def write_cells_def in_cells_def
        recv_vals_def inbox_def sends_to_def intro!: ext)
qed (use assms(2) in \<open>auto simp: barrier_entries_rounds barrier_seg_def barrier_round_def one_phase_def
      is_round_def rounds_of_less barrier_comm_round\<close>)

text \<open>
  C9: when some rank has left the barrier, every rank has entered it: at least one of
  its entries is complete.
\<close>

theorem dissemination_barrier_synchronises:
  assumes "fifo_transport T" and "2 \<le> n" and "exec T f (coll_start T n (barrier_entries n) M) g"
    and "r < n" and "progs g r = []" and "s < n"
  shows "progs g s \<noteq> phases (barrier_entries n s)"
proof -
  let ?d = "(r + n - s) mod n"
  have K: "0 < rounds_of n" using assms(2) by (simp add: rounds_of_less)
  have s: "(r + n - ?d) mod n = s" by (rule mod_shift_diff [OF assms(4,6)])
  have "fired g s (sendk n s 0)"
  proof (cases "?d = 0")
    case True
    with s assms(4) have "s = r" by simp
    with assms(5) show ?thesis by (simp add: fired_def)
  next
    case False
    have "fired g ((r + n - ?d) mod n) (sendk n ((r + n - ?d) mod n) 0)"
    proof (rule barrier_spread [OF assms(1,3) order_refl assms(4)])
      show "?d < 2 ^ rounds_of n" "?d < n"
        using rounds_of_le [of n] assms(2) mod_less_divisor [of n "r + n - s"] by linarith+
    qed (use False assms(5) in \<open>auto simp: fired_def\<close>)
    then show ?thesis by (simp only: s)
  qed
  moreover have "sendk n s 0 \<in> set (concat (phases (barrier_entries n s)))"
    using K assms(2) by (auto simp: barrier_phases barrier_round_def intro!: bexI [of _ 0])
  ultimately show ?thesis by (auto simp: fired_def)
qed

lemma dissemination_barrier_completes_witness:
  "fifo_transport (queue_transport :: (rank \<times> rank \<Rightarrow> nat msg list, nat) transport) \<and>
   coll_correct queue_transport (+) (coll_start queue_transport 5 (barrier_entries 5) (\<lambda>_ _. 0))
     (\<lambda>M'. M' = (\<lambda>_ _. 0 :: nat))"
  using dissemination_barrier_completes [OF queues.fifo_transport_axioms, of 5 "(+)" "\<lambda>_ _. 0 :: nat"]
    queues.fifo_transport_axioms by simp

definition barrier_example :: "(rank \<times> rank \<Rightarrow> nat msg list, nat) gstate option" where
  "barrier_example = run_steps queue_transport (+) [(1, 0), (0, 0), (0, 0)]
     (coll_start queue_transport 2 (barrier_entries 2) (\<lambda>_ _. 0))"

lemma barrier_example_run:
  "barrier_example \<noteq> None \<and> progs (the barrier_example) 0 = [] \<and> progs (the barrier_example) 1 \<noteq> []"
  by code_simp

lemma barrier_example_exec:
  "exec queue_transport (+) (coll_start queue_transport 2 (barrier_entries 2) (\<lambda>_ _. 0)) (the barrier_example)"
  using run_steps_the barrier_example_run unfolding barrier_example_def by blast

lemma dissemination_barrier_synchronises_witness:
  "progs (the barrier_example) 0 = [] \<and> progs (the barrier_example) 1 \<noteq> phases (barrier_entries 2 1)"
  using dissemination_barrier_synchronises
    [OF queues.fifo_transport_axioms order_refl barrier_example_exec, of 0 1] barrier_example_run by simp

end
