(* ===== verification/CollBcast.thy ===== *)
theory CollBcast
  imports CollBuild CollOrder "HOL-Library.Signed_Division"
begin

text \<open>
  Broadcast (\<^verbatim>\<open>src/src/coll/algorithms/broadcast/bcast.cpp\<close>): the naive algorithm, and the binomial
  scatter followed by a ring allgather. Sizes in bytes are \<^verbatim>\<open>int\<close> in the second one: \<open>int32\<close> is the
  conversion of a \<^verbatim>\<open>size_t\<close> to it and \<open>to_size_t\<close> the conversion back. The remaining arithmetic on \<^verbatim>\<open>int\<close> is exact here, which is what
  the code computes as long as the byte count plus the size of the communicator fits an \<^verbatim>\<open>int\<close>.
\<close>

unbundle bit_operations_syntax

section \<open>Naive broadcast\<close>

definition ccl_coll_build_naive_bcast ::
    "loc \<Rightarrow> nat \<Rightarrow> nat \<Rightarrow> rank \<Rightarrow> nat \<Rightarrow> rank \<Rightarrow> builder \<Rightarrow> builder" where
  "ccl_coll_build_naive_bcast buf cnt ds root comm_size rank s =
     (if comm_size = 1 then s
      else if rank = root then
        fold (\<lambda>idx s. if idx \<noteq> rank then create (Send buf cnt ds idx) s else s) [0..<comm_size] s
      else create (Recv buf cnt ds root) s)"

section \<open>Scatter and ring allgather\<close>

text \<open>The loop up to the lowest set bit of the relative rank, with the receive from the parent.\<close>

function scatter_recv_loop ::
    "loc \<Rightarrow> int \<Rightarrow> int \<Rightarrow> nat \<Rightarrow> rank \<Rightarrow> nat \<Rightarrow> nat \<Rightarrow> int \<Rightarrow> builder \<Rightarrow> nat \<times> int \<times> builder" where
  "scatter_recv_loop tmp_buf nbytes scatter_size comm_size rank relative_rank msk curr_size s =
     (if 0 < msk \<and> msk < comm_size then
        if relative_rank AND msk \<noteq> 0 then
          let src = (if rank < msk then rank + comm_size - msk else rank - msk);
              recv_size = max 0 (int32 (nbytes - int relative_rank * scatter_size));
              s1 = (if recv_size > 0
                    then barrier_here (create (Recv (loc_add tmp_buf (nat (int relative_rank * scatter_size)))
                                                    (nat recv_size) 1 src) s)
                    else s)
          in (msk, recv_size, s1)
        else scatter_recv_loop tmp_buf nbytes scatter_size comm_size rank relative_rank (2 * msk) curr_size s
      else (msk, curr_size, s))"
  by pat_completeness auto
termination
  by (relation "measure (\<lambda>(tmp_buf, nbytes, scatter_size, comm_size, rank, relative_rank, msk, curr_size, s).
      comm_size - msk)") auto

text \<open>The loop down from the mask, with the sends to the children.\<close>

function scatter_send_loop ::
    "loc \<Rightarrow> int \<Rightarrow> nat \<Rightarrow> rank \<Rightarrow> nat \<Rightarrow> nat \<Rightarrow> int \<Rightarrow> builder \<Rightarrow> builder" where
  "scatter_send_loop tmp_buf scatter_size comm_size rank relative_rank msk curr_size s =
     (if 0 < msk then
        let send_size = curr_size - scatter_size * int msk
        in if relative_rank + msk < comm_size \<and> send_size > 0 then
             let dst = (if rank + msk \<ge> comm_size then rank + msk - comm_size else rank + msk);
                 s1 = barrier_here (create (Send (loc_add tmp_buf (nat (scatter_size * int (relative_rank + msk))))
                                                 (nat send_size) 1 dst) s)
             in scatter_send_loop tmp_buf scatter_size comm_size rank relative_rank (msk div 2)
                  (curr_size - send_size) s1
           else scatter_send_loop tmp_buf scatter_size comm_size rank relative_rank (msk div 2) curr_size s
      else s)"
  by pat_completeness auto
termination
  by (relation "measure (\<lambda>(tmp_buf, scatter_size, comm_size, rank, relative_rank, msk, curr_size, s). msk)") auto

declare scatter_recv_loop.simps [simp del]
declare scatter_send_loop.simps [simp del]

definition rel_rank :: "nat \<Rightarrow> rank \<Rightarrow> rank \<Rightarrow> nat" where
  "rel_rank comm_size root rank = (if root \<le> rank then rank - root else rank + comm_size - root)"

definition ccl_coll_build_scatter_for_bcast ::
    "loc \<Rightarrow> rank \<Rightarrow> int \<Rightarrow> nat \<Rightarrow> rank \<Rightarrow> builder \<Rightarrow> builder" where
  "ccl_coll_build_scatter_for_bcast tmp_buf root nbytes comm_size rank s =
     (let relative_rank = rel_rank comm_size root rank;
          scatter_size = int32 (to_size_t (nbytes + int comm_size - 1) div int comm_size);
          curr_size = (if rank = root then int32 nbytes else 0);
          (msk, curr_size, s) =
            scatter_recv_loop tmp_buf nbytes scatter_size comm_size rank relative_rank 1 curr_size s
      in scatter_send_loop tmp_buf scatter_size comm_size rank relative_rank (msk div 2) curr_size s)"

text \<open>
  The ring: \<open>i\<close> counts up to the size, \<open>j\<close> is the block to send and \<open>jnext\<close> the one to receive.
\<close>

definition bcast_ring_body ::
    "loc \<Rightarrow> int \<Rightarrow> int \<Rightarrow> rank \<Rightarrow> nat \<Rightarrow> rank \<Rightarrow> nat \<Rightarrow> nat \<Rightarrow> builder \<Rightarrow> builder" where
  "bcast_ring_body tmp_buf nbytes scatter_size root comm_size rank j jnext s =
     (let left = (comm_size + rank - 1) mod comm_size;
          right = (rank + 1) mod comm_size;
          rel_j = (j + comm_size - root) mod comm_size;
          rel_jnext = (jnext + comm_size - root) mod comm_size;
          left_count = max 0 (min scatter_size (nbytes - int rel_jnext * scatter_size));
          left_disp = int rel_jnext * scatter_size;
          right_count = max 0 (min scatter_size (nbytes - int rel_j * scatter_size));
          right_disp = int rel_j * scatter_size;
          s1 = create (Send (loc_add tmp_buf (nat right_disp)) (nat right_count) 1 right) s;
          s2 = create (Recv (loc_add tmp_buf (nat left_disp)) (nat left_count) 1 left) s1
      in barrier_here s2)"

function bcast_ring_loop ::
    "loc \<Rightarrow> int \<Rightarrow> int \<Rightarrow> rank \<Rightarrow> nat \<Rightarrow> rank \<Rightarrow> nat \<Rightarrow> nat \<Rightarrow> nat \<Rightarrow> builder \<Rightarrow> builder" where
  "bcast_ring_loop tmp_buf nbytes scatter_size root comm_size rank i j jnext s =
     (if i < comm_size then
        bcast_ring_loop tmp_buf nbytes scatter_size root comm_size rank (Suc i)
          jnext ((comm_size + jnext - 1) mod comm_size)
          (bcast_ring_body tmp_buf nbytes scatter_size root comm_size rank j jnext s)
      else s)"
  by pat_completeness auto
termination
  by (relation "measure (\<lambda>(tmp_buf, nbytes, scatter_size, root, comm_size, rank, i, j, jnext, s). comm_size - i)") auto

declare bcast_ring_loop.simps [simp del]

definition ccl_coll_build_scatter_ring_allgather_bcast ::
    "loc \<Rightarrow> nat \<Rightarrow> nat \<Rightarrow> rank \<Rightarrow> nat \<Rightarrow> rank \<Rightarrow> builder \<Rightarrow> builder" where
  "ccl_coll_build_scatter_ring_allgather_bcast buf cnt dtype_size root comm_size rank s =
     (if comm_size = 1 then s
      else
        let nbytes = int32 (int dtype_size * int cnt);
            s1 = ccl_coll_build_scatter_for_bcast buf root (to_size_t nbytes) comm_size rank s;
            scatter_size = (nbytes + int comm_size - 1) sdiv int comm_size;
            left = (comm_size + rank - 1) mod comm_size
        in bcast_ring_loop buf nbytes scatter_size root comm_size rank 1 rank left s1)"

section \<open>Naive broadcast: correctness\<close>

definition naive_bcast_entries :: "loc \<Rightarrow> nat \<Rightarrow> nat \<Rightarrow> rank \<Rightarrow> nat \<Rightarrow> rank \<Rightarrow> (sched_op \<times> bool) list" where
  "naive_bcast_entries buf cnt ds root n r = ops (ccl_coll_build_naive_bcast buf cnt ds root n r (new_builder 1))"

definition naive_bcast_seg :: "loc \<Rightarrow> nat \<Rightarrow> nat \<Rightarrow> rank \<Rightarrow> nat \<Rightarrow> nat \<Rightarrow> rank \<Rightarrow> sched_op list" where
  "naive_bcast_seg buf cnt ds root n k r =
     (if n = 1 \<or> n \<le> r then []
      else if r = root then map (Send buf cnt ds) (filter (\<lambda>i. i \<noteq> root) [0..<n])
      else [Recv buf cnt ds root])"

lemma fold_create_if:
  "ops (fold (\<lambda>i s. if P i then create (h i) s else s) xs s) = ops s @ map (\<lambda>i. (h i, False)) (filter P xs)"
  by (induction xs arbitrary: s) auto

lemma naive_bcast_entries_eq:
  "r < n \<Longrightarrow> naive_bcast_entries buf cnt ds root n r = map (\<lambda>x. (x, False)) (naive_bcast_seg buf cnt ds root n 0 r)"
  by (simp add: naive_bcast_entries_def ccl_coll_build_naive_bcast_def naive_bcast_seg_def fold_create_if new_builder_def)

lemma naive_bcast_sends:
  "root < n \<Longrightarrow> sends_to (naive_bcast_seg buf cnt ds root n k) s d =
     (if s = root \<and> d < n \<and> d \<noteq> root then [Send buf cnt ds d] else [])"
  by (auto simp: sends_to_def naive_bcast_seg_def sends_to_all)

lemma naive_bcast_comm_round:
  assumes "root < n"
  shows "comm_round n (naive_bcast_seg buf cnt ds root n k)"
  by (rule comm_roundI [where P = "\<lambda>s d. s = root \<and> d < n \<and> d \<noteq> root"
        and SX = "\<lambda>s d. Send buf cnt ds d" and RX = "\<lambda>s d. Recv buf cnt ds root"])
    (use assms naive_bcast_sends [OF assms] in
      \<open>auto simp: naive_bcast_seg_def recvs_from_def is_local_def msg_fits_def split: if_splits\<close>)

lemma naive_bcast_safe:
  "r < n \<Longrightarrow> 0 < ds \<Longrightarrow> ph \<in> set (phases (naive_bcast_entries buf cnt ds root n r)) \<Longrightarrow> safe_phase ph"
  by (auto simp: naive_bcast_entries_eq phases_no_barrier naive_bcast_seg_def safe_phase_def op_size_ok_def
      ops_disj_def rngs_disj_def intro!: sorted_wrt_all split: if_splits)

text \<open>
  C20: the naive broadcast leaves the root's elements in the buffer of every rank, and changes
  nothing else.
\<close>

theorem naive_bcast_correct:
  assumes "fifo_transport T" and "root < n" and "0 < ds"
  shows "coll_correct T f (coll_start T n (naive_bcast_entries buf cnt ds root n) M)
    (\<lambda>M'. \<forall>r. M' r = (if r < n \<and> r \<noteq> root
                       then write_cells (M r) buf ds (read_cells (M root) buf cnt ds) else M r))"
proof (rule fifo_transport.rounds_correct [OF assms(1), where K = 1 and
      E = "\<lambda>k r. map (\<lambda>x. (x, False)) (naive_bcast_seg buf cnt ds root n k r)" and
      seg = "naive_bcast_seg buf cnt ds root n"])
  show "race_free f (coll_start T n (naive_bcast_entries buf cnt ds root n) M)"
    by (rule race_free_start) (rule naive_bcast_safe [OF _ assms(3)])
  have inb: "inbox (naive_bcast_seg buf cnt ds root n k) M s d =
      (if s = root \<and> d < n \<and> d \<noteq> root then read_cells (M root) buf cnt ds else [])" for k s d
    by (auto simp: inbox_def naive_bcast_sends [OF assms(2)])
  show "\<forall>r. rounds_mem f (naive_bcast_seg buf cnt ds root n) 1 M r = (if r < n \<and> r \<noteq> root
      then write_cells (M r) buf ds (read_cells (M root) buf cnt ds) else M r)"
  proof (intro allI)
    fix r
    show "rounds_mem f (naive_bcast_seg buf cnt ds root n) 1 M r = (if r < n \<and> r \<noteq> root
        then write_cells (M r) buf ds (read_cells (M root) buf cnt ds) else M r)"
      using assms(2) by (cases "r = root") (auto simp: round_mem_def recv_vals_def inb naive_bcast_seg_def fold_sends)
  qed
qed (use assms in \<open>auto simp: naive_bcast_entries_eq one_phase_def is_round_def naive_bcast_comm_round
      comp_def dest: in_set_butlastD\<close>)

lemma naive_bcast_correct_witness:
  "coll_correct queue_transport (+) (coll_start queue_transport 3 (naive_bcast_entries (1, 0) 2 4 1 3) (\<lambda>r a. r))
    (\<lambda>M'. \<forall>r. M' r = (if r < 3 \<and> r \<noteq> 1
                       then write_cells (\<lambda>a. r) (1, 0) 4 (read_cells (\<lambda>a. 1) (1, 0) 2 4) else (\<lambda>a. r)))"
  using naive_bcast_correct [OF queues.fifo_transport_axioms, of 1 3 4 "(+)" "(1, 0)" 2 "\<lambda>r a. r"] by simp

section \<open>The entries of scatter and ring\<close>

text \<open>
  Byte counts that fit: every intermediate value of the builder is then the exact one, and the
  block size is the ceiling of the byte count over the number of ranks.
\<close>

definition bytes_fit :: "nat \<Rightarrow> nat \<Rightarrow> bool" where
  "bytes_fit n nb \<longleftrightarrow> 2 \<le> n \<and> nb + n < 2 ^ 31"

definition blk :: "nat \<Rightarrow> nat \<Rightarrow> nat" where
  "blk n nb = (nb + n - 1) div n"

lemma blk_cover: "0 < n \<Longrightarrow> nb \<le> n * blk n nb"
proof -
  assume n: "0 < n"
  have "nb + n - 1 < n * Suc ((nb + n - 1) div n)" using n by (simp add: dividend_less_times_div)
  then show ?thesis using n by (simp add: blk_def)
qed

lemma blk_bound: "0 < n \<Longrightarrow> p \<le> n \<Longrightarrow> p * blk n nb \<le> nb + n - 1"
proof -
  assume "0 < n" "p \<le> n"
  then have "p * blk n nb \<le> n * blk n nb" by simp
  also have "\<dots> \<le> nb + n - 1" by (simp add: blk_def)
  finally show ?thesis .
qed

lemma fit_values:
  assumes "bytes_fit n nb"
  shows "int32 (int nb) = int nb" and "to_size_t (int nb) = int nb"
    and "int32 (to_size_t (int nb + int n - 1) div int n) = int (blk n nb)"
    and "(int nb + int n - 1) sdiv int n = int (blk n nb)"
    and "p \<le> n \<Longrightarrow> int32 (int nb - int p * int (blk n nb)) = int nb - int p * int (blk n nb)"
proof -
  have n: "2 \<le> n" "nb + n < 2 ^ 31" using assms by (auto simp: bytes_fit_def)
  have i: "int nb + int n < 2 ^ 31" using n(2) by simp
  show "int32 (int nb) = int nb" "to_size_t (int nb) = int nb"
    using i by (auto intro!: int32_id to_size_t_id)
  have e: "int nb + int n - 1 = int (nb + n - 1)" using n by simp
  have b: "int (blk n nb) < 2 ^ 31"
    using blk_bound [of n 1 nb] n i by simp
  have d: "int (nb + n - 1) div int n = int (blk n nb)" by (simp add: blk_def zdiv_int)
  have "to_size_t (int nb + int n - 1) = int nb + int n - 1"
    by (rule to_size_t_id) (use n i in auto)
  moreover have "int32 (int (blk n nb)) = int (blk n nb)" using b by (intro int32_id) auto
  ultimately show "int32 (to_size_t (int nb + int n - 1) div int n) = int (blk n nb)"
    by (simp only: e d)
  have "int (nb + n - 1) sdiv int n = int (nb + n - 1) div int n" using n by (simp add: signed_divide_int_def sgn_if)
  then show "(int nb + int n - 1) sdiv int n = int (blk n nb)" by (simp only: e d)
  show "int32 (int nb - int p * int (blk n nb)) = int nb - int p * int (blk n nb)" if "p \<le> n"
  proof (rule int32_id)
    have "p * blk n nb \<le> nb + n - 1" by (rule blk_bound) (use n that in auto)
    then have "int p * int (blk n nb) \<le> int (nb + n - 1)" by (metis of_nat_le_iff of_nat_mult)
    then show "- (2 ^ 31) \<le> int nb - int p * int (blk n nb)" using i n by simp
    have "0 \<le> int p * int (blk n nb)" by simp
    then show "int nb - int p * int (blk n nb) < 2 ^ 31" using i by linarith
  qed
qed

lemma rel_rank_mod: "root < n \<Longrightarrow> r < n \<Longrightarrow> rel_rank n root r = (r + n - root) mod n"
  by (auto simp: rel_rank_def mod_if)

text \<open>The amount of data a rank counts on when it comes to the mask \<open>2 ^ k\<close>, and the entries for it.\<close>

definition cur_size :: "nat \<Rightarrow> nat \<Rightarrow> nat \<Rightarrow> nat \<Rightarrow> nat" where
  "cur_size n nb k p =
     (if 2 ^ (k + 2) dvd p then min (nb - p * blk n nb) (blk n nb * 2 ^ (k + 1)) else nb - p * blk n nb)"

definition scatter_round :: "loc \<Rightarrow> nat \<Rightarrow> rank \<Rightarrow> nat \<Rightarrow> nat \<Rightarrow> rank \<Rightarrow> (sched_op \<times> bool) list" where
  "scatter_round buf nb root n k r =
     (let p = rel_rank n root r; b = blk n nb in
      if 2 ^ k dvd p \<and> \<not> 2 ^ (k + 1) dvd p then
        (if p * b < nb then [(Recv (loc_add buf (p * b)) (nb - p * b) 1 ((r + n - 2 ^ k) mod n), True)] else [])
      else if 2 ^ (k + 1) dvd p \<and> p + 2 ^ k < n \<and> b * 2 ^ k < cur_size n nb k p then
        [(Send (loc_add buf (b * (p + 2 ^ k))) (cur_size n nb k p - b * 2 ^ k) 1 ((r + 2 ^ k) mod n), True)]
      else [])"

lemma cur_size_next:
  assumes "0 < n" and "2 ^ (k + 2) dvd p"
  shows "cur_size n nb k p = (if p + 2 ^ (k + 1) < n \<and> blk n nb * 2 ^ (k + 1) < cur_size n nb (k + 1) p
    then blk n nb * 2 ^ (k + 1) else cur_size n nb (k + 1) p)"
proof -
  let ?b = "blk n nb" and ?m = "(2::nat) ^ (k + 1)"
  have "nb - p * ?b \<le> ?b * ?m" if "n \<le> p + ?m"
  proof -
    have "nb \<le> n * ?b" by (rule blk_cover [OF assms(1)])
    also have "\<dots> \<le> (p + ?m) * ?b" using that by simp
    finally show ?thesis by (simp add: algebra_simps)
  qed
  moreover have "?b * ?m \<le> ?b * 2 ^ (k + 2)" by simp
  ultimately show ?thesis using assms(2) by (auto simp: cur_size_def min_def not_less)
qed

lemma scatter_send_loop_ops:
  assumes "bytes_fit n nb" and "root < n" and "r < n" and "p = rel_rank n root r"
  shows "2 ^ k dvd p \<Longrightarrow> k \<le> rounds_of n \<Longrightarrow> (0 < k \<longrightarrow> c = int (cur_size n nb (k - 1) p)) \<Longrightarrow>
    ops (scatter_send_loop buf (int (blk n nb)) n r p (2 ^ k div 2) c s) =
    ops s @ concat (map (\<lambda>k. scatter_round buf nb root n k r) (rev [0..<k]))"
proof (induction k arbitrary: c s)
  case 0
  then show ?case by (simp add: scatter_send_loop.simps)
next
  case (Suc k)
  let ?b = "blk n nb"
  let ?c = "cur_size n nb k p"
  have lt: "2 ^ k < n" using Suc.prems(2) rounds_of_less [of k n] by simp
  have n: "0 < n" using assms(3) by simp
  have c: "c = int ?c" using Suc.prems(3) by simp
  have dv: "2 ^ k dvd p" using Suc.prems(1) by (metis dvd_mult_right power_Suc)
  have dst: "n \<le> r + 2 ^ k \<Longrightarrow> (r + 2 ^ k) mod n = r + 2 ^ k - n"
    using lt assms(3) by (auto simp: mod_if)
  have pos: "int ?c - int ?b * int (2 ^ k) > 0 \<longleftrightarrow> ?b * 2 ^ k < ?c"
    by (metis diff_gt_0_iff_gt of_nat_less_iff of_nat_mult)
  have sz: "nat (int ?c - int ?b * 2 ^ k) = ?c - ?b * 2 ^ k"
    by (metis nat_minus_as_int of_nat_mult of_nat_power of_nat_numeral)
  have off: "nat (int ?b * (int p + 2 ^ k)) = ?b * (p + 2 ^ k)"
    by (metis nat_int of_nat_add of_nat_mult of_nat_power of_nat_numeral)
  have next_c: "0 < k \<longrightarrow> int (cur_size n nb (k - 1) p) =
      (if p + 2 ^ k < n \<and> ?b * 2 ^ k < ?c then int (?b * 2 ^ k) else int ?c)"
    using cur_size_next [OF n, of "k - 1" p nb] Suc.prems(1) by (cases k) auto
  have rnd: "scatter_round buf nb root n k r = (if p + 2 ^ k < n \<and> ?b * 2 ^ k < ?c
      then [(Send (loc_add buf (?b * (p + 2 ^ k))) (?c - ?b * 2 ^ k) 1 ((r + 2 ^ k) mod n), True)] else [])"
    using Suc.prems(1) by (simp add: scatter_round_def Let_def assms(4) [symmetric])
  show ?case
  proof (cases "p + 2 ^ k < n \<and> ?b * 2 ^ k < ?c")
    case True
    let ?s = "barrier_here (create (Send (loc_add buf (?b * (p + 2 ^ k))) (?c - ?b * 2 ^ k) 1 ((r + 2 ^ k) mod n)) s)"
    have "scatter_send_loop buf (int ?b) n r p (2 ^ Suc k div 2) c s =
        scatter_send_loop buf (int ?b) n r p (2 ^ k div 2) (int (?b * 2 ^ k)) ?s"
      using True pos by (subst scatter_send_loop.simps) (simp add: Let_def c sz off dst)
    with Suc.IH [OF dv, of "int (?b * 2 ^ k)" ?s] Suc.prems(2) next_c True show ?thesis
      by (simp add: rnd)
  next
    case False
    have "scatter_send_loop buf (int ?b) n r p (2 ^ Suc k div 2) c s =
        scatter_send_loop buf (int ?b) n r p (2 ^ k div 2) c s"
      using False pos by (subst scatter_send_loop.simps) (auto simp: Let_def c)
    with Suc.IH [OF dv, of c s] Suc.prems(2) next_c False c show ?thesis
      by (simp add: rnd)
  qed
qed

lemma and_pow2: "2 ^ j dvd p \<Longrightarrow> p AND 2 ^ j \<noteq> 0 \<longleftrightarrow> \<not> 2 ^ Suc j dvd p" for p :: nat
proof -
  assume "2 ^ j dvd p"
  then obtain q where q: "p = 2 ^ j * q" by blast
  have "p AND 2 ^ j \<noteq> 0 \<longleftrightarrow> odd q" by (simp add: and_exp_eq_0_iff_not_bit bit_iff_odd q)
  also have "\<dots> \<longleftrightarrow> \<not> 2 ^ Suc j dvd p" by (simp add: q)
  finally show ?thesis .
qed

lemma scatter_recv_loop_root:
  "j \<le> rounds_of n \<Longrightarrow> scatter_recv_loop buf nbytes b n r 0 (2 ^ j) c s = (2 ^ rounds_of n, c, s)"
proof (induction "rounds_of n - j" arbitrary: j)
  case 0
  then have "\<not> 2 ^ j < n" using rounds_of_less [of j n] by simp
  with 0 show ?case by (simp add: scatter_recv_loop.simps)
next
  case (Suc d)
  then have "j < rounds_of n" by simp
  then have "2 ^ j < n" by (simp only: rounds_of_less)
  then have "scatter_recv_loop buf nbytes b n r 0 (2 ^ j) c s = scatter_recv_loop buf nbytes b n r 0 (2 ^ Suc j) c s"
    by (subst scatter_recv_loop.simps) simp
  with Suc.hyps(1) [of "Suc j"] Suc.hyps(2) \<open>j < rounds_of n\<close> show ?case by simp
qed

lemma scatter_recv_loop_child:
  assumes "bytes_fit n nb" and "r < n" and "p < n" and "0 < p" and k: "2 ^ k dvd p" "\<not> 2 ^ Suc k dvd p"
  shows "j \<le> k \<Longrightarrow> scatter_recv_loop buf (int nb) (int (blk n nb)) n r p (2 ^ j) c s =
    (2 ^ k, int (nb - p * blk n nb),
     if p * blk n nb < nb
     then barrier_here (create (Recv (loc_add buf (p * blk n nb)) (nb - p * blk n nb) 1 ((r + n - 2 ^ k) mod n)) s) else s)"
proof (induction "k - j" arbitrary: j)
  case 0
  let ?b = "blk n nb"
  from 0 have j: "j = k" by simp
  have lt: "2 ^ k < n" using k(1) assms(3,4) dvd_imp_le [of "2 ^ k" p] by simp
  have bit: "p AND 2 ^ k \<noteq> 0" using and_pow2 [OF k(1)] k(2) by simp
  have i: "int32 (int nb - int p * int ?b) = int nb - int p * int ?b"
    by (rule fit_values(5) [OF assms(1)]) (use assms(3) in simp)
  have m: "max 0 (int nb - int p * int ?b) = int (nb - p * ?b)"
    by (simp add: max_def of_nat_diff_if flip: of_nat_mult)
  have src: "(if r < 2 ^ k then r + n - 2 ^ k else r - 2 ^ k) = (r + n - 2 ^ k) mod n"
    using lt assms(2) by (auto simp: mod_if)
  have off: "nat (int p * int ?b) = p * ?b" by (metis nat_int of_nat_mult)
  show ?case
    unfolding j using lt bit
    by (subst scatter_recv_loop.simps) (simp only: Let_def i m src off nat_int if_True of_nat_0_less_iff zero_less_diff zero_less_power zero_less_numeral simp_thms refl)
next
  case (Suc d)
  then have jk: "j < k" by simp
  then have "(2::nat) ^ j < 2 ^ k" by simp
  with dvd_imp_le [OF k(1) assms(4)] assms(3) have lt: "2 ^ j < n" by linarith
  have "2 ^ j dvd p" "2 ^ Suc j dvd p"
    using jk k(1) by (meson Suc_leI dvd_trans le_imp_power_dvd less_imp_le_nat)+
  then have "p AND 2 ^ j = 0" using and_pow2 by blast
  then have "scatter_recv_loop buf (int nb) (int (blk n nb)) n r p (2 ^ j) c s =
      scatter_recv_loop buf (int nb) (int (blk n nb)) n r p (2 ^ Suc j) c s"
    using lt by (subst scatter_recv_loop.simps) simp
  with Suc.hyps(1) [of "Suc j"] Suc.hyps(2) jk show ?case by simp
qed

lemma lowest_bit:
  assumes "0 < p"
  obtains k where "2 ^ k dvd p" "\<not> 2 ^ Suc k dvd (p :: nat)"
proof -
  have "\<exists>k. \<not> 2 ^ k dvd p"
    using assms by (meson dvd_imp_le less_exp not_le)
  then obtain j where j: "\<not> 2 ^ j dvd p" "\<forall>i < j. 2 ^ i dvd p"
    using exists_least_iff [of "\<lambda>k. \<not> 2 ^ k dvd p"] by auto
  then have "j \<noteq> 0" by (metis one_dvd power_0)
  then obtain k where "j = Suc k" by (cases j) auto
  with j that show thesis by auto
qed

lemma scatter_ops:
  assumes "bytes_fit n nb" and "root < n" and "r < n"
  shows "ops (ccl_coll_build_scatter_for_bcast buf root (int nb) n r s) =
    ops s @ concat (map (\<lambda>k. scatter_round buf nb root n k r) (rev [0..<rounds_of n]))"
proof -
  let ?b = "blk n nb" and ?p = "rel_rank n root r"
  note fv = fit_values [OF assms(1)]
  have n: "2 \<le> n" using assms(1) by (simp add: bytes_fit_def)
  have K: "0 < rounds_of n" using n by (simp add: rounds_of_less)
  have p: "?p < n" using assms(2,3) by (auto simp: rel_rank_def)
  note send = scatter_send_loop_ops [OF assms refl]
  show ?thesis
  proof (cases "?p = 0")
    case True
    then have root: "r = root" using assms(2,3) by (auto simp: rel_rank_def split: if_splits)
    have "nb \<le> ?b * 2 ^ rounds_of n"
    proof -
      have "nb \<le> n * ?b" by (rule blk_cover) (use n in simp)
      also have "\<dots> \<le> 2 ^ rounds_of n * ?b" using rounds_of_le by simp
      finally show ?thesis by (simp add: mult.commute)
    qed
    then have "cur_size n nb (rounds_of n - 1) 0 = nb" using K by (simp add: cur_size_def)
    with send [of "rounds_of n" "int nb" buf s] True scatter_recv_loop_root [of 0 n] show ?thesis
      by (simp add: ccl_coll_build_scatter_for_bcast_def Let_def fv root)
  next
    case False
    then obtain k where k: "2 ^ k dvd ?p" "\<not> 2 ^ Suc k dvd ?p" using lowest_bit by blast
    have "2 ^ k < n" using dvd_imp_le [OF k(1)] False p by simp
    then have kL: "k < rounds_of n" by (simp add: rounds_of_less)
    have up: "scatter_round buf nb root n i r = []" if "k < i" for i
    proof -
      have "(2::nat) ^ Suc k dvd 2 ^ i" "(2::nat) ^ Suc k dvd 2 ^ (i + 1)"
        by (rule le_imp_power_dvd, use that in simp)+
      then have "\<not> 2 ^ i dvd ?p" "\<not> 2 ^ (i + 1) dvd ?p" using k(2) dvd_trans by blast+
      then show ?thesis by (simp add: scatter_round_def Let_def)
    qed
    have "rev [0..<rounds_of n] = rev [Suc k..<rounds_of n] @ k # rev [0..<k]"
      using upt_add_eq_append [of 0 k "rounds_of n - k"] kL by (simp add: upt_conv_Cons)
    moreover have "concat (map (\<lambda>k. scatter_round buf nb root n k r) (rev [Suc k..<rounds_of n])) = []"
      using up by simp
    moreover have c: "0 < k \<longrightarrow> nb - ?p * ?b = cur_size n nb (k - 1) ?p" using k(2) by (simp add: cur_size_def)
    ultimately show ?thesis
      using send [OF k(1), of "int (nb - ?p * ?b)" buf] kL c
        scatter_recv_loop_child [OF assms(1,3) p _ k, of 0] False k
      by (simp add: ccl_coll_build_scatter_for_bcast_def Let_def fv scatter_round_def [of buf nb root n k])
  qed
qed

definition blk_count :: "nat \<Rightarrow> nat \<Rightarrow> nat \<Rightarrow> nat" where
  "blk_count n nb p = min (blk n nb) (nb - p * blk n nb)"

definition bcast_ring_round :: "loc \<Rightarrow> nat \<Rightarrow> rank \<Rightarrow> nat \<Rightarrow> nat \<Rightarrow> rank \<Rightarrow> (sched_op \<times> bool) list" where
  "bcast_ring_round buf nb root n i r =
     (let pj = rel_rank n root ((r + n - i) mod n); pn = rel_rank n root ((r + n - Suc i) mod n) in
      [(Send (loc_add buf (pj * blk n nb)) (blk_count n nb pj) 1 ((r + 1) mod n), False),
       (Recv (loc_add buf (pn * blk n nb)) (blk_count n nb pn) 1 ((n + r - 1) mod n), True)])"

lemma blk_count_int:
  "max 0 (min (int (blk n nb)) (int nb - int p * int (blk n nb))) = int (blk_count n nb p)"
proof -
  have "int p * int (blk n nb) = int (p * blk n nb)" by simp
  then show ?thesis unfolding blk_count_def by linarith
qed

lemma bcast_ring_body_ops:
  assumes "root < n" and "r < n"
  shows "ops (bcast_ring_body buf (int nb) (int (blk n nb)) root n r ((r + n - i) mod n) ((r + n - Suc i) mod n) s) =
    ops s @ bcast_ring_round buf nb root n i r"
proof -
  have rr: "(q mod n + n - root) mod n = rel_rank n root (q mod n)" for q
    using rel_rank_mod [of root n "q mod n"] assms by simp
  have nn: "nat (int p * int (blk n nb)) = p * blk n nb" for p by (metis nat_int of_nat_mult)
  show ?thesis by (simp add: bcast_ring_body_def Let_def rr nn blk_count_int bcast_ring_round_def)
qed

lemma bcast_ring_loop_ops:
  assumes "root < n" and "r < n"
  shows "i < n \<Longrightarrow>
    ops (bcast_ring_loop buf (int nb) (int (blk n nb)) root n r (Suc i) ((r + n - i) mod n) ((r + n - Suc i) mod n) s) =
    ops s @ concat (map (\<lambda>i. bcast_ring_round buf nb root n i r) [i..<n - 1])"
proof (induction "n - i" arbitrary: i s)
  case (Suc d)
  show ?case
  proof (cases "Suc i < n")
    case True
    have nx: "(n + (r + n - Suc i) mod n - 1) mod n = (r + n - Suc (Suc i)) mod n"
    proof -
      have "(n + (r + n - Suc i) mod n - 1) mod n = ((r + n - Suc i) mod n + (n - 1)) mod n" using True by (simp add: add.commute)
      also have "\<dots> = (r + n - Suc i + (n - 1)) mod n" by (rule mod_add_left_eq)
      also have "r + n - Suc i + (n - 1) = (r + n - Suc (Suc i)) + n" using True by simp
      finally show ?thesis by simp
    qed
    let ?s = "bcast_ring_body buf (int nb) (int (blk n nb)) root n r ((r + n - i) mod n) ((r + n - Suc i) mod n) s"
    have "bcast_ring_loop buf (int nb) (int (blk n nb)) root n r (Suc i) ((r + n - i) mod n) ((r + n - Suc i) mod n) s =
        bcast_ring_loop buf (int nb) (int (blk n nb)) root n r (Suc (Suc i)) ((r + n - Suc i) mod n) ((r + n - Suc (Suc i)) mod n) ?s"
      using True by (subst bcast_ring_loop.simps) (simp only: nx if_True)
    moreover have "[i..<n - 1] = i # [Suc i..<n - 1]" using True by (simp add: upt_conv_Cons)
    ultimately show ?thesis
      using Suc.hyps(1) [of "Suc i" ?s] Suc.hyps(2) True bcast_ring_body_ops [OF assms, of buf nb i s] by simp
  next
    case False
    then show ?thesis by (simp add: bcast_ring_loop.simps)
  qed
qed simp

definition sra_bcast_entries :: "loc \<Rightarrow> nat \<Rightarrow> nat \<Rightarrow> rank \<Rightarrow> nat \<Rightarrow> rank \<Rightarrow> (sched_op \<times> bool) list" where
  "sra_bcast_entries buf cnt ds root n r =
     ops (ccl_coll_build_scatter_ring_allgather_bcast buf cnt ds root n r (new_builder 1))"

definition sra_bcast_round :: "loc \<Rightarrow> nat \<Rightarrow> rank \<Rightarrow> nat \<Rightarrow> nat \<Rightarrow> rank \<Rightarrow> (sched_op \<times> bool) list" where
  "sra_bcast_round buf nb root n k r =
     (if k < rounds_of n then scatter_round buf nb root n (rounds_of n - 1 - k) r
      else bcast_ring_round buf nb root n (k - rounds_of n) r)"

lemma rev_upt_map: "map h (rev [0..<m]) = map (\<lambda>k. h (m - 1 - k)) [0..<m]"
  by (intro nth_equalityI) (auto simp: rev_nth)

lemma sra_bcast_entries_rounds:
  assumes "bytes_fit n (ds * cnt)" and "root < n" and "r < n"
  shows "sra_bcast_entries buf cnt ds root n r =
    concat (map (\<lambda>k. sra_bcast_round buf (ds * cnt) root n k r) [0..<rounds_of n + (n - 1)])"
proof -
  let ?nb = "ds * cnt"
  note fv = fit_values [OF assms(1)]
  have n: "2 \<le> n" using assms(1) by (simp add: bytes_fit_def)
  have "map (\<lambda>k. sra_bcast_round buf ?nb root n k r) [0..<rounds_of n + (n - 1)] =
      map (\<lambda>k. scatter_round buf ?nb root n (rounds_of n - 1 - k) r) [0..<rounds_of n] @
      map (\<lambda>i. bcast_ring_round buf ?nb root n i r) [0..<n - 1]"
    by (intro nth_equalityI) (auto simp: sra_bcast_round_def nth_append)
  moreover have "int ds * int cnt = int ?nb" by simp
  moreover have "(n + r - 1) mod n = (r + n - Suc 0) mod n" by (simp add: add.commute)
  ultimately show ?thesis
    using bcast_ring_loop_ops [OF assms(2,3), of 0 buf ?nb] n assms(3) scatter_ops [OF assms, of buf]
    by (simp add: sra_bcast_entries_def ccl_coll_build_scatter_ring_allgather_bcast_def Let_def fv
        new_builder_def rev_upt_map del: of_nat_mult)
qed

section \<open>The rounds match\<close>

lemma rel_less: "root < n \<Longrightarrow> r < n \<Longrightarrow> rel_rank n root r < n"
  by (auto simp: rel_rank_def)

lemma rel_shift:
  assumes "root < n" and "r < n" and "rel_rank n root r + d < n"
  shows "rel_rank n root ((r + d) mod n) = rel_rank n root r + d"
proof -
  have "rel_rank n root ((r + d) mod n) = ((r + d) mod n + (n - root)) mod n"
    using assms rel_rank_mod [of root n "(r + d) mod n"] by simp
  also have "\<dots> = (r + d + (n - root)) mod n" by (rule mod_add_left_eq)
  also have "r + d + (n - root) = (r + n - root) + d" using assms(1) by simp
  also have "\<dots> mod n = ((r + n - root) mod n + d) mod n" by (rule mod_add_left_eq [symmetric])
  also have "\<dots> = rel_rank n root r + d" using assms rel_rank_mod [OF assms(1,2)] by simp
  finally show ?thesis .
qed

lemma rel_unshift:
  assumes "root < n" and "r < n" and "d \<le> rel_rank n root r"
  shows "rel_rank n root ((r + n - d) mod n) = rel_rank n root r - d"
proof -
  let ?q = "(r + n - d) mod n"
  have d: "d < n" using assms(3) rel_less [OF assms(1,2)] by simp
  have "?q = (if d \<le> r then r - d else r + n - d)" using d assms(2) by (auto simp: mod_if)
  then show ?thesis using assms d by (auto simp: rel_rank_def split: if_splits)
qed

lemma rel_inj: "root < n \<Longrightarrow> r < n \<Longrightarrow> r' < n \<Longrightarrow> rel_rank n root r = rel_rank n root r' \<Longrightarrow> r = r'"
  by (auto simp: rel_rank_def split: if_splits)

definition child :: "nat \<Rightarrow> nat \<Rightarrow> bool" where
  "child k q \<longleftrightarrow> 2 ^ k dvd q \<and> \<not> 2 ^ (k + 1) dvd q"

lemma child_parent: "child k q \<Longrightarrow> 2 ^ k \<le> q \<and> 2 ^ (k + 1) dvd (q - 2 ^ k)"
proof -
  assume "child k q"
  then obtain j where j: "q = 2 ^ k * j" "odd j" by (auto simp: child_def elim!: dvdE)
  then obtain i where "j = 2 * i + 1" using oddE by blast
  then show ?thesis by (simp add: j(1) algebra_simps)
qed

lemma parent_child: "2 ^ (k + 1) dvd p \<Longrightarrow> child k (p + 2 ^ k)"
proof -
  assume p: "2 ^ (k + 1) dvd p"
  then have "2 ^ k dvd p" by (metis dvd_trans le_add1 le_imp_power_dvd)
  moreover have "\<not> (2::nat) ^ (k + 1) dvd 2 ^ k" by (simp add: nat_dvd_not_less)
  ultimately show ?thesis using p by (simp add: child_def dvd_add_right_iff)
qed

lemma not_child: "2 ^ (k + 1) dvd p \<Longrightarrow> \<not> child k p"
  by (simp add: child_def)

lemma cur_size_pos:
  assumes "0 < n"
  shows "blk n nb * 2 ^ k < cur_size n nb k p \<longleftrightarrow> (p + 2 ^ k) * blk n nb < nb"
proof -
  have "(p + 2 ^ k) * blk n nb < nb \<longleftrightarrow> blk n nb * 2 ^ k < nb - p * blk n nb"
    by (auto simp: algebra_simps)
  moreover have "nb = 0" if "blk n nb = 0"
    using that blk_cover [OF assms, of nb] by simp
  ultimately show ?thesis by (auto simp: cur_size_def)
qed

lemma cur_size_le: "cur_size n nb k p \<le> nb - p * blk n nb"
  by (simp add: cur_size_def)

definition sra_bcast_seg :: "loc \<Rightarrow> nat \<Rightarrow> rank \<Rightarrow> nat \<Rightarrow> nat \<Rightarrow> rank \<Rightarrow> sched_op list" where
  "sra_bcast_seg buf nb root n k r = (if r < n then map fst (sra_bcast_round buf nb root n k r) else [])"

text \<open>Who sends to whom for the mask \<open>2 ^ k\<close>.\<close>

definition scatter_pair :: "nat \<Rightarrow> rank \<Rightarrow> nat \<Rightarrow> nat \<Rightarrow> rank \<Rightarrow> rank \<Rightarrow> bool" where
  "scatter_pair nb root n k s d \<longleftrightarrow>
     s < n \<and> d = (s + 2 ^ k) mod n \<and> 2 ^ (k + 1) dvd rel_rank n root s \<and> rel_rank n root s + 2 ^ k < n \<and>
     (rel_rank n root s + 2 ^ k) * blk n nb < nb"

lemma scatter_sends:
  assumes "0 < n"
  shows "filter (\<lambda>x. send_dst x = Some d) (if s < n then map fst (scatter_round buf nb root n k s) else []) =
    (if scatter_pair nb root n k s d
     then [Send (loc_add buf (blk n nb * (rel_rank n root s + 2 ^ k)))
             (cur_size n nb k (rel_rank n root s) - blk n nb * 2 ^ k) 1 d] else [])"
  using not_child [of k "rel_rank n root s"] cur_size_pos [OF assms, of nb k "rel_rank n root s"]
  by (auto simp: scatter_round_def Let_def scatter_pair_def child_def)

lemma scatter_pair_recv:
  assumes "root < n"
  shows "scatter_pair nb root n k s d \<longleftrightarrow>
    d < n \<and> child k (rel_rank n root d) \<and> rel_rank n root d * blk n nb < nb \<and> s = (d + n - 2 ^ k) mod n"
proof
  assume p: "scatter_pair nb root n k s d"
  then have s: "s < n" "2 ^ k < n" "d = (s + 2 ^ k) mod n" by (auto simp: scatter_pair_def)
  from p rel_shift [OF assms s(1), of "2 ^ k"] have "rel_rank n root d = rel_rank n root s + 2 ^ k"
    by (simp add: scatter_pair_def)
  with p s mod_shift' [of s n "2 ^ k"] show "d < n \<and> child k (rel_rank n root d) \<and>
      rel_rank n root d * blk n nb < nb \<and> s = (d + n - 2 ^ k) mod n"
    by (auto simp: scatter_pair_def parent_child)
next
  assume r: "d < n \<and> child k (rel_rank n root d) \<and> rel_rank n root d * blk n nb < nb \<and> s = (d + n - 2 ^ k) mod n"
  then have c: "2 ^ k \<le> rel_rank n root d" "2 ^ (k + 1) dvd (rel_rank n root d - 2 ^ k)"
    using child_parent by auto
  have l: "rel_rank n root d < n" using r rel_less [OF assms] by blast
  have "rel_rank n root s = rel_rank n root d - 2 ^ k" using rel_unshift [OF assms _ c(1)] r by simp
  with r c l mod_shift [of d n "2 ^ k"] show "scatter_pair nb root n k s d" by (auto simp: scatter_pair_def)
qed

lemma scatter_recvs:
  assumes "root < n"
  shows "filter (\<lambda>x. recv_src x = Some s) (if d < n then map fst (scatter_round buf nb root n k d) else []) =
    (if scatter_pair nb root n k s d
     then [Recv (loc_add buf (rel_rank n root d * blk n nb)) (nb - rel_rank n root d * blk n nb) 1 s] else [])"
  unfolding scatter_pair_recv [OF assms] by (auto simp: scatter_round_def Let_def child_def)

lemma scatter_comm_round:
  assumes "root < n"
  shows "comm_round n (\<lambda>r. if r < n then map fst (scatter_round buf nb root n k r) else [])"
proof (rule comm_roundI)
  have n: "0 < n" using assms by simp
  show "sends_to (\<lambda>r. if r < n then map fst (scatter_round buf nb root n k r) else []) s d =
    (if scatter_pair nb root n k s d
     then [Send (loc_add buf (blk n nb * (rel_rank n root s + 2 ^ k)))
             (cur_size n nb k (rel_rank n root s) - blk n nb * 2 ^ k) 1 d] else [])" for s d
    unfolding sends_to_def by (rule scatter_sends [OF n])
  show "recvs_from (\<lambda>r. if r < n then map fst (scatter_round buf nb root n k r) else []) d s =
    (if scatter_pair nb root n k s d
     then [Recv (loc_add buf (rel_rank n root d * blk n nb)) (nb - rel_rank n root d * blk n nb) 1 s] else [])" for s d
    unfolding recvs_from_def by (rule scatter_recvs [OF assms])
  fix s d assume p: "scatter_pair nb root n k s d"
  then have "rel_rank n root d = rel_rank n root s + 2 ^ k"
    using rel_shift [OF assms, of s "2 ^ k"] by (simp add: scatter_pair_def)
  with cur_size_le [of n nb k "rel_rank n root s"]
  show "msg_fits (msg_shape (Send (loc_add buf (blk n nb * (rel_rank n root s + 2 ^ k)))
             (cur_size n nb k (rel_rank n root s) - blk n nb * 2 ^ k) 1 d))
      (msg_shape (Recv (loc_add buf (rel_rank n root d * blk n nb)) (nb - rel_rank n root d * blk n nb) 1 s))"
    by (simp add: msg_fits_def algebra_simps)
qed (auto simp: scatter_round_def Let_def is_local_def split: if_splits)

lemma bcast_ring_comm_round:
  assumes "root < n" and "Suc i < n"
  shows "comm_round n (\<lambda>r. if r < n then map fst (bcast_ring_round buf nb root n i r) else [])"
proof (rule comm_roundI [where P = "\<lambda>s d. s < n \<and> d = (s + 1) mod n" and
      SX = "\<lambda>s d. let pj = rel_rank n root ((s + n - i) mod n) in Send (loc_add buf (pj * blk n nb)) (blk_count n nb pj) 1 d" and
      RX = "\<lambda>s d. let pj = rel_rank n root ((s + n - i) mod n) in Recv (loc_add buf (pj * blk n nb)) (blk_count n nb pj) 1 s"])
  fix s d
  show "sends_to (\<lambda>r. if r < n then map fst (bcast_ring_round buf nb root n i r) else []) s d =
    (if s < n \<and> d = (s + 1) mod n then [let pj = rel_rank n root ((s + n - i) mod n)
       in Send (loc_add buf (pj * blk n nb)) (blk_count n nb pj) 1 d] else [])"
    by (auto simp: sends_to_def bcast_ring_round_def Let_def)
  have eq: "(d + n - Suc i) mod n = (s + n - i) mod n" if "s = (n + d - 1) mod n" "d < n"
  proof -
    have "(s + n - i) mod n = (s + (n - i)) mod n" using assms(2) by simp
    also have "\<dots> = (n + d - 1 + (n - i)) mod n" unfolding that(1) by (rule mod_add_left_eq)
    also have "n + d - 1 + (n - i) = (d + n - Suc i) + n" using assms(2) by simp
    finally show ?thesis by simp
  qed
  have iff: "s < n \<and> d = (s + 1) mod n \<longleftrightarrow> d < n \<and> s = (n + d - 1) mod n"
    using mod_shift [of d n 1] mod_shift' [of s n 1] assms(2) by (auto simp: add.commute)
  show "recvs_from (\<lambda>r. if r < n then map fst (bcast_ring_round buf nb root n i r) else []) d s =
    (if s < n \<and> d = (s + 1) mod n then [let pj = rel_rank n root ((s + n - i) mod n)
       in Recv (loc_add buf (pj * blk n nb)) (blk_count n nb pj) 1 s] else [])"
    unfolding iff using eq by (auto simp: recvs_from_def bcast_ring_round_def Let_def)
qed (auto simp: bcast_ring_round_def Let_def is_local_def msg_fits_def split: if_splits)

section \<open>What the rounds do to memory\<close>

abbreviation scatter_seg :: "loc \<Rightarrow> nat \<Rightarrow> rank \<Rightarrow> nat \<Rightarrow> nat \<Rightarrow> rank \<Rightarrow> sched_op list" where
  "scatter_seg buf nb root n k r \<equiv> (if r < n then map fst (scatter_round buf nb root n k r) else [])"

abbreviation bcast_ring_seg :: "loc \<Rightarrow> nat \<Rightarrow> rank \<Rightarrow> nat \<Rightarrow> nat \<Rightarrow> rank \<Rightarrow> sched_op list" where
  "bcast_ring_seg buf nb root n i r \<equiv> (if r < n then map fst (bcast_ring_round buf nb root n i r) else [])"

lemma write_bytes:
  "write_cells m (loc_add buf off) 1 vs (loc_add buf i) =
     (if off \<le> i \<and> i - off < length vs then vs ! (i - off) else m (loc_add buf i))"
  by (auto simp: write_cells_def in_cells_def loc_add_def)

lemma write_bytes_outside:
  "off + length vs \<le> nb \<Longrightarrow> \<not> in_rng (buf, nb) a \<Longrightarrow> write_cells m (loc_add buf off) 1 vs a = m a"
  by (rule write_cells_outside [where cnt = "length vs"]) (auto simp: in_rng_def loc_add_def)

lemma read_bytes: "i < c \<Longrightarrow> read_cells m (loc_add buf off) c 1 ! i = m (loc_add buf (off + i))"
  by (simp add: loc_add_def add.assoc)

lemma copy_bytes:
  "write_cells m (loc_add buf off) 1 (read_cells m' (loc_add buf off) c 1) (loc_add buf i) =
     (if off \<le> i \<and> i < off + c then m' (loc_add buf i) else m (loc_add buf i))"
proof (cases "off \<le> i \<and> i < off + c")
  case True
  then have "i - off < c" "off + (i - off) = i" by auto
  with True show ?thesis by (simp only: write_bytes length_read_cells read_bytes if_True simp_thms)
next
  case False
  then have "\<not> (off \<le> i \<and> i - off < c)" by auto
  with False show ?thesis by (simp only: write_bytes length_read_cells if_False)
qed

lemma scatter_round_mem:
  assumes "root < n" and "r < n" and "q = rel_rank n root r" and "s = (r + n - 2 ^ k) mod n"
  shows "round_mem f (scatter_seg buf nb root n k) M r =
    (if child k q \<and> q * blk n nb < nb
     then write_cells (M r) (loc_add buf (q * blk n nb)) 1
            (read_cells (M s) (loc_add buf (q * blk n nb)) (cur_size n nb k (q - 2 ^ k) - blk n nb * 2 ^ k) 1)
     else M r)"
proof (cases "child k q \<and> q * blk n nb < nb")
  case True
  then have pair: "scatter_pair nb root n k s r" using scatter_pair_recv [OF assms(1)] assms by simp
  have seg: "scatter_seg buf nb root n k r = [Recv (loc_add buf (q * blk n nb)) (nb - q * blk n nb) 1 s]"
    using True assms by (simp add: scatter_round_def Let_def child_def)
  have c: "2 ^ k \<le> q" using True child_parent by blast
  have rs: "rel_rank n root s = q - 2 ^ k" using rel_unshift [OF assms(1,2)] c assms(3,4) by simp
  have "inbox (scatter_seg buf nb root n k) M s r =
      read_cells (M s) (loc_add buf (q * blk n nb)) (cur_size n nb k (q - 2 ^ k) - blk n nb * 2 ^ k) 1"
    using scatter_sends [of n r s buf nb root k] pair assms(1) c
    by (simp add: inbox_def sends_to_def rs mult.commute)
  with True seg show ?thesis by (simp add: round_mem_def recv_vals_def del: One_nat_def)
next
  case False
  then have "\<forall>x \<in> set (scatter_seg buf nb root n k r). send_dst x \<noteq> None"
    using assms by (auto simp: scatter_round_def Let_def child_def)
  with False show ?thesis by (simp only: round_mem_def fold_sends if_False)
qed

lemma bcast_ring_round_mem:
  assumes "r < n" and "Suc i < n" and "p = rel_rank n root ((r + n - Suc i) mod n)" and "root < n"
  shows "round_mem f (bcast_ring_seg buf nb root n i) M r =
    write_cells (M r) (loc_add buf (p * blk n nb)) 1
      (read_cells (M ((n + r - 1) mod n)) (loc_add buf (p * blk n nb)) (blk_count n nb p) 1)"
proof -
  let ?s = "(n + r - 1) mod n"
  have s: "?s < n" "(?s + 1) mod n = r" using mod_shift [of r n 1] assms by (auto simp: add.commute)
  have eq: "(?s + n - i) mod n = (r + n - Suc i) mod n"
  proof -
    have "(?s + n - i) mod n = (?s + (n - i)) mod n" using assms(2) by simp
    also have "\<dots> = (n + r - 1 + (n - i)) mod n" by (rule mod_add_left_eq)
    also have "n + r - 1 + (n - i) = (r + n - Suc i) + n" using assms(2) by simp
    finally show ?thesis by simp
  qed
  have "inbox (bcast_ring_seg buf nb root n i) M ?s r =
      read_cells (M ?s) (loc_add buf (p * blk n nb)) (blk_count n nb p) 1"
    using s by (simp add: inbox_def sends_to_def bcast_ring_round_def Let_def eq assms(3) del: One_nat_def)
  then show ?thesis
    using assms(1) by (simp add: round_mem_def bcast_ring_round_def Let_def recv_vals_def assms(3) [symmetric] del: One_nat_def)
qed

section \<open>The invariant\<close>

definition same_bytes :: "'v mem \<Rightarrow> 'v mem \<Rightarrow> loc \<Rightarrow> nat \<Rightarrow> nat \<Rightarrow> bool" where
  "same_bytes m D buf lo hi \<longleftrightarrow> (\<forall>i. lo \<le> i \<longrightarrow> i < hi \<longrightarrow> m (loc_add buf i) = D (loc_add buf i))"

definition untouched :: "nat \<Rightarrow> rng \<Rightarrow> (rank \<Rightarrow> 'v mem) \<Rightarrow> (rank \<Rightarrow> 'v mem) \<Rightarrow> bool" where
  "untouched n R M0 M \<longleftrightarrow> (\<forall>r a. n \<le> r \<or> \<not> in_rng R a \<longrightarrow> M r a = M0 r a)"

text \<open>With the masks from \<open>2 ^ k\<close> on done, a rank of the tree has the bytes of its subtree.\<close>

definition scatter_inv :: "loc \<Rightarrow> nat \<Rightarrow> rank \<Rightarrow> nat \<Rightarrow> 'v mem \<Rightarrow> nat \<Rightarrow> (rank \<Rightarrow> 'v mem) \<Rightarrow> bool" where
  "scatter_inv buf nb root n D k M \<longleftrightarrow>
     (\<forall>r < n. 2 ^ k dvd rel_rank n root r \<longrightarrow>
        same_bytes (M r) D buf (rel_rank n root r * blk n nb) (min nb ((rel_rank n root r + 2 ^ k) * blk n nb)))"

text \<open>After \<open>i\<close> rounds of the ring, a rank has its block and the blocks of the \<open>i\<close> ranks to its left.\<close>

definition ring_inv :: "loc \<Rightarrow> nat \<Rightarrow> rank \<Rightarrow> nat \<Rightarrow> 'v mem \<Rightarrow> nat \<Rightarrow> (rank \<Rightarrow> 'v mem) \<Rightarrow> bool" where
  "ring_inv buf nb root n D i M \<longleftrightarrow>
     (\<forall>r < n. \<forall>e \<le> i. let p = rel_rank n root ((r + n - e) mod n) in
        same_bytes (M r) D buf (p * blk n nb) (min nb ((p + 1) * blk n nb)))"

lemma scatter_inv_step:
  assumes "root < n" and "scatter_inv buf nb root n D (Suc k) M"
  shows "scatter_inv buf nb root n D k (round_mem f (scatter_seg buf nb root n k) M)"
  unfolding scatter_inv_def
proof (intro allI impI)
  fix r assume r: "r < n" and d: "2 ^ k dvd rel_rank n root r"
  define q where "q = rel_rank n root r"
  define s where "s = (r + n - 2 ^ k) mod n"
  let ?b = "blk n nb" and ?M = "round_mem f (scatter_seg buf nb root n k) M"
  note mem = scatter_round_mem [OF assms(1) r q_def s_def, of f buf nb M]
  show "same_bytes (?M r) D buf (rel_rank n root r * ?b) (min nb ((rel_rank n root r + 2 ^ k) * ?b))"
  proof (cases "child k q")
    case False
    with d have "2 ^ Suc k dvd q" by (simp add: child_def q_def)
    with assms(2) r have "same_bytes (M r) D buf (q * ?b) (min nb ((q + 2 ^ Suc k) * ?b))"
      by (simp add: scatter_inv_def q_def)
    moreover have "min nb ((q + 2 ^ k) * ?b) \<le> min nb ((q + 2 ^ Suc k) * ?b)" by (simp add: min.coboundedI2 add_mult_distrib)
    ultimately show ?thesis using False by (auto simp: mem same_bytes_def q_def [symmetric])
  next
    case True
    from child_parent [OF True] have c: "2 ^ k \<le> q" "2 ^ Suc k dvd (q - 2 ^ k)" by auto
    have rs: "rel_rank n root s = q - 2 ^ k" using rel_unshift [OF assms(1) r] c q_def s_def by simp
    have "s < n" using r by (simp add: s_def)
    with assms(2) c(2) rs have src: "same_bytes (M s) D buf ((q - 2 ^ k) * ?b) (min nb ((q - 2 ^ k + 2 ^ Suc k) * ?b))"
      by (auto simp: scatter_inv_def)
    let ?c = "cur_size n nb k (q - 2 ^ k) - ?b * 2 ^ k"
    have len: "min (nb - q * ?b) (?b * 2 ^ k) \<le> ?c"
      using c(1) by (auto simp: cur_size_def min_def algebra_simps diff_mult_distrib2)
    show ?thesis
      unfolding same_bytes_def q_def [symmetric]
    proof (intro allI impI)
      fix i assume i: "q * ?b \<le> i" "i < min nb ((q + 2 ^ k) * ?b)"
      then have nb: "q * ?b < nb" by simp
      have "i - q * ?b < ?c" using i len by (auto simp: algebra_simps)
      then have il': "i < q * ?b + ?c" using i(1) by linarith
      have "?M r (loc_add buf i) = M s (loc_add buf i)"
        using il' i(1) by (simp only: mem True nb copy_bytes if_True simp_thms)
      also have "\<dots> = D (loc_add buf i)"
        using src i c(1) unfolding same_bytes_def by (auto simp: algebra_simps diff_mult_distrib2)
      finally show "?M r (loc_add buf i) = D (loc_add buf i)" .
    qed
  qed
qed

lemma untouchedD: "untouched n R M0 M \<Longrightarrow> n \<le> r \<or> \<not> in_rng R a \<Longrightarrow> M r a = M0 r a"
  unfolding untouched_def by blast

lemma scatter_untouched:
  assumes "root < n" and "untouched n (buf, nb) M0 M"
  shows "untouched n (buf, nb) M0 (round_mem f (scatter_seg buf nb root n k) M)"
  unfolding untouched_def
proof (intro allI impI)
  fix r a assume ra: "n \<le> r \<or> \<not> in_rng (buf, nb) a"
  let ?q = "rel_rank n root r" and ?b = "blk n nb"
  have "round_mem f (scatter_seg buf nb root n k) M r a = M r a"
  proof (cases "r < n")
    case True
    have "?q * ?b + (cur_size n nb k (?q - 2 ^ k) - ?b * 2 ^ k) \<le> nb" if "child k ?q" "?q * ?b < nb"
    proof -
      have "2 ^ k \<le> ?q" using child_parent [OF that(1)] by simp
      then have "(?q - 2 ^ k) * ?b + ?b * 2 ^ k = ?q * ?b" by (simp add: diff_mult_distrib)
      with cur_size_le [of n nb k "?q - 2 ^ k"] that(2) show ?thesis by linarith
    qed
    then have "child k ?q \<and> ?q * ?b < nb \<Longrightarrow> write_cells (M r) (loc_add buf (?q * ?b)) 1
        (read_cells (M ((r + n - 2 ^ k) mod n)) (loc_add buf (?q * ?b)) (cur_size n nb k (?q - 2 ^ k) - ?b * 2 ^ k) 1) a = M r a"
      using True ra by (intro write_bytes_outside [where nb = nb]) auto
    then show ?thesis
      by (simp add: scatter_round_mem [OF assms(1) True refl refl] del: One_nat_def)
  qed (simp add: round_mem_def)
  with untouchedD [OF assms(2) ra] show "round_mem f (scatter_seg buf nb root n k) M r a = M0 r a" by simp
qed

lemma ring_invD:
  "ring_inv buf nb root n D i M \<Longrightarrow> r < n \<Longrightarrow> e \<le> i \<Longrightarrow> p = rel_rank n root ((r + n - e) mod n) \<Longrightarrow>
   same_bytes (M r) D buf (p * blk n nb) (min nb ((p + 1) * blk n nb))"
  unfolding ring_inv_def Let_def by blast

lemma ring_inv_step:
  assumes "root < n" and "Suc i < n" and inv: "ring_inv buf nb root n D i M"
  shows "ring_inv buf nb root n D (Suc i) (round_mem f (bcast_ring_seg buf nb root n i) M)"
  unfolding ring_inv_def Let_def
proof (intro allI impI)
  fix r e assume r: "r < n" and e: "e \<le> Suc i"
  define p where "p = rel_rank n root ((r + n - Suc i) mod n)"
  let ?b = "blk n nb" and ?M = "round_mem f (bcast_ring_seg buf nb root n i) M" and ?s = "(n + r - 1) mod n"
  note mem = bcast_ring_round_mem [OF r assms(2) p_def assms(1), of f buf nb M]
  have s: "?s < n" using r by simp
  have "(?s + n - i) mod n = (r + n - Suc i) mod n"
  proof -
    have "(?s + n - i) mod n = (?s + (n - i)) mod n" using assms(2) by simp
    also have "\<dots> = (n + r - 1 + (n - i)) mod n" by (rule mod_add_left_eq)
    also have "n + r - 1 + (n - i) = (r + n - Suc i) + n" using assms(2) by simp
    finally show ?thesis by simp
  qed
  then have src: "same_bytes (M ?s) D buf (p * ?b) (min nb ((p + 1) * ?b))"
    by (intro ring_invD [OF inv s order_refl]) (simp only: p_def)
  have cnt: "p * ?b + blk_count n nb p = max (p * ?b) (min nb ((p + 1) * ?b))"
    by (auto simp: blk_count_def min_def)
  define p' where "p' = rel_rank n root ((r + n - e) mod n)"
  have "same_bytes (?M r) D buf (p' * ?b) (min nb ((p' + 1) * ?b))"
    unfolding same_bytes_def
  proof (intro allI impI)
    fix i' assume i': "p' * ?b \<le> i'" "i' < min nb ((p' + 1) * ?b)"
    show "?M r (loc_add buf i') = D (loc_add buf i')"
    proof (cases "p * ?b \<le> i' \<and> i' < p * ?b + blk_count n nb p")
      case True
      then have "i' < min nb ((p + 1) * ?b)" using cnt by (simp only: less_max_iff_disj) linarith
      with True src show ?thesis by (simp add: mem copy_bytes same_bytes_def del: One_nat_def)
    next
      case False
      have "e \<noteq> Suc i"
      proof
        assume "e = Suc i"
        then have "p' = p" by (simp add: p'_def p_def)
        with i' False cnt show False by simp
      qed
      with e inv r have "same_bytes (M r) D buf (p' * ?b) (min nb ((p' + 1) * ?b))"
        by (intro ring_invD [OF inv r _ p'_def]) simp
      with i' have "M r (loc_add buf i') = D (loc_add buf i')" by (simp only: same_bytes_def)
      then show ?thesis by (simp only: mem copy_bytes False if_False)
    qed
  qed
  then show "same_bytes (?M r) D buf (rel_rank n root ((r + n - e) mod n) * ?b)
      (min nb ((rel_rank n root ((r + n - e) mod n) + 1) * ?b))" by (simp only: p'_def)
qed

lemma ring_untouched:
  assumes "root < n" and "Suc i < n" and "untouched n (buf, nb) M0 M"
  shows "untouched n (buf, nb) M0 (round_mem f (bcast_ring_seg buf nb root n i) M)"
  unfolding untouched_def
proof (intro allI impI)
  fix r a assume ra: "n \<le> r \<or> \<not> in_rng (buf, nb) a"
  have "round_mem f (bcast_ring_seg buf nb root n i) M r a = M r a"
  proof (cases "r < n")
    case True
    define p where "p = rel_rank n root ((r + n - Suc i) mod n)"
    let ?vs = "read_cells (M ((n + r - 1) mod n)) (loc_add buf (p * blk n nb)) (blk_count n nb p) 1"
    have "write_cells (M r) (loc_add buf (p * blk n nb)) 1 ?vs a = M r a"
    proof (cases "p * blk n nb \<le> nb")
      case le: True
      show ?thesis
        by (rule write_bytes_outside [where nb = nb]) (use le ra True in \<open>auto simp: blk_count_def\<close>)
    next
      case False
      then show ?thesis by (simp add: blk_count_def write_cells_def in_cells_def)
    qed
    then show ?thesis by (simp only: bcast_ring_round_mem [OF True assms(2) p_def assms(1)])
  qed (simp add: round_mem_def)
  with untouchedD [OF assms(3) ra] show "round_mem f (bcast_ring_seg buf nb root n i) M r a = M0 r a" by simp
qed

text \<open>The two phases joined: \<open>k\<close> rounds done out of the scatter's and the ring's.\<close>

definition sra_inv :: "loc \<Rightarrow> nat \<Rightarrow> rank \<Rightarrow> nat \<Rightarrow> (rank \<Rightarrow> 'v mem) \<Rightarrow> nat \<Rightarrow> (rank \<Rightarrow> 'v mem) \<Rightarrow> bool" where
  "sra_inv buf nb root n M0 k M \<longleftrightarrow> untouched n (buf, nb) M0 M \<and>
     (if k < rounds_of n then scatter_inv buf nb root n (M0 root) (rounds_of n - k) M
      else ring_inv buf nb root n (M0 root) (k - rounds_of n) M)"

lemma sra_seg_cases:
  "sra_bcast_seg buf nb root n k = (if k < rounds_of n then scatter_seg buf nb root n (rounds_of n - 1 - k)
     else bcast_ring_seg buf nb root n (k - rounds_of n))"
  by (auto simp: sra_bcast_seg_def sra_bcast_round_def)

lemma scatter_inv_0: "scatter_inv buf nb root n D 0 M \<Longrightarrow> ring_inv buf nb root n D 0 M"
  by (simp add: scatter_inv_def ring_inv_def)

lemma sra_inv_init:
  assumes "root < n" and "2 \<le> n"
  shows "sra_inv buf nb root n M 0 M"
proof -
  have K: "0 < rounds_of n" using assms(2) by (simp add: rounds_of_less)
  have "scatter_inv buf nb root n (M root) (rounds_of n) M"
    unfolding scatter_inv_def
  proof (intro allI impI)
    fix r assume r: "r < n" "2 ^ rounds_of n dvd rel_rank n root r"
    then have "rel_rank n root r = 0"
      using rel_less [OF assms(1) r(1)] rounds_of_le [of n] by (meson dvd_imp_le le_trans not_le not_gr_zero)
    then have "r = root" using assms(1) r(1) by (auto simp: rel_rank_def split: if_splits)
    then show "same_bytes (M r) (M root) buf (rel_rank n root r * blk n nb)
        (min nb ((rel_rank n root r + 2 ^ rounds_of n) * blk n nb))" by (simp add: same_bytes_def)
  qed
  with K show ?thesis by (simp add: sra_inv_def untouched_def)
qed

lemma sra_inv_step:
  assumes "root < n" and "k < rounds_of n + (n - 1)" and "sra_inv buf nb root n M0 k M"
  shows "sra_inv buf nb root n M0 (Suc k) (round_mem f (sra_bcast_seg buf nb root n k) M)"
proof (cases "k < rounds_of n")
  case True
  let ?k = "rounds_of n - 1 - k"
  have k: "Suc ?k = rounds_of n - k" "rounds_of n - Suc k = ?k" using True by auto
  have seg: "sra_bcast_seg buf nb root n k = scatter_seg buf nb root n ?k"
    using True by (simp only: sra_seg_cases if_True)
  from assms(3) True have inv: "scatter_inv buf nb root n (M0 root) (Suc ?k) M" "untouched n (buf, nb) M0 M"
    unfolding k(1) by (simp_all only: sra_inv_def if_True)
  note st = scatter_inv_step [OF assms(1) inv(1), of f] scatter_untouched [OF assms(1) inv(2), of f ?k]
  show ?thesis
  proof (cases "Suc k < rounds_of n")
    case True
    with st show ?thesis unfolding sra_inv_def seg k(2) by (simp only: if_True simp_thms)
  next
    case False
    with True have z: "Suc k - rounds_of n = 0" "?k = 0" by auto
    from False st scatter_inv_0 show ?thesis unfolding sra_inv_def seg z by (simp only: if_False simp_thms)
  qed
next
  case False
  let ?i = "k - rounds_of n"
  have i: "Suc ?i < n" "Suc k - rounds_of n = Suc ?i" "\<not> Suc k < rounds_of n" using assms(2) False by auto
  have seg: "sra_bcast_seg buf nb root n k = bcast_ring_seg buf nb root n ?i"
    using False by (simp only: sra_seg_cases if_False)
  from assms(3) False have inv: "ring_inv buf nb root n (M0 root) ?i M" "untouched n (buf, nb) M0 M"
    by (simp_all only: sra_inv_def if_False)
  from ring_inv_step [OF assms(1) i(1) inv(1), of f] ring_untouched [OF assms(1) i(1) inv(2), of f] i(3)
  show ?thesis unfolding sra_inv_def seg i(2) by (simp only: if_False simp_thms)
qed

section \<open>Correctness\<close>

lemma rank_of_rel:
  assumes "root < n" and "p < n"
  obtains q where "q < n" "rel_rank n root q = p"
proof -
  have "rel_rank n root root = 0" by (simp add: rel_rank_def)
  with rel_shift [OF assms(1) assms(1), of p] assms(2) have "rel_rank n root ((root + p) mod n) = p" by simp
  with that [of "(root + p) mod n"] assms show thesis by simp
qed

lemma ring_inv_all:
  assumes "root < n" and "r < n" and "ring_inv buf nb root n D (n - 1) M"
  shows "same_bytes (M r) D buf 0 nb"
  unfolding same_bytes_def
proof (intro allI impI)
  fix i assume i: "i < nb"
  have n: "0 < n" using assms(1) by simp
  have b: "0 < blk n nb" using blk_cover [OF n, of nb] i by (cases "blk n nb") auto
  let ?p = "i div blk n nb"
  have "i < n * blk n nb" using i blk_cover [OF n, of nb] by simp
  then have "?p < n" by (rule less_mult_imp_div_less)
  then obtain q where q: "q < n" "rel_rank n root q = ?p" using rank_of_rel [OF assms(1)] by blast
  let ?e = "(r + n - q) mod n"
  have "?e < n" using n by simp
  then have e: "?e \<le> n - 1" by simp
  have eq: "(r + n - ?e) mod n = q" by (rule mod_shift_diff [OF assms(2) q(1)])
  have "same_bytes (M r) D buf (?p * blk n nb) (min nb ((?p + 1) * blk n nb))"
    by (rule ring_invD [OF assms(3,2) e]) (simp only: eq q(2))
  moreover have "?p * blk n nb \<le> i" by (rule div_times_less_eq_dividend)
  moreover have "i < (?p + 1) * blk n nb" using dividend_less_div_times [OF b, of i] by (simp add: algebra_simps)
  ultimately show "M r (loc_add buf i) = D (loc_add buf i)" using i unfolding same_bytes_def by auto
qed

lemma sra_round_phase: "one_phase (sra_bcast_round buf nb root n k r) \<and>
    (sra_bcast_round buf nb root n k r = [] \<or> ends_barrier (sra_bcast_round buf nb root n k r))"
  by (auto simp: sra_bcast_round_def scatter_round_def bcast_ring_round_def Let_def one_phase_def ends_barrier_def)

lemma blk_disj: "p \<noteq> p' \<Longrightarrow> rng_disj (loc_add buf (p * blk n nb), blk_count n nb p) (loc_add buf (p' * blk n nb), blk_count n nb p')"
proof -
  have *: "p * blk n nb + blk_count n nb p \<le> p' * blk n nb" if "p < p'" for p p'
  proof -
    have "p * blk n nb + blk_count n nb p \<le> (p + 1) * blk n nb" by (simp add: blk_count_def)
    also have "\<dots> \<le> p' * blk n nb" using that by (intro mult_le_mono1) simp
    finally show ?thesis .
  qed
  assume "p \<noteq> p'"
  then show ?thesis using * [of p p'] * [of p' p] by (auto simp: rng_disj_def loc_add_def neq_iff)
qed

lemma sra_safe:
  assumes "root < n" and "r < n" and "k < rounds_of n + (n - 1)"
  shows "safe_phase (map fst (sra_bcast_round buf nb root n k r))"
proof (cases "k < rounds_of n")
  case True
  then show ?thesis
    by (auto simp: sra_bcast_round_def scatter_round_def Let_def safe_phase_def op_size_ok_def)
next
  case False
  define i where "i = k - rounds_of n"
  have i: "Suc i < n" using False assms(3) by (auto simp: i_def)
  have "r + n - i = (r + n - Suc i) + 1" using i by simp
  then have "(r + n - i) mod n \<noteq> (r + n - Suc i) mod n"
    using shift_inj [of 1 n 0 "r + n - Suc i"] i by auto
  then have ne: "rel_rank n root ((r + n - i) mod n) \<noteq> rel_rank n root ((r + n - Suc i) mod n)"
    using rel_inj [OF assms(1), of "(r + n - i) mod n" "(r + n - Suc i) mod n"] assms(2) by auto
  have "map fst (sra_bcast_round buf nb root n k r) = map fst (bcast_ring_round buf nb root n i r)"
    using False by (simp add: sra_bcast_round_def i_def)
  then show ?thesis
    using blk_disj [OF ne, of buf n nb] rng_disj_sym
    by (auto simp: bcast_ring_round_def Let_def safe_phase_def op_size_ok_def ops_disj_def rngs_disj_def)
qed

lemma sra_is_round:
  assumes "root < n" and "k < rounds_of n + (n - 1)"
  shows "is_round n (sra_bcast_seg buf nb root n k)"
proof (cases "k < rounds_of n")
  case True
  with scatter_comm_round [OF assms(1)] show ?thesis by (simp only: sra_seg_cases if_True is_round_def simp_thms)
next
  case False
  then have "Suc (k - rounds_of n) < n" using assms(2) by simp
  with False bcast_ring_comm_round [OF assms(1)] show ?thesis
    by (simp only: sra_seg_cases if_False is_round_def simp_thms)
qed

lemma sra_bcast_run:
  assumes "fifo_transport T" and "bytes_fit n (ds * cnt)" and "root < n"
  shows "coll_correct T f (coll_start T n (sra_bcast_entries buf cnt ds root n) M)
    (\<lambda>M'. (\<forall>r < n. same_bytes (M' r) (M root) buf 0 (ds * cnt)) \<and> untouched n (buf, ds * cnt) M M')"
proof (rule fifo_transport.rounds_invariant [OF assms(1), where K = "rounds_of n + (n - 1)" and
      E = "sra_bcast_round buf (ds * cnt) root n" and seg = "sra_bcast_seg buf (ds * cnt) root n" and
      I = "sra_inv buf (ds * cnt) root n M"])
  have n: "2 \<le> n" using assms(2) by (simp add: bytes_fit_def)
  show "race_free f (coll_start T n (sra_bcast_entries buf cnt ds root n) M)"
    by (rule race_free_barriers) (rule sra_bcast_entries_rounds [OF assms(2,3)] sra_round_phase sra_safe [OF assms(3)]; assumption)+
  show "sra_inv buf (ds * cnt) root n M 0 M" by (rule sra_inv_init [OF assms(3) n])
  fix M' assume "sra_inv buf (ds * cnt) root n M (rounds_of n + (n - 1)) M'"
  then have "ring_inv buf (ds * cnt) root n (M root) (n - 1) M'" "untouched n (buf, ds * cnt) M M'"
    by (simp_all add: sra_inv_def)
  then show "(\<forall>r < n. same_bytes (M' r) (M root) buf 0 (ds * cnt)) \<and> untouched n (buf, ds * cnt) M M'"
    using ring_inv_all [OF assms(3)] by blast
qed (use assms(3) in \<open>auto simp: sra_bcast_entries_rounds [OF assms(2,3)] sra_round_phase sra_bcast_seg_def
      intro: sra_is_round sra_inv_step\<close>)

text \<open>
  C6: scatter followed by the ring allgather is a broadcast: in every interleaving of the ranks
  each rank ends with the root's bytes in its buffer, and nothing outside the
  buffers changes. The byte count plus the number of ranks has to fit a 32-bit \<^verbatim>\<open>int\<close>.
\<close>

theorem scatter_ring_allgather_bcast_correct:
  assumes "fifo_transport T" and "bytes_fit n (ds * cnt)" and "root < n"
  shows "coll_correct T f (coll_start T n (sra_bcast_entries buf cnt ds root n) M)
    (\<lambda>M'. (\<forall>r < n. same_bytes (M' r) (M root) buf 0 (ds * cnt)) \<and> untouched n (buf, ds * cnt) M M')"
  by (rule sra_bcast_run [OF assms])

lemma scatter_ring_allgather_bcast_correct_witness:
  "bytes_fit 5 (2 * 7) \<and>
   coll_correct queue_transport (+) (coll_start queue_transport 5 (sra_bcast_entries (1, 0) 7 2 3 5) (\<lambda>r a. r + snd a))
     (\<lambda>M'. (\<forall>r < 5. same_bytes (M' r) (\<lambda>a. 3 + snd a :: nat) (1, 0) 0 (2 * 7)) \<and>
           untouched 5 ((1, 0), 2 * 7) (\<lambda>r a. r + snd a) M')"
  using scatter_ring_allgather_bcast_correct [OF queues.fifo_transport_axioms, of 5 2 7 3 "(+)" "(1, 0)" "\<lambda>r a. r + snd a"]
  by (simp add: bytes_fit_def)

text \<open>
  C21: the byte count is kept in an \<^verbatim>\<open>int\<close>. When it is a multiple of 4 GiB, the algorithm completes
  without moving any data: no buffer but the root's has the root's elements.
\<close>

theorem scatter_ring_allgather_bcast_wraps:
  assumes "fifo_transport T" and "2 \<le> n" and "n < 2 ^ 31" and "root < n" and "(ds * cnt) mod 2 ^ 32 = 0"
  shows "coll_correct T f (coll_start T n (sra_bcast_entries buf cnt ds root n) M) (\<lambda>M'. M' = M)"
proof -
  have "int32 (int ds * int cnt) = 0"
  proof -
    have "(2::nat) ^ 32 dvd ds * cnt" using assms(5) by (simp add: mod_eq_0_iff_dvd)
    then have "int (2 ^ 32) dvd int (ds * cnt)" by (simp only: int_dvd_int_iff)
    then have "take_bit 32 (int ds * int cnt) = 0" by (simp add: take_bit_eq_0_iff)
    then have "signed_take_bit 31 (int ds * int cnt) = signed_take_bit 31 0"
      using signed_take_bit_take_bit [of 31 32 "int ds * int cnt"] by simp
    then show ?thesis by (simp add: int32_def)
  qed
  moreover have "int32 (int ds * int 0) = 0" by (simp add: int32_def)
  ultimately have eq: "sra_bcast_entries buf cnt ds root n = sra_bcast_entries buf 0 ds root n"
    by (intro ext) (simp only: sra_bcast_entries_def ccl_coll_build_scatter_ring_allgather_bcast_def)
  have "bytes_fit n (ds * 0)" using assms(2,3) by (simp add: bytes_fit_def)
  from sra_bcast_run [OF assms(1) this assms(4)]
  have "coll_correct T f (coll_start T n (sra_bcast_entries buf cnt ds root n) M)
    (\<lambda>M'. (\<forall>r < n. same_bytes (M' r) (M root) buf 0 (ds * 0)) \<and> untouched n (buf, ds * 0) M M')"
    unfolding eq .
  moreover have "M' = M" if "untouched n (buf, ds * 0) M M'" for M'
    using untouchedD [OF that] by (intro ext) (simp add: in_rng_def)
  ultimately show ?thesis unfolding coll_correct_def by blast
qed

lemma wrap_arith: "(2::nat) \<le> 2" "(2::nat) < 2 ^ 31" "(0::nat) < 2" "(4 * 2 ^ 30) mod 2 ^ 32 = (0::nat)"
  by simp_all

lemma scatter_ring_allgather_bcast_wraps_witness:
  "(4 * 2 ^ 30) mod 2 ^ 32 = (0::nat) \<and>
   coll_correct queue_transport (+) (coll_start queue_transport 2 (sra_bcast_entries (1, 0) (2 ^ 30) 4 0 2) (\<lambda>r a. r))
     (\<lambda>M'. M' = (\<lambda>r a. r))"
  by (intro conjI wrap_arith(4) scatter_ring_allgather_bcast_wraps [OF queues.fifo_transport_axioms wrap_arith])

end
