(* ===== verification/CollRing.thy ===== *)
theory CollRing
  imports CollBuild CollOrder
begin

text \<open>
  The ring allgather as a building block: \<open>n\<close> blocks, of which rank \<open>r\<close> has its own at the start;
  in each round a rank passes on the block it got in the round before to its right neighbour.
  The blocks of a rank are at the locations \<open>L r j\<close> and have \<open>C j\<close> elements; blocks
  without elements are neither sent nor received. Used by the allgatherv and allreduce algorithms.
\<close>

section \<open>Entries before a barrier\<close>

definition with_barrier :: "sched_op list \<Rightarrow> (sched_op \<times> bool) list" where
  "with_barrier xs = (if xs = [] then [] else map (\<lambda>x. (x, False)) (butlast xs) @ [(last xs, True)])"

definition barrier_set :: "(sched_op \<times> bool) list \<Rightarrow> bool" where
  "barrier_set es \<longleftrightarrow> es = [] \<or> snd (last es)"

lemma with_barrier_ops: "map fst (with_barrier xs) = xs"
  by (simp add: with_barrier_def comp_def)

lemma with_barrier_phase: "one_phase (with_barrier xs) \<and> (with_barrier xs = [] \<or> ends_barrier (with_barrier xs))"
  by (auto simp: with_barrier_def one_phase_def ends_barrier_def)

lemma with_barrier_simps [simp]:
  "with_barrier [] = []" "with_barrier [x] = [(x, True)]" "with_barrier [x, y] = [(x, False), (y, True)]"
  by (simp_all add: with_barrier_def)

lemma ops_barrier_set: "barrier_set (ops s) \<Longrightarrow> ops (barrier_here s) = ops s"
proof (cases "ops s = []")
  case False
  assume "barrier_set (ops s)"
  with False have "last (ops s) = (fst (last (ops s)), True)"
    by (cases "last (ops s)") (auto simp: barrier_set_def)
  then have "butlast (ops s) @ [(fst (last (ops s)), True)] = ops s"
    using False by (metis append_butlast_last_id)
  with False show ?thesis by (simp add: barrier_here_def)
qed (simp add: barrier_here_def)

lemma barrier_set_with_barrier: "barrier_set es \<Longrightarrow> barrier_set (es @ with_barrier xs)"
  by (auto simp: barrier_set_def with_barrier_def)

section \<open>The rounds\<close>

definition ring_seg ::
    "(rank \<Rightarrow> nat \<Rightarrow> loc) \<Rightarrow> (nat \<Rightarrow> nat) \<Rightarrow> nat \<Rightarrow> nat \<Rightarrow> nat \<Rightarrow> rank \<Rightarrow> sched_op list" where
  "ring_seg L C ds n i r =
     (if r < n then
        let sb = (r + n - i) mod n; rb = (r + n - Suc i) mod n in
        (if 0 < C sb then [Send (L r sb) (C sb) ds ((r + 1) mod n)] else []) @
        (if 0 < C rb then [Recv (L r rb) (C rb) ds ((r + n - 1) mod n)] else [])
      else [])"

lemma left_block:
  assumes "Suc i < n" and "r < n"
  shows "((r + n - 1) mod n + n - i) mod n = (r + n - Suc i) mod n"
proof -
  let ?s = "(r + n - 1) mod n"
  have "(?s + n - i) mod n = (?s + (n - i)) mod n" using assms(1) by simp
  also have "\<dots> = (r + n - 1 + (n - i)) mod n" by (rule mod_add_left_eq)
  also have "r + n - 1 + (n - i) = (r + n - Suc i) + n" using assms(1) by simp
  finally show ?thesis by simp
qed

lemma ring_sends:
  "sends_to (ring_seg L C ds n i) s d =
     (if s < n \<and> d = (s + 1) mod n \<and> 0 < C ((s + n - i) mod n)
      then [Send (L s ((s + n - i) mod n)) (C ((s + n - i) mod n)) ds d] else [])"
  by (auto simp: sends_to_def ring_seg_def Let_def)

lemma ring_comm_round:
  assumes "Suc i < n"
  shows "comm_round n (ring_seg L C ds n i)"
proof (rule comm_roundI [OF _ _ ring_sends])
  fix s d
  have iff: "s < n \<and> d = (s + 1) mod n \<longleftrightarrow> d < n \<and> s = (d + n - 1) mod n"
    using mod_shift [of d n 1] mod_shift' [of s n 1] assms by auto
  have "s < n \<and> d = (s + 1) mod n \<and> 0 < C ((s + n - i) mod n) \<longleftrightarrow>
      d < n \<and> s = (d + n - 1) mod n \<and> 0 < C ((d + n - Suc i) mod n)"
    using iff left_block [OF assms, of d] by auto
  then show "recvs_from (ring_seg L C ds n i) d s =
    (if s < n \<and> d = (s + 1) mod n \<and> 0 < C ((s + n - i) mod n)
     then [Recv (L d ((s + n - i) mod n)) (C ((s + n - i) mod n)) ds s] else [])"
    using left_block [OF assms, of d] by (auto simp: recvs_from_def ring_seg_def Let_def)
qed (auto simp: ring_seg_def Let_def is_local_def msg_fits_def split: if_splits)

lemma ring_round_mem:
  assumes "Suc i < n" and "r < n" and "b = (r + n - Suc i) mod n"
  shows "round_mem f (ring_seg L C ds n i) M r =
    (if 0 < C b then write_cells (M r) (L r b) ds (read_cells (M ((r + n - 1) mod n)) (L ((r + n - 1) mod n) b) (C b) ds)
     else M r)"
proof -
  let ?s = "(r + n - 1) mod n"
  have s: "?s < n" "(?s + 1) mod n = r" using mod_shift [of r n 1] assms(1,2) by auto
  have "inbox (ring_seg L C ds n i) M ?s r = (if 0 < C b then read_cells (M ?s) (L ?s b) (C b) ds else [])"
    unfolding inbox_def ring_sends using s left_block [OF assms(1,2)] assms(3) by auto
  with assms(2,3) show ?thesis by (auto simp: round_mem_def ring_seg_def Let_def recv_vals_def)
qed

section \<open>The invariant\<close>

definition blocks_disj :: "(rank \<Rightarrow> nat \<Rightarrow> loc) \<Rightarrow> (nat \<Rightarrow> nat) \<Rightarrow> nat \<Rightarrow> nat \<Rightarrow> bool" where
  "blocks_disj L C ds n \<longleftrightarrow>
     (\<forall>r < n. \<forall>i < n. \<forall>j < n. i \<noteq> j \<longrightarrow> rng_disj (L r i, C i * ds) (L r j, C j * ds))"

definition has_block ::
    "(rank \<Rightarrow> nat \<Rightarrow> loc) \<Rightarrow> (nat \<Rightarrow> nat) \<Rightarrow> nat \<Rightarrow> (nat \<Rightarrow> 'v list) \<Rightarrow> (rank \<Rightarrow> 'v mem) \<Rightarrow> rank \<Rightarrow> nat \<Rightarrow> bool" where
  "has_block L C ds D M r j \<longleftrightarrow> read_cells (M r) (L r j) (C j) ds = D j"

definition ring_has ::
    "(rank \<Rightarrow> nat \<Rightarrow> loc) \<Rightarrow> (nat \<Rightarrow> nat) \<Rightarrow> nat \<Rightarrow> nat \<Rightarrow> (nat \<Rightarrow> 'v list) \<Rightarrow> nat \<Rightarrow> (rank \<Rightarrow> 'v mem) \<Rightarrow> bool" where
  "ring_has L C ds n D i M \<longleftrightarrow> (\<forall>r < n. \<forall>e \<le> i. has_block L C ds D M r ((r + n - e) mod n))"

lemma ring_has_step:
  assumes "0 < ds" and "Suc i < n" and "blocks_disj L C ds n" and inv: "ring_has L C ds n D i M"
  shows "ring_has L C ds n D (Suc i) (round_mem f (ring_seg L C ds n i) M)"
  unfolding ring_has_def
proof (intro allI impI)
  fix r e assume r: "r < n" and e: "e \<le> Suc i"
  define b where "b = (r + n - Suc i) mod n"
  let ?s = "(r + n - 1) mod n" and ?j = "(r + n - e) mod n" and ?M = "round_mem f (ring_seg L C ds n i) M"
  note mem = ring_round_mem [OF assms(2) r b_def, of f L C ds M]
  have n: "?s < n" "?j < n" "b < n" using r by (auto simp: b_def)
  have "has_block L C ds D M ?s ((?s + n - i) mod n)" using inv n(1) by (auto simp: ring_has_def)
  then have src: "read_cells (M ?s) (L ?s b) (C b) ds = D b"
    unfolding has_block_def left_block [OF assms(2) r] b_def .
  show "has_block L C ds D ?M r ?j"
  proof (cases "?j = b")
    case True
    show ?thesis
    proof (cases "0 < C b")
      case True
      then show ?thesis using \<open>?j = b\<close> src assms(1) by (simp add: has_block_def mem flip: src)
    next
      case False
      then show ?thesis using \<open>?j = b\<close> src by (simp add: has_block_def mem read_cells_def)
    qed
  next
    case False
    then have "e \<noteq> Suc i" by (auto simp: b_def)
    with e inv r have old: "has_block L C ds D M r ?j" by (auto simp: ring_has_def)
    have "rng_disj (L r b, C b * ds) (L r ?j, C ?j * ds)"
      using assms(3) r n False by (auto simp: blocks_disj_def)
    then have "read_cells (?M r) (L r ?j) (C ?j) ds = read_cells (M r) (L r ?j) (C ?j) ds"
      using assms(1) by (auto simp: mem intro!: read_write_other)
    with old show ?thesis by (simp add: has_block_def)
  qed
qed

lemma ring_has_all:
  assumes "ring_has L C ds n D (n - 1) M" and "r < n" and "j < n"
  shows "has_block L C ds D M r j"
proof -
  have "(r + n - j) mod n < n" using assms(2) by simp
  then have "(r + n - j) mod n \<le> n - 1" by simp
  with assms(1,2) have "has_block L C ds D M r ((r + n - (r + n - j) mod n) mod n)"
    by (simp add: ring_has_def)
  then show ?thesis by (simp only: mod_shift_diff [OF assms(2,3)])
qed

lemma ring_safe:
  assumes "0 < ds" and "Suc i < n" and "blocks_disj L C ds n" and "r < n"
  shows "safe_phase (ring_seg L C ds n i r)"
proof -
  let ?a = "(r + n - i) mod n" and ?b = "(r + n - Suc i) mod n"
  have "r + n - i = (r + n - Suc i) + 1" using assms(2) by simp
  then have "?a \<noteq> ?b" using shift_inj [of 1 n 0 "r + n - Suc i"] assms(2) by auto
  then have "rng_disj (L r ?b, C ?b * ds) (L r ?a, C ?a * ds)"
    using assms(3,4) by (auto simp: blocks_disj_def)
  with assms(1) show ?thesis
    by (auto simp: ring_seg_def Let_def safe_phase_def op_size_ok_def ops_disj_def rngs_disj_def)
qed

text \<open>Cells outside the blocks keep their values.\<close>

lemma ring_frame:
  assumes "0 < ds" and "Suc i < n" and "n \<le> r \<or> (\<forall>j < n. \<not> in_rng (L r j, C j * ds) a)"
  shows "round_mem f (ring_seg L C ds n i) M r a = M r a"
proof (cases "r < n")
  case True
  define b where "b = (r + n - Suc i) mod n"
  have "b < n" using True by (simp add: b_def)
  with assms(3) True have "\<not> in_rng (L r b, C b * ds) a" by auto
  with assms(1) show ?thesis
    by (auto simp: ring_round_mem [OF assms(2) True b_def] intro!: write_cells_outside)
qed (simp add: round_mem_def ring_seg_def)

end
