(* ===== verification/CollAllgatherv.thy ===== *)
theory CollAllgatherv
  imports CollRing
begin

text \<open>
  Allgatherv (\<^verbatim>\<open>src/src/coll/algorithms/allgatherv/allgatherv.cpp\<close>): the naive and the ring algorithm,
  and the in-place test of \<^verbatim>\<open>src/src/coll/coll_util.cpp\<close>. The ring is modelled for the call with
  one schedule (\<^verbatim>\<open>main_sched\<close> null), where the loops over the schedules run once and the whole block
  goes to the one schedule. A null send buffer is \<open>None\<close>.
\<close>

section \<open>In place or not\<close>

text \<open>
  Pointers into different buffers never alias. \<open>check\<close> is \<^verbatim>\<open>env().check_inplace_aliasing\<close>.
\<close>

definition is_allgatherv_inplace ::
    "bool \<Rightarrow> loc option \<Rightarrow> nat \<Rightarrow> loc \<Rightarrow> nat list \<Rightarrow> nat list option \<Rightarrow> nat \<Rightarrow> rank \<Rightarrow> nat \<Rightarrow> bool result" where
  "is_allgatherv_inplace check send_buf send_count recv_buf recv_counts recv_offsets dtype_size rank comm_size =
     (let total_recv_buf_count = sum_list (take comm_size recv_counts);
          curr_recv_buf_offset_count = sum_list (take rank recv_counts);
          recv_buf_size = total_recv_buf_count * dtype_size;
          address_aliasing =
            (case send_buf of None \<Rightarrow> False
             | Some b \<Rightarrow> fst b = fst recv_buf \<and> snd recv_buf \<le> snd b \<and> snd b < snd recv_buf + recv_buf_size);
          curr_recv_buf_offset =
            (case recv_offsets of Some offs \<Rightarrow> offs ! rank | None \<Rightarrow> curr_recv_buf_offset_count * dtype_size);
          curr_recv_buf = loc_add recv_buf curr_recv_buf_offset;
          inplace = (send_buf = None \<or> send_buf = Some curr_recv_buf)
      in throw_if_not (send_count = recv_counts ! rank) ''send_count expected to be equal to recv_counts[my_rank]''
           (if address_aliasing \<and> \<not> inplace \<and> check
            then Inl (CclThrow ''using allgatherv with a send_buf that is not in-place but that overlaps with recv_buf'')
            else Inr inplace))"

section \<open>The builders\<close>

primrec ag_offsets :: "nat \<Rightarrow> nat \<Rightarrow> nat list \<Rightarrow> nat list" where
  "ag_offsets acc dtype_size [] = []"
| "ag_offsets acc dtype_size (c # cs) = acc # ag_offsets (acc + c * dtype_size) dtype_size cs"

definition naive_allgatherv_body ::
    "loc \<Rightarrow> nat \<Rightarrow> nat list \<Rightarrow> nat list \<Rightarrow> nat \<Rightarrow> nat \<Rightarrow> rank \<Rightarrow> nat \<Rightarrow> builder \<Rightarrow> builder" where
  "naive_allgatherv_body recv_buf send_count recv_counts offsets ds comm_size comm_rank idx s =
     (let dst = (comm_rank + idx) mod comm_size;
          src = (comm_rank + comm_size - idx) mod comm_size;
          s1 = (if send_count > 0
                then create (Send (loc_add recv_buf (offsets ! comm_rank)) send_count ds dst) s else s)
      in if recv_counts ! src > 0
         then create (Recv (loc_add recv_buf (offsets ! src)) (recv_counts ! src) ds src) s1 else s1)"

definition ccl_coll_build_naive_allgatherv ::
    "bool \<Rightarrow> loc option \<Rightarrow> nat \<Rightarrow> loc \<Rightarrow> nat list \<Rightarrow> nat \<Rightarrow> nat \<Rightarrow> rank \<Rightarrow> builder \<Rightarrow> builder result" where
  "ccl_coll_build_naive_allgatherv check send_buf send_count recv_buf recv_counts ds comm_size comm_rank s =
     throw_if_not (recv_counts ! comm_rank = send_count) ''unexpected send count''
       (let offsets = ag_offsets 0 ds recv_counts in
        rbind (is_allgatherv_inplace check send_buf send_count recv_buf recv_counts (Some offsets) ds comm_rank comm_size)
          (\<lambda>is_inplace.
             let s1 = (if \<not> is_inplace \<and> send_count > 0
                       then create (Copy (the send_buf) (loc_add recv_buf (offsets ! comm_rank)) send_count ds) s
                       else s)
             in Inr (fold (naive_allgatherv_body recv_buf send_count recv_counts offsets ds comm_size comm_rank)
                       [1..<comm_size] s1)))"

definition ring_allgatherv_body ::
    "loc \<Rightarrow> nat list \<Rightarrow> nat list \<Rightarrow> nat \<Rightarrow> nat \<Rightarrow> rank \<Rightarrow> nat \<Rightarrow> builder \<Rightarrow> builder" where
  "ring_allgatherv_body recv_buf recv_counts offsets ds comm_size rank block_idx s =
     (let src = (comm_size + rank - 1) mod comm_size;
          dst = (comm_size + rank + 1) mod comm_size;
          send_block_idx = block_idx;
          recv_block_idx = (comm_size + block_idx - 1) mod comm_size;
          send_block_count = recv_counts ! send_block_idx;
          recv_block_count = recv_counts ! recv_block_idx;
          sbuf = loc_add recv_buf (offsets ! send_block_idx);
          rbuf = loc_add recv_buf (offsets ! recv_block_idx);
          s1 = (if send_block_count > 0 then create (Send sbuf send_block_count ds dst) s else s);
          s2 = (if recv_block_count > 0 then create (Recv rbuf recv_block_count ds src) s1 else s1)
      in barrier_here s2)"

text \<open>The loop, with the number of iterations that remain.\<close>

fun ring_allgatherv_loop ::
    "loc \<Rightarrow> nat list \<Rightarrow> nat list \<Rightarrow> nat \<Rightarrow> nat \<Rightarrow> rank \<Rightarrow> nat \<Rightarrow> nat \<Rightarrow> builder \<Rightarrow> builder" where
  "ring_allgatherv_loop recv_buf recv_counts offsets ds comm_size rank 0 block_idx s = s"
| "ring_allgatherv_loop recv_buf recv_counts offsets ds comm_size rank (Suc k) block_idx s =
     ring_allgatherv_loop recv_buf recv_counts offsets ds comm_size rank k
       ((comm_size + block_idx - 1) mod comm_size)
       (ring_allgatherv_body recv_buf recv_counts offsets ds comm_size rank block_idx s)"

definition ccl_coll_build_ring_allgatherv ::
    "bool \<Rightarrow> loc option \<Rightarrow> nat \<Rightarrow> loc \<Rightarrow> nat list \<Rightarrow> nat \<Rightarrow> nat \<Rightarrow> rank \<Rightarrow> builder \<Rightarrow> builder result" where
  "ccl_coll_build_ring_allgatherv check send_buf send_count recv_buf recv_counts ds comm_size rank s =
     throw_if_not (recv_counts ! rank = send_count) ''unexpected send count''
       (let offsets = ag_offsets 0 ds recv_counts in
        rbind (is_allgatherv_inplace check send_buf send_count recv_buf recv_counts (Some offsets) ds rank comm_size)
          (\<lambda>is_inplace.
             let s1 = (if \<not> is_inplace \<and> send_count > 0
                       then create (Copy (the send_buf) (loc_add recv_buf (offsets ! rank)) send_count ds) s
                       else s)
             in Inr (ring_allgatherv_loop recv_buf recv_counts offsets ds comm_size rank (comm_size - 1) rank s1)))"

section \<open>Offsets of the blocks\<close>

definition blk_off :: "nat \<Rightarrow> nat list \<Rightarrow> nat \<Rightarrow> nat" where
  "blk_off ds cs j = sum_list (take j cs) * ds"

lemma length_ag_offsets [simp]: "length (ag_offsets acc ds cs) = length cs"
  by (induction cs arbitrary: acc) auto

lemma nth_ag_offsets: "j < length cs \<Longrightarrow> ag_offsets acc ds cs ! j = acc + blk_off ds cs j"
proof (induction cs arbitrary: acc j)
  case (Cons c cs)
  then show ?case by (cases j) (auto simp: blk_off_def algebra_simps)
qed simp

lemma ag_offsets_0: "j < length cs \<Longrightarrow> ag_offsets 0 ds cs ! j = blk_off ds cs j"
  by (simp add: nth_ag_offsets)

lemma blk_off_Suc: "j < length cs \<Longrightarrow> blk_off ds cs (Suc j) = blk_off ds cs j + cs ! j * ds"
  by (simp add: blk_off_def take_Suc_conv_app_nth algebra_simps)

lemma blk_off_mono: "i \<le> j \<Longrightarrow> blk_off ds cs i \<le> blk_off ds cs j"
proof -
  assume "i \<le> j"
  then have "take j cs = take i cs @ take (j - i) (drop i cs)" by (metis le_add_diff_inverse take_add)
  then show ?thesis by (simp add: blk_off_def)
qed

lemma blk_off_next: "i < j \<Longrightarrow> i < length cs \<Longrightarrow> blk_off ds cs i + cs ! i * ds \<le> blk_off ds cs j"
  using blk_off_mono [of "Suc i" j ds cs] blk_off_Suc [of i cs ds] by simp

abbreviation ag_loc :: "(rank \<Rightarrow> loc) \<Rightarrow> nat \<Rightarrow> nat list \<Rightarrow> rank \<Rightarrow> nat \<Rightarrow> loc" where
  "ag_loc rb ds cs r j \<equiv> loc_add (rb r) (blk_off ds cs j)"

lemma ag_blocks_disj: "length cs = n \<Longrightarrow> blocks_disj (ag_loc rb ds cs) ((!) cs) ds n"
  unfolding blocks_disj_def
proof (intro allI impI)
  fix r i j assume len: "length cs = n" and ij: "i < n" "j < n" "i \<noteq> j"
  then consider "i < j" | "j < i" by linarith
  then show "rng_disj (ag_loc rb ds cs r i, cs ! i * ds) (ag_loc rb ds cs r j, cs ! j * ds)"
    by cases (use len ij blk_off_next [of i j cs ds] blk_off_next [of j i cs ds] in
      \<open>auto simp: rng_disj_def loc_add_def\<close>)
qed

section \<open>The entries of the ring\<close>

lemma ring_allgatherv_body_ops:
  assumes "length cs = n" and "r < n" and "Suc i < n"
    and "ring_seg (ag_loc rb ds cs) ((!) cs) ds n i r = [] \<longrightarrow> barrier_set (ops s)"
  shows "ops (ring_allgatherv_body (rb r) cs (ag_offsets 0 ds cs) ds n r ((r + n - i) mod n) s) =
    ops s @ with_barrier (ring_seg (ag_loc rb ds cs) ((!) cs) ds n i r)"
proof -
  let ?a = "(r + n - i) mod n" and ?b = "(r + n - Suc i) mod n"
  have ab: "?a < length cs" "?b < length cs" using assms(1,2) by auto
  have rb: "(n + ?a - 1) mod n = ?b"
  proof -
    have "(n + ?a - 1) mod n = (?a + (n - 1)) mod n" using assms(2) by (simp add: add.commute)
    also have "\<dots> = (r + n - i + (n - 1)) mod n" by (rule mod_add_left_eq)
    also have "r + n - i + (n - 1) = (r + n - Suc i) + n" using assms(3) by simp
    finally show ?thesis by simp
  qed
  have src: "(n + r - 1) mod n = (r + n - 1) mod n" "(n + r + 1) mod n = (r + 1) mod n"
    by (simp add: add.commute, metis add.assoc mod_add_self1)
  show ?thesis
    using assms(2,4) ops_barrier_set [of s]
    by (simp add: ring_allgatherv_body_def Let_def rb src ring_seg_def ag_offsets_0 [OF ab(1)] ag_offsets_0 [OF ab(2)]
        del: One_nat_def)
qed

lemma ring_allgatherv_loop_ops:
  assumes "length cs = n" and "r < n"
  shows "i + k = n - 1 \<Longrightarrow>
    (0 < k \<longrightarrow> ring_seg (ag_loc rb ds cs) ((!) cs) ds n i r = [] \<longrightarrow> barrier_set (ops s)) \<Longrightarrow>
    ops (ring_allgatherv_loop (rb r) cs (ag_offsets 0 ds cs) ds n r k ((r + n - i) mod n) s) =
    ops s @ concat (map (\<lambda>i. with_barrier (ring_seg (ag_loc rb ds cs) ((!) cs) ds n i r)) [i..<n - 1])"
proof (induction k arbitrary: i s)
  case (Suc k)
  let ?seg = "\<lambda>i. ring_seg (ag_loc rb ds cs) ((!) cs) ds n i r"
  let ?s = "ring_allgatherv_body (rb r) cs (ag_offsets 0 ds cs) ds n r ((r + n - i) mod n) s"
  have i: "Suc i < n" "i < n - 1" using Suc.prems(1) by auto
  have body: "ops ?s = ops s @ with_barrier (?seg i)"
    by (rule ring_allgatherv_body_ops [OF assms i(1)]) (use Suc.prems(2) in simp)
  have set: "barrier_set (ops ?s)"
    unfolding body using Suc.prems(2) by (auto simp: barrier_set_def with_barrier_def)
  have nx: "(n + (r + n - i) mod n - 1) mod n = (r + n - Suc i) mod n"
  proof -
    have "(n + (r + n - i) mod n - 1) mod n = ((r + n - i) mod n + (n - 1)) mod n" using assms(2) by (simp add: add.commute)
    also have "\<dots> = (r + n - i + (n - 1)) mod n" by (rule mod_add_left_eq)
    also have "r + n - i + (n - 1) = (r + n - Suc i) + n" using i by simp
    finally show ?thesis by simp
  qed
  have "[i..<n - 1] = i # [Suc i..<n - 1]" using i by (simp add: upt_conv_Cons)
  with Suc.IH [of "Suc i" ?s] Suc.prems(1) set body show ?case by (simp add: nx del: One_nat_def)
qed simp

section \<open>Placement of the buffers\<close>

text \<open>
  A send buffer is in place, or it is a block of its own: apart from the receive buffer.
\<close>

definition ag_src :: "loc option \<Rightarrow> loc \<Rightarrow> nat \<Rightarrow> nat list \<Rightarrow> rank \<Rightarrow> loc" where
  "ag_src send_buf recv_buf ds cs r =
     (case send_buf of None \<Rightarrow> loc_add recv_buf (blk_off ds cs r) | Some b \<Rightarrow> b)"

definition ag_placed :: "loc option \<Rightarrow> loc \<Rightarrow> nat \<Rightarrow> nat list \<Rightarrow> rank \<Rightarrow> bool" where
  "ag_placed send_buf recv_buf ds cs r \<longleftrightarrow>
     (case send_buf of
        None \<Rightarrow> True
      | Some b \<Rightarrow> b = loc_add recv_buf (blk_off ds cs r) \<or>
          fst b \<noteq> fst recv_buf \<or> snd b + cs ! r * ds \<le> snd recv_buf \<and> snd b < snd recv_buf \<or>
          snd recv_buf + blk_off ds cs (length cs) \<le> snd b)"

definition ag_inplace :: "loc option \<Rightarrow> loc \<Rightarrow> nat \<Rightarrow> nat list \<Rightarrow> rank \<Rightarrow> bool" where
  "ag_inplace send_buf recv_buf ds cs r \<longleftrightarrow>
     send_buf = None \<or> send_buf = Some (loc_add recv_buf (blk_off ds cs r))"

text \<open>The test of the code: an overlapping send buffer is refused when the check is on.\<close>

lemma is_allgatherv_inplace_eq:
  assumes "length cs = n" and "r < n" and "ag_placed send_buf recv_buf ds cs r"
  shows "is_allgatherv_inplace check send_buf (cs ! r) recv_buf cs (Some (ag_offsets 0 ds cs)) ds r n =
    Inr (ag_inplace send_buf recv_buf ds cs r)"
proof -
  have r: "r < length cs" using assms by simp
  have tot: "sum_list (take n cs) * ds = blk_off ds cs (length cs)" using assms(1) by (simp add: blk_off_def)
  show ?thesis
    using assms(3) unfolding is_allgatherv_inplace_def Let_def ag_offsets_0 [OF r] tot
    by (auto simp: ag_inplace_def ag_placed_def ag_offsets_0 [OF r] loc_add_def split: option.splits)
qed

lemma ag_placed_disj:
  assumes "length cs = n" and "r < n" and "j < n" and "ag_placed send_buf recv_buf ds cs r"
    and "\<not> ag_inplace send_buf recv_buf ds cs r"
  shows "rng_disj (the send_buf, cs ! r * ds) (loc_add recv_buf (blk_off ds cs j), cs ! j * ds)"
proof -
  have "blk_off ds cs j + cs ! j * ds \<le> blk_off ds cs (length cs)"
    by (rule blk_off_next) (use assms in auto)
  then show ?thesis
    using assms(4,5) by (auto simp: ag_placed_def ag_inplace_def rng_disj_def loc_add_def split: option.splits)
qed

section \<open>The ring is correct\<close>

definition ag_copy :: "loc option \<Rightarrow> loc \<Rightarrow> nat \<Rightarrow> nat list \<Rightarrow> rank \<Rightarrow> sched_op list" where
  "ag_copy send_buf recv_buf ds cs r =
     (if \<not> ag_inplace send_buf recv_buf ds cs r \<and> 0 < cs ! r
      then [Copy (the send_buf) (loc_add recv_buf (blk_off ds cs r)) (cs ! r) ds] else [])"

lemma ring_allgatherv_ops:
  assumes "length cs = n" and "r < n" and "ag_placed (sb r) (rb r) ds cs r" and "barrier_set (ops s)"
  obtains s' where
    "ccl_coll_build_ring_allgatherv check (sb r) (cs ! r) (rb r) cs ds n r s = Inr s'"
    "ops s' = ops s @ map (\<lambda>x. (x, False)) (ag_copy (sb r) (rb r) ds cs r) @
       concat (map (\<lambda>i. with_barrier (ring_seg (ag_loc rb ds cs) ((!) cs) ds n i r)) [0..<n - 1])"
    "next_buf s' = next_buf s"
proof -
  let ?s = "if \<not> ag_inplace (sb r) (rb r) ds cs r \<and> 0 < cs ! r
    then create (Copy (the (sb r)) (loc_add (rb r) (blk_off ds cs r)) (cs ! r) ds) s else s"
  let ?s' = "ring_allgatherv_loop (rb r) cs (ag_offsets 0 ds cs) ds n r (n - 1) r ?s"
  have r: "r < length cs" using assms(1,2) by simp
  have build: "ccl_coll_build_ring_allgatherv check (sb r) (cs ! r) (rb r) cs ds n r s = Inr ?s'"
    by (simp add: ccl_coll_build_ring_allgatherv_def Let_def is_allgatherv_inplace_eq [OF assms(1-3)]
        ag_offsets_0 [OF r])
  have seg: "ring_seg (ag_loc rb ds cs) ((!) cs) ds n 0 r \<noteq> []" if "0 < cs ! r"
    using that assms(2) by (simp add: ring_seg_def Let_def)
  have "ops ?s' = ops ?s @ concat (map (\<lambda>i. with_barrier (ring_seg (ag_loc rb ds cs) ((!) cs) ds n i r)) [0..<n - 1])"
    using ring_allgatherv_loop_ops [OF assms(1,2), of 0 "n - 1" rb ds ?s] seg assms(2,4) by auto
  moreover have "next_buf (ring_allgatherv_loop a b c d e f k g s) = next_buf s" for a b c d e f k g s
    by (induction k arbitrary: g s) (auto simp: ring_allgatherv_body_def Let_def)
  ultimately show thesis using that [OF build] by (simp add: ag_copy_def)
qed

definition ring_allgatherv_entries ::
    "bool \<Rightarrow> (rank \<Rightarrow> loc option) \<Rightarrow> (rank \<Rightarrow> loc) \<Rightarrow> nat list \<Rightarrow> nat \<Rightarrow> nat \<Rightarrow> rank \<Rightarrow> (sched_op \<times> bool) list" where
  "ring_allgatherv_entries check sb rb cs ds n r =
     ops (projr (ccl_coll_build_ring_allgatherv check (sb r) (cs ! r) (rb r) cs ds n r (new_builder 0)))"

text \<open>The rounds: the copies of the ranks that are not in place, then the rounds of the ring.\<close>

definition ring_ag_round ::
    "(rank \<Rightarrow> loc option) \<Rightarrow> (rank \<Rightarrow> loc) \<Rightarrow> nat list \<Rightarrow> nat \<Rightarrow> nat \<Rightarrow> nat \<Rightarrow> rank \<Rightarrow> (sched_op \<times> bool) list" where
  "ring_ag_round sb rb cs ds n k r =
     (case k of 0 \<Rightarrow> map (\<lambda>x. (x, False)) (ag_copy (sb r) (rb r) ds cs r)
      | Suc i \<Rightarrow> with_barrier (ring_seg (ag_loc rb ds cs) ((!) cs) ds n i r))"

definition ring_ag_seg ::
    "(rank \<Rightarrow> loc option) \<Rightarrow> (rank \<Rightarrow> loc) \<Rightarrow> nat list \<Rightarrow> nat \<Rightarrow> nat \<Rightarrow> nat \<Rightarrow> rank \<Rightarrow> sched_op list" where
  "ring_ag_seg sb rb cs ds n k r =
     (case k of 0 \<Rightarrow> if r < n then ag_copy (sb r) (rb r) ds cs r else []
      | Suc i \<Rightarrow> ring_seg (ag_loc rb ds cs) ((!) cs) ds n i r)"

lemma ring_ag_entries:
  assumes "length cs = n" and "r < n" and "ag_placed (sb r) (rb r) ds cs r"
  shows "ring_allgatherv_entries check sb rb cs ds n r =
    concat (map (\<lambda>k. ring_ag_round sb rb cs ds n k r) [0..<Suc (n - 1)])"
proof -
  have "map (\<lambda>k. ring_ag_round sb rb cs ds n k r) [0..<Suc (n - 1)] =
      ring_ag_round sb rb cs ds n 0 r # map (\<lambda>i. ring_ag_round sb rb cs ds n (Suc i) r) [0..<n - 1]"
    by (simp add: upt_conv_Cons map_Suc_upt [symmetric] del: upt_Suc)
  moreover obtain s' where "ccl_coll_build_ring_allgatherv check (sb r) (cs ! r) (rb r) cs ds n r (new_builder 0) = Inr s'"
    "ops s' = ops (new_builder 0) @ map (\<lambda>x. (x, False)) (ag_copy (sb r) (rb r) ds cs r) @
       concat (map (\<lambda>i. with_barrier (ring_seg (ag_loc rb ds cs) ((!) cs) ds n i r)) [0..<n - 1])"
    by (rule ring_allgatherv_ops [of cs n r sb rb ds "new_builder 0" check, OF assms])
      (auto simp: barrier_set_def new_builder_def)
  ultimately show ?thesis
    by (simp add: ring_allgatherv_entries_def ring_ag_round_def new_builder_def del: upt_Suc)
qed

text \<open>
  What an allgatherv promises: every rank has the send buffer of every rank in the block of
  that rank, and nothing outside the receive buffers changes.
\<close>

definition ag_data ::
    "(rank \<Rightarrow> loc option) \<Rightarrow> (rank \<Rightarrow> loc) \<Rightarrow> nat list \<Rightarrow> nat \<Rightarrow> (rank \<Rightarrow> 'v mem) \<Rightarrow> nat \<Rightarrow> 'v list" where
  "ag_data sb rb cs ds M j = read_cells (M j) (ag_src (sb j) (rb j) ds cs j) (cs ! j) ds"

definition ag_frame :: "(rank \<Rightarrow> loc) \<Rightarrow> nat list \<Rightarrow> nat \<Rightarrow> nat \<Rightarrow> (rank \<Rightarrow> 'v mem) \<Rightarrow> (rank \<Rightarrow> 'v mem) \<Rightarrow> bool" where
  "ag_frame rb cs ds n M M' \<longleftrightarrow>
     (\<forall>r a. n \<le> r \<or> (\<forall>j < n. \<not> in_rng (ag_loc rb ds cs r j, cs ! j * ds) a) \<longrightarrow> M' r a = M r a)"

definition allgatherv_result ::
    "(rank \<Rightarrow> loc option) \<Rightarrow> (rank \<Rightarrow> loc) \<Rightarrow> nat list \<Rightarrow> nat \<Rightarrow> nat \<Rightarrow> (rank \<Rightarrow> 'v mem) \<Rightarrow> (rank \<Rightarrow> 'v mem) \<Rightarrow> bool" where
  "allgatherv_result sb rb cs ds n M M' \<longleftrightarrow>
     (\<forall>r < n. \<forall>j < n. read_cells (M' r) (ag_loc rb ds cs r j) (cs ! j) ds = ag_data sb rb cs ds M j) \<and>
     ag_frame rb cs ds n M M'"

lemma ag_frameD:
  "ag_frame rb cs ds n M M' \<Longrightarrow> n \<le> r \<or> (\<forall>j < n. \<not> in_rng (ag_loc rb ds cs r j, cs ! j * ds) a) \<Longrightarrow> M' r a = M r a"
  unfolding ag_frame_def by blast

abbreviation ag_copy_seg :: "(rank \<Rightarrow> loc option) \<Rightarrow> (rank \<Rightarrow> loc) \<Rightarrow> nat list \<Rightarrow> nat \<Rightarrow> nat \<Rightarrow> rank \<Rightarrow> sched_op list" where
  "ag_copy_seg sb rb cs ds n r \<equiv> (if r < n then ag_copy (sb r) (rb r) ds cs r else [])"

lemma ag_copy_local_round: "local_round n (ag_copy_seg sb rb cs ds n)"
  by (auto simp: local_round_def ag_copy_def is_local_def)

lemma ag_copy_mem:
  assumes "r < n"
  shows "round_mem f (ag_copy_seg sb rb cs ds n) M r =
    (if \<not> ag_inplace (sb r) (rb r) ds cs r \<and> 0 < cs ! r
     then write_cells (M r) (ag_loc rb ds cs r r) ds (read_cells (M r) (the (sb r)) (cs ! r) ds) else M r)"
  using assms by (simp add: round_mem_def ag_copy_def)

lemma ag_copy_block:
  assumes "0 < ds" and "r < n"
  shows "read_cells (round_mem f (ag_copy_seg sb rb cs ds n) M r) (ag_loc rb ds cs r r) (cs ! r) ds = ag_data sb rb cs ds M r"
  using assms(1) unfolding ag_copy_mem [OF assms(2)] ag_data_def
  by (auto simp: ag_src_def ag_inplace_def split: option.splits)

lemma ag_copy_frame:
  assumes "0 < ds"
  shows "ag_frame rb cs ds n M (round_mem f (ag_copy_seg sb rb cs ds n) M)"
  unfolding ag_frame_def
proof (intro allI impI)
  fix r a assume a: "n \<le> r \<or> (\<forall>j < n. \<not> in_rng (ag_loc rb ds cs r j, cs ! j * ds) a)"
  show "round_mem f (ag_copy_seg sb rb cs ds n) M r a = M r a"
  proof (cases "r < n")
    case True
    with a have "\<not> in_rng (ag_loc rb ds cs r r, cs ! r * ds) a" by auto
    with assms show ?thesis by (auto simp: ag_copy_mem [OF True] intro!: write_cells_outside)
  qed (simp add: round_mem_def)
qed

lemma ag_safe_copy: "0 < ds \<Longrightarrow> \<forall>e \<in> set (map (\<lambda>x. (x, False)) (ag_copy sb rb ds cs r)). is_local (fst e) \<and> op_size_ok (fst e)"
  by (auto simp: ag_copy_def is_local_def op_size_ok_def)

lemma one_phase_unflagged: "one_phase (map (\<lambda>x. (x, False)) xs)"
  by (auto simp: one_phase_def dest: in_set_butlastD)

lemma ring_ag_safe:
  assumes "length cs = n" and "r < n" and "ag_placed (sb r) (rb r) ds cs r" and "0 < ds"
  shows "safe_entries (ring_allgatherv_entries check sb rb cs ds n r)"
proof -
  have "safe_entries (concat (map (\<lambda>i. with_barrier (ring_seg (ag_loc rb ds cs) ((!) cs) ds n i r)) [0..<n - 1]))"
    by (rule safe_entries_concat)
      (use with_barrier_phase with_barrier_ops ring_safe [OF assms(4) _ ag_blocks_disj [OF assms(1)] assms(2)] in auto)
  moreover have "ring_allgatherv_entries check sb rb cs ds n r = map (\<lambda>x. (x, False)) (ag_copy (sb r) (rb r) ds cs r) @
      concat (map (\<lambda>i. with_barrier (ring_seg (ag_loc rb ds cs) ((!) cs) ds n i r)) [0..<n - 1])"
    by (simp add: ring_ag_entries [of cs n r sb rb ds check, OF assms(1-3)] ring_ag_round_def upt_conv_Cons map_Suc_upt [symmetric] comp_def del: upt_Suc)
  ultimately show ?thesis
    using safe_entries_locals [OF one_phase_unflagged ag_safe_copy [OF assms(4)]] by metis
qed

definition ring_ag_inv ::
    "(rank \<Rightarrow> loc option) \<Rightarrow> (rank \<Rightarrow> loc) \<Rightarrow> nat list \<Rightarrow> nat \<Rightarrow> nat \<Rightarrow> (rank \<Rightarrow> 'v mem) \<Rightarrow> nat \<Rightarrow> (rank \<Rightarrow> 'v mem) \<Rightarrow> bool" where
  "ring_ag_inv sb rb cs ds n M0 k M \<longleftrightarrow>
     (case k of 0 \<Rightarrow> M = M0
      | Suc i \<Rightarrow> ring_has (ag_loc rb ds cs) ((!) cs) ds n (ag_data sb rb cs ds M0) i M \<and> ag_frame rb cs ds n M0 M)"

lemma ring_ag_inv_step:
  assumes "length cs = n" and "0 < ds" and "k < Suc (n - 1)" and "ring_ag_inv sb rb cs ds n M0 k M"
  shows "ring_ag_inv sb rb cs ds n M0 (Suc k) (round_mem f (ring_ag_seg sb rb cs ds n k) M)"
proof (cases k)
  case 0
  then have "M = M0" "ring_ag_seg sb rb cs ds n k = ag_copy_seg sb rb cs ds n"
    using assms(4) by (auto simp: ring_ag_inv_def ring_ag_seg_def)
  with 0 ag_copy_block [OF assms(2)] ag_copy_frame [OF assms(2)] show ?thesis
    by (auto simp: ring_ag_inv_def ring_has_def has_block_def)
next
  case (Suc i)
  then have inv: "ring_has (ag_loc rb ds cs) ((!) cs) ds n (ag_data sb rb cs ds M0) i M" "ag_frame rb cs ds n M0 M"
    and seg: "ring_ag_seg sb rb cs ds n k = ring_seg (ag_loc rb ds cs) ((!) cs) ds n i" and i: "Suc i < n"
    using assms(3,4) by (auto simp: ring_ag_inv_def ring_ag_seg_def)
  have "ag_frame rb cs ds n M0 (round_mem f (ring_seg (ag_loc rb ds cs) ((!) cs) ds n i) M)"
    unfolding ag_frame_def
  proof (intro allI impI)
    fix r a assume a: "n \<le> r \<or> (\<forall>j < n. \<not> in_rng (ag_loc rb ds cs r j, cs ! j * ds) a)"
    from ring_frame [where L = "ag_loc rb ds cs" and C = "(!) cs", OF assms(2) i a, of f M] ag_frameD [OF inv(2) a]
    show "round_mem f (ring_seg (ag_loc rb ds cs) ((!) cs) ds n i) M r a = M0 r a" by simp
  qed
  with ring_has_step [OF assms(2) i ag_blocks_disj [OF assms(1)] inv(1)] Suc show ?thesis
    unfolding seg by (simp add: ring_ag_inv_def)
qed

lemma ring_ag_is_round:
  "k < Suc (n - 1) \<Longrightarrow> is_round n (ring_ag_seg sb rb cs ds n k)"
proof (cases k)
  case 0
  then have "ring_ag_seg sb rb cs ds n k = ag_copy_seg sb rb cs ds n" by (auto simp: ring_ag_seg_def)
  with ag_copy_local_round show ?thesis by (simp only: is_round_def simp_thms)
next
  case (Suc i)
  moreover assume "k < Suc (n - 1)"
  moreover have "ring_ag_seg sb rb cs ds n (Suc i) = ring_seg (ag_loc rb ds cs) ((!) cs) ds n i"
    by (auto simp: ring_ag_seg_def)
  ultimately show ?thesis using ring_comm_round [of i n] by (simp add: is_round_def)
qed

lemma ring_allgatherv_run:
  assumes "fifo_transport T" and "0 < n" and "length cs = n" and "0 < ds"
    and placed: "\<And>r. r < n \<Longrightarrow> ag_placed (sb r) (rb r) ds cs r"
  shows "coll_correct T f (coll_start T n (ring_allgatherv_entries check sb rb cs ds n) M)
    (allgatherv_result sb rb cs ds n M)"
proof (rule fifo_transport.rounds_invariant [OF assms(1), where K = "Suc (n - 1)" and
      E = "ring_ag_round sb rb cs ds n" and seg = "ring_ag_seg sb rb cs ds n" and I = "ring_ag_inv sb rb cs ds n M"])
  show "race_free f (coll_start T n (ring_allgatherv_entries check sb rb cs ds n) M)"
    by (rule race_free_entries) (rule ring_ag_safe [OF assms(3) _ placed assms(4)])
  show "ring_ag_inv sb rb cs ds n M 0 M" by (simp add: ring_ag_inv_def)
  fix M' assume "ring_ag_inv sb rb cs ds n M (Suc (n - 1)) M'"
  then have "ring_has (ag_loc rb ds cs) ((!) cs) ds n (ag_data sb rb cs ds M) (n - 1) M'" "ag_frame rb cs ds n M M'"
    by (auto simp: ring_ag_inv_def)
  with ring_has_all show "allgatherv_result sb rb cs ds n M M'"
    unfolding allgatherv_result_def has_block_def by blast
qed (use assms(3,4) placed one_phase_unflagged with_barrier_phase in
    \<open>auto simp: ring_ag_entries ring_ag_round_def ring_ag_seg_def with_barrier_ops comp_def
        intro: ring_ag_is_round ring_ag_inv_step split: nat.splits simp del: upt_Suc\<close>)

text \<open>
  C8: the ring allgatherv gathers: whatever the counts of the ranks (zero included), each in place
  or not, the builder succeeds, and in every interleaving every rank ends with the blocks of all
  ranks, and memory outside the receive buffers is unchanged.
\<close>

theorem ring_allgatherv_correct:
  assumes "fifo_transport T" and "0 < n" and "length cs = n" and "0 < ds"
    and "\<forall>r < n. ag_placed (sb r) (rb r) ds cs r"
  shows "(\<forall>r < n. \<exists>s. ccl_coll_build_ring_allgatherv check (sb r) (cs ! r) (rb r) cs ds n r (new_builder 0) = Inr s) \<and>
    coll_correct T f (coll_start T n (ring_allgatherv_entries check sb rb cs ds n) M) (allgatherv_result sb rb cs ds n M)"
proof (intro conjI allI impI)
  fix r assume "r < n"
  with assms(5) have "ag_placed (sb r) (rb r) ds cs r" by blast
  from ring_allgatherv_ops [of cs n r sb rb ds "new_builder 0" check, OF assms(3) \<open>r < n\<close> this]
  show "\<exists>s. ccl_coll_build_ring_allgatherv check (sb r) (cs ! r) (rb r) cs ds n r (new_builder 0) = Inr s"
    by (auto simp: barrier_set_def new_builder_def)
qed (use assms ring_allgatherv_run in blast)

lemma ring_allgatherv_correct_witness:
  "(\<exists>s. ccl_coll_build_ring_allgatherv True (Some (2, 0)) 3 (1, 0) [2, 0, 3] 4 3 2 (new_builder 0) = Inr s) \<and>
   coll_correct queue_transport (+) (coll_start queue_transport 3
     (ring_allgatherv_entries True (\<lambda>_. Some (2, 0)) (\<lambda>_. (1, 0)) [2, 0, 3] 4 3) (\<lambda>r a. r))
     (allgatherv_result (\<lambda>_. Some (2, 0)) (\<lambda>_. (1, 0)) [2, 0, 3] 4 3 (\<lambda>r a. r))"
proof -
  have *: "0 < (3::nat)" "length [2, 0, 3::nat] = 3" "0 < (4::nat)"
    "\<forall>r < 3. ag_placed (Some (2, 0)) (1, 0) 4 [2, 0, 3] r" by (simp_all add: ag_placed_def)
  from ring_allgatherv_correct [OF queues.fifo_transport_axioms *, of True "(+)" "\<lambda>r a. r"] show ?thesis
    by (auto dest!: spec [of _ 2])
qed

section \<open>The naive algorithm is correct\<close>

definition naive_ag_seg :: "(rank \<Rightarrow> loc) \<Rightarrow> nat list \<Rightarrow> nat \<Rightarrow> nat \<Rightarrow> rank \<Rightarrow> sched_op list" where
  "naive_ag_seg rb cs ds n r =
     (if r < n then
        concat (map (\<lambda>idx.
          let src = (r + n - idx) mod n in
          (if 0 < cs ! r then [Send (ag_loc rb ds cs r r) (cs ! r) ds ((r + idx) mod n)] else []) @
          (if 0 < cs ! src then [Recv (ag_loc rb ds cs r src) (cs ! src) ds src] else [])) [1..<n])
      else [])"

lemma naive_ag_sends:
  assumes "d < n"
  shows "sends_to (naive_ag_seg rb cs ds n) s d =
    (if s < n \<and> d \<noteq> s \<and> 0 < cs ! s then [Send (ag_loc rb ds cs s s) (cs ! s) ds d] else [])"
proof (cases "s < n")
  case True
  let ?x = "(d + n - s) mod n"
  have iff: "(s + idx) mod n = d \<longleftrightarrow> idx = ?x" if "idx < n" for idx
    using mod_shift_iff [of idx n d s] that True assms by (metis add.commute less_imp_le_nat)
  have "sends_to (naive_ag_seg rb cs ds n) s d = concat (map (\<lambda>idx.
      if idx = ?x then (if 0 < cs ! s then [Send (ag_loc rb ds cs s s) (cs ! s) ds d] else []) else []) [1..<n])"
    using True by (auto simp: sends_to_def naive_ag_seg_def filter_concat Let_def iff intro!: arg_cong [of _ _ concat])
  also have "\<dots> = (if ?x \<in> set [1..<n] then (if 0 < cs ! s then [Send (ag_loc rb ds cs s s) (cs ! s) ds d] else []) else [])"
    by (rule concat_map_unique) auto
  also have "?x \<in> set [1..<n] \<longleftrightarrow> d \<noteq> s"
    using True assms mod_shift [of d n s] by (auto simp: mod_if)
  finally show ?thesis using True by simp
qed (simp add: sends_to_def naive_ag_seg_def)

lemma naive_ag_sends_out: "n \<le> d \<Longrightarrow> sends_to (naive_ag_seg rb cs ds n) s d = []"
  by (auto simp: sends_to_def naive_ag_seg_def filter_concat filter_empty_conv Let_def dest!: leD)

lemma naive_ag_recvs:
  "recvs_from (naive_ag_seg rb cs ds n) d s =
    (if s < n \<and> d < n \<and> d \<noteq> s \<and> 0 < cs ! s then [Recv (ag_loc rb ds cs d s) (cs ! s) ds s] else [])"
proof (cases "d < n")
  case True
  let ?y = "if 0 < cs ! s then [Recv (ag_loc rb ds cs d s) (cs ! s) ds s] else []"
  show ?thesis
  proof (cases "s < n")
    case s: True
    let ?x = "(d + n - s) mod n"
    have iff: "(d + n - idx) mod n = s \<longleftrightarrow> idx = ?x" if "idx < n" for idx
      using mod_shift_diff [of d n s] mod_shift_diff [of d n idx] that True s by metis
    have "recvs_from (naive_ag_seg rb cs ds n) d s = concat (map (\<lambda>idx. if idx = ?x then ?y else []) [1..<n])"
      using True by (auto simp: recvs_from_def naive_ag_seg_def filter_concat Let_def iff mod_shift_diff [OF True s]
          intro!: arg_cong [of _ _ concat])
    also have "\<dots> = (if ?x \<in> set [1..<n] then ?y else [])" by (rule concat_map_unique) auto
    also have "?x \<in> set [1..<n] \<longleftrightarrow> d \<noteq> s" using True s by (auto simp: mod_if)
    finally show ?thesis using True s by simp
  next
    case False
    with True show ?thesis by (auto simp: recvs_from_def naive_ag_seg_def filter_concat filter_empty_conv Let_def)
  qed
qed (simp add: recvs_from_def naive_ag_seg_def)

lemma naive_ag_comm_round: "comm_round n (naive_ag_seg rb cs ds n)"
proof (rule comm_roundI [OF _ _ _ naive_ag_recvs])
  show "sends_to (naive_ag_seg rb cs ds n) s d =
    (if s < n \<and> d < n \<and> d \<noteq> s \<and> 0 < cs ! s then [Send (ag_loc rb ds cs s s) (cs ! s) ds d] else [])" for s d
    using naive_ag_sends [of d n rb cs ds s] naive_ag_sends_out [of n d rb cs ds s] by (cases "d < n") auto
qed (auto simp: naive_ag_seg_def Let_def is_local_def msg_fits_def split: if_splits)

lemma naive_ag_mem:
  assumes "r < n"
  shows "round_mem f (naive_ag_seg rb cs ds n) M r =
    fold (\<lambda>j m. write_cells m (ag_loc rb ds cs r j) ds (read_cells (M j) (ag_loc rb ds cs j j) (cs ! j) ds))
      (map (\<lambda>idx. (r + n - idx) mod n) [1..<n]) (M r)"
proof -
  let ?seg = "naive_ag_seg rb cs ds n"
  have inb: "inbox ?seg M s r = (if s < n \<and> r \<noteq> s \<and> 0 < cs ! s then read_cells (M s) (ag_loc rb ds cs s s) (cs ! s) ds else [])" for s
    using naive_ag_sends [OF assms, of rb cs ds s] by (auto simp: inbox_def)
  have ne: "r \<noteq> (r + n - idx) mod n" "(r + n - idx) mod n < n" if "idx \<in> set [1..<n]" for idx
    using that assms mod_shift [of r n idx] shift_inj [of idx n 0 "(r + n - idx) mod n"] by auto
  have "round_mem f ?seg M r = fold (\<lambda>idx m. fold (\<lambda>x. apply_op f x (recv_vals ?seg M r x))
      (let src = (r + n - idx) mod n in
        (if 0 < cs ! r then [Send (ag_loc rb ds cs r r) (cs ! r) ds ((r + idx) mod n)] else []) @
        (if 0 < cs ! src then [Recv (ag_loc rb ds cs r src) (cs ! src) ds src] else [])) m) [1..<n] (M r)"
    using assms by (simp add: round_mem_def naive_ag_seg_def fold_concat_map)
  also have "\<dots> = fold (\<lambda>idx m. write_cells m (ag_loc rb ds cs r ((r + n - idx) mod n)) ds
      (read_cells (M ((r + n - idx) mod n)) (ag_loc rb ds cs ((r + n - idx) mod n) ((r + n - idx) mod n)) (cs ! ((r + n - idx) mod n)) ds))
      [1..<n] (M r)"
    by (rule fold_cong) (use ne in \<open>auto simp: Let_def recv_vals_def inb\<close>)
  finally show ?thesis by (simp add: fold_map comp_def)
qed

definition naive_ag_round ::
    "(rank \<Rightarrow> loc option) \<Rightarrow> (rank \<Rightarrow> loc) \<Rightarrow> nat list \<Rightarrow> nat \<Rightarrow> nat \<Rightarrow> nat \<Rightarrow> rank \<Rightarrow> sched_op list" where
  "naive_ag_round sb rb cs ds n k r = (if k = 0 then ag_copy_seg sb rb cs ds n r else naive_ag_seg rb cs ds n r)"

definition naive_allgatherv_entries ::
    "bool \<Rightarrow> (rank \<Rightarrow> loc option) \<Rightarrow> (rank \<Rightarrow> loc) \<Rightarrow> nat list \<Rightarrow> nat \<Rightarrow> nat \<Rightarrow> rank \<Rightarrow> (sched_op \<times> bool) list" where
  "naive_allgatherv_entries check sb rb cs ds n r =
     ops (projr (ccl_coll_build_naive_allgatherv check (sb r) (cs ! r) (rb r) cs ds n r (new_builder 0)))"

lemma naive_ag_entries:
  assumes "length cs = n" and "r < n" and "ag_placed (sb r) (rb r) ds cs r"
  shows "\<exists>s. ccl_coll_build_naive_allgatherv check (sb r) (cs ! r) (rb r) cs ds n r (new_builder 0) = Inr s \<and>
    ops s = map (\<lambda>x. (x, False)) (ag_copy (sb r) (rb r) ds cs r @ naive_ag_seg rb cs ds n r)"
proof -
  have r: "r < length cs" using assms by simp
  let ?g = "\<lambda>idx. let src = (r + n - idx) mod n in
      (if 0 < cs ! r then [Send (ag_loc rb ds cs r r) (cs ! r) ds ((r + idx) mod n)] else []) @
      (if 0 < cs ! src then [Recv (ag_loc rb ds cs r src) (cs ! src) ds src] else [])"
  have body: "ops (naive_allgatherv_body (rb r) (cs ! r) cs (ag_offsets 0 ds cs) ds n r idx s) =
      ops s @ map (\<lambda>x. (x, False)) (?g idx)" for idx s
  proof -
    have "(r + n - idx) mod n < length cs" using assms by simp
    from ag_offsets_0 [OF this] ag_offsets_0 [OF r] show ?thesis
      by (simp add: naive_allgatherv_body_def Let_def)
  qed
  have "ops (fold (naive_allgatherv_body (rb r) (cs ! r) cs (ag_offsets 0 ds cs) ds n r) xs s) =
      ops s @ map (\<lambda>x. (x, False)) (concat (map ?g xs))" for xs s
    by (induction xs arbitrary: s) (simp_all add: body)
  moreover have "naive_ag_seg rb cs ds n r = concat (map ?g [1..<n])" using assms(2) by (simp add: naive_ag_seg_def)
  ultimately show ?thesis
    using is_allgatherv_inplace_eq [OF assms, of check]
    by (auto simp: ccl_coll_build_naive_allgatherv_def Let_def ag_copy_def new_builder_def ag_offsets_0 [OF r])
qed

lemma naive_ag_safe:
  assumes "length cs = n" and "r < n" and "0 < ds"
  shows "safe_phase (naive_ag_seg rb cs ds n r)"
proof -
  let ?xs = "naive_ag_seg rb cs ds n r"
  have ops: "(\<exists>d. x = Send (ag_loc rb ds cs r r) (cs ! r) ds d) \<or>
      (\<exists>j < n. j \<noteq> r \<and> x = Recv (ag_loc rb ds cs r j) (cs ! j) ds j)" if "x \<in> set ?xs" for x
  proof -
    from that obtain idx where idx: "1 \<le> idx" "idx < n"
      "x = Send (ag_loc rb ds cs r r) (cs ! r) ds ((r + idx) mod n) \<or>
       x = Recv (ag_loc rb ds cs r ((r + n - idx) mod n)) (cs ! ((r + n - idx) mod n)) ds ((r + n - idx) mod n)"
      using assms(2) by (auto simp: naive_ag_seg_def Let_def split: if_splits)
    moreover have "(r + n - idx) mod n \<noteq> r" using idx assms(2) by (auto simp: mod_if)
    ultimately show ?thesis using assms(2) by (metis mod_less_divisor gr_implies_not0 neq0_conv)
  qed
  have disj: "rng_disj (ag_loc rb ds cs r i, cs ! i * ds) (ag_loc rb ds cs r j, cs ! j * ds)"
    if "i < n" "j < n" "i \<noteq> j" for i j
    using ag_blocks_disj [OF assms(1), of rb ds] assms(2) that by (auto simp: blocks_disj_def)
  show ?thesis
    unfolding safe_phase_def
  proof (intro conjI ballI sorted_wrt_all)
    fix x assume "x \<in> set ?xs"
    from ops [OF this] assms(3) show "op_size_ok x" by (auto simp: op_size_ok_def)
  next
    fix x y assume "x \<in> set ?xs" "y \<in> set ?xs"
    with ops [of x] ops [of y] disj assms(2) show "is_local x \<or> same_channel x y \<or> ops_disj x y"
      by (auto simp: same_channel_def ops_disj_def rngs_disj_def)
  qed
qed

lemma naive_ag_result:
  assumes "length cs = n" and "0 < ds"
  shows "allgatherv_result sb rb cs ds n M
    (round_mem f (naive_ag_seg rb cs ds n) (round_mem f (ag_copy_seg sb rb cs ds n) M))"
proof -
  define M1 where "M1 = round_mem f (ag_copy_seg sb rb cs ds n) M"
  let ?M' = "round_mem f (naive_ag_seg rb cs ds n) M1"
  let ?V = "\<lambda>j. read_cells (M1 j) (ag_loc rb ds cs j j) (cs ! j) ds"
  have own: "?V j = ag_data sb rb cs ds M j" if "j < n" for j
    unfolding M1_def by (rule ag_copy_block [OF assms(2) that])
  have "read_cells (?M' r) (ag_loc rb ds cs r j) (cs ! j) ds = ag_data sb rb cs ds M j" if r: "r < n" and j: "j < n" for r j
  proof -
    let ?js = "map (\<lambda>idx. (r + n - idx) mod n) [1..<n]"
    have "read_cells (?M' r) (ag_loc rb ds cs r j) (cs ! j) ds = (if j \<in> set ?js then ?V j else read_cells (M1 r) (ag_loc rb ds cs r j) (cs ! j) ds)"
      unfolding naive_ag_mem [OF r]
      by (rule fold_write_blocks [OF assms(2), where J = "{..<n}"])
        (use ag_blocks_disj [OF assms(1), of rb ds] r j in \<open>auto simp: blocks_disj_def\<close>)
    moreover have "j \<in> set ?js \<or> j = r"
    proof (cases "j = r")
      case False
      have "(r + n - j) mod n \<in> set [1..<n]" using False r j by (auto simp: mod_if)
      then show ?thesis using mod_shift_diff [OF r j] by (force simp: image_iff)
    qed simp
    ultimately show ?thesis using own [OF j] by auto
  qed
  moreover have "ag_frame rb cs ds n M ?M'"
    unfolding ag_frame_def
  proof (intro allI impI)
    fix r a assume a: "n \<le> r \<or> (\<forall>j < n. \<not> in_rng (ag_loc rb ds cs r j, cs ! j * ds) a)"
    have "?M' r a = M1 r a"
    proof (cases "r < n")
      case True
      show ?thesis
        unfolding naive_ag_mem [OF True]
        by (rule fold_write_blocks_outside [OF assms(2), where C = "(!) cs"]) (use a True in auto)
    qed (simp add: round_mem_def naive_ag_seg_def)
    moreover have "ag_frame rb cs ds n M M1" unfolding M1_def by (rule ag_copy_frame [OF assms(2)])
    ultimately show "?M' r a = M r a" using a by (simp only: ag_frame_def)
  qed
  ultimately show ?thesis by (simp add: allgatherv_result_def M1_def)
qed

text \<open>
  C22: the naive allgatherv, where every rank sends its block to every other rank with no barrier
  in between, gives the same result.
\<close>

theorem naive_allgatherv_correct:
  assumes "fifo_transport T" and "0 < n" and "length cs = n" and "0 < ds"
    and "\<forall>r < n. ag_placed (sb r) (rb r) ds cs r"
  shows "(\<forall>r < n. \<exists>s. ccl_coll_build_naive_allgatherv check (sb r) (cs ! r) (rb r) cs ds n r (new_builder 0) = Inr s) \<and>
    coll_correct T f (coll_start T n (naive_allgatherv_entries check sb rb cs ds n) M) (allgatherv_result sb rb cs ds n M)"
proof
  have es: "naive_allgatherv_entries check sb rb cs ds n r =
      map (\<lambda>x. (x, False)) (ag_copy (sb r) (rb r) ds cs r) @ map (\<lambda>x. (x, False)) (naive_ag_seg rb cs ds n r)"
    if "r < n" for r
    using naive_ag_entries [of cs n r sb rb ds check, OF assms(3) that] assms(5) that
    by (auto simp: naive_allgatherv_entries_def)
  show "\<forall>r < n. \<exists>s. ccl_coll_build_naive_allgatherv check (sb r) (cs ! r) (rb r) cs ds n r (new_builder 0) = Inr s"
    using naive_ag_entries [OF assms(3)] assms(5) by blast
  show "coll_correct T f (coll_start T n (naive_allgatherv_entries check sb rb cs ds n) M) (allgatherv_result sb rb cs ds n M)"
  proof (rule fifo_transport.rounds_correct [OF assms(1), where K = 2 and
        E = "\<lambda>k r. map (\<lambda>x. (x, False)) (naive_ag_round sb rb cs ds n k r)" and seg = "naive_ag_round sb rb cs ds n"])
    show "race_free f (coll_start T n (naive_allgatherv_entries check sb rb cs ds n) M)"
    proof (rule race_free_entries)
      fix r assume r: "r < n"
      have "safe_entries (map (\<lambda>x. (x, False)) (naive_ag_seg rb cs ds n r))"
        using naive_ag_safe [OF assms(3) r assms(4)] by (simp add: safe_entries_def phases_no_barrier)
      from safe_entries_locals [OF one_phase_unflagged ag_safe_copy [OF assms(4)] this]
      show "safe_entries (naive_allgatherv_entries check sb rb cs ds n r)" by (simp only: es [OF r])
    qed
    have "naive_ag_round sb rb cs ds n 0 = ag_copy_seg sb rb cs ds n" "naive_ag_round sb rb cs ds n 1 = naive_ag_seg rb cs ds n"
      by (auto simp: naive_ag_round_def)
    moreover from this show "is_round n (naive_ag_round sb rb cs ds n k)" if "k < 2" for k
      using that ag_copy_local_round naive_ag_comm_round
      by (cases k) (auto simp: is_round_def)
    ultimately show "allgatherv_result sb rb cs ds n M (rounds_mem f (naive_ag_round sb rb cs ds n) 2 M)"
      using naive_ag_result [OF assms(3,4)] by (simp add: numeral_2_eq_2)
  qed (use es one_phase_unflagged in \<open>auto simp: naive_ag_round_def comp_def upt_conv_Cons\<close>)
qed

lemma naive_allgatherv_correct_witness:
  "(\<exists>s. ccl_coll_build_naive_allgatherv True (None) 3 (1, 0) [2, 0, 3] 4 3 2 (new_builder 0) = Inr s) \<and>
   coll_correct queue_transport (+) (coll_start queue_transport 3
     (naive_allgatherv_entries True (\<lambda>_. None) (\<lambda>_. (1, 0)) [2, 0, 3] 4 3) (\<lambda>r a. r))
     (allgatherv_result (\<lambda>_. None) (\<lambda>_. (1, 0)) [2, 0, 3] 4 3 (\<lambda>r a. r))"
proof -
  have *: "0 < (3::nat)" "length [2, 0, 3::nat] = 3" "0 < (4::nat)"
    "\<forall>r < 3. ag_placed (None) (1, 0) 4 [2, 0, 3] r" by (simp_all add: ag_placed_def)
  from naive_allgatherv_correct [OF queues.fifo_transport_axioms *, of True "(+)" "\<lambda>r a. r"] show ?thesis
    by (auto dest!: spec [of _ 2])
qed



end
