(* ===== verification/Reduction.thy ===== *)
theory Reduction
  imports Prelude
begin

text \<open>
  Reductions of lists of elements. Collectives may reduce the contributions of the ranks in
  any order and grouping, so what they rely on is that the operation is associative and
  commutative: the locale \<open>abel_semigroup\<close> of the library. \<open>red f xs\<close> is the reduction of a non-empty
  list, and \<open>red_elems\<close> the element-wise one of the contributions of a list of ranks.
\<close>

definition red :: "('v \<Rightarrow> 'v \<Rightarrow> 'v) \<Rightarrow> 'v list \<Rightarrow> 'v" where
  "red f xs = fold f (tl xs) (hd xs)"

definition red_elems :: "('v \<Rightarrow> 'v \<Rightarrow> 'v) \<Rightarrow> nat \<Rightarrow> (nat \<Rightarrow> 'v list) \<Rightarrow> nat list \<Rightarrow> 'v list" where
  "red_elems f cnt X js = map (\<lambda>i. red f (map (\<lambda>j. X j ! i) js)) [0..<cnt]"

lemma red_single [simp]: "red f [x] = x"
  by (simp add: red_def)

lemma length_red_elems [simp]: "length (red_elems f cnt X js) = cnt"
  by (simp add: red_elems_def)

lemma red_elems_single: "length (X j) = cnt \<Longrightarrow> red_elems f cnt X [j] = X j"
  by (auto simp: red_elems_def intro: nth_equalityI)

lemma take_red_elems: "m \<le> cnt \<Longrightarrow> take m (red_elems f cnt X js) = red_elems f m X js"
  by (simp add: red_elems_def take_map)

context abel_semigroup
begin

lemma fold_shift: "fold f xs (f a b) = f a (fold f xs b)"
proof (induction xs arbitrary: b)
  case (Cons x xs)
  have "f x (f a b) = f a (f x b)" by (rule left_commute)
  with Cons show ?case by simp
qed simp

lemma red_Cons: "xs \<noteq> [] \<Longrightarrow> red f (x # xs) = f x (red f xs)"
proof (cases xs)
  case (Cons y ys)
  have "fold f ys (f y x) = f x (fold f ys y)"
    using fold_shift [of ys x y] by (simp add: commute)
  with Cons show ?thesis by (simp add: red_def)
qed simp

lemma red_append: "xs \<noteq> [] \<Longrightarrow> ys \<noteq> [] \<Longrightarrow> red f (xs @ ys) = f (red f xs) (red f ys)"
proof (induction xs)
  case (Cons x xs)
  then show ?case by (cases "xs = []") (simp_all add: red_Cons assoc)
qed simp

lemma red_perm: "mset xs = mset ys \<Longrightarrow> red f xs = red f ys"
proof (induction xs arbitrary: ys)
  case (Cons x xs)
  then have x: "x \<in> set ys" by (metis list.set_intros(1) set_mset_mset)
  then obtain us vs where ys: "ys = us @ x # vs" by (meson split_list)
  with Cons.prems have m: "mset xs = mset (us @ vs)" by simp
  then have ih: "red f xs = red f (us @ vs)" by (rule Cons.IH)
  show ?case
  proof (cases "xs = []")
    case True
    with m ys show ?thesis by simp
  next
    case False
    then have ne: "us @ vs \<noteq> []" using m by (metis mset_zero_iff)
    have "red f ys = f x (red f (us @ vs))"
    proof (cases us)
      case Nil
      with ne ys show ?thesis by (simp add: red_Cons)
    next
      case c: (Cons u us')
      show ?thesis
      proof (cases vs)
        case Nil
        with c ys show ?thesis
          using red_append [of us "[x]"] by (simp add: commute)
      next
        case (Cons v vs')
        with c ys show ?thesis
          using red_append [of us "x # vs"] red_append [of us vs] by (simp add: red_Cons left_commute)
      qed
    qed
    with ih False show ?thesis by (simp add: red_Cons)
  qed
qed simp

lemma red_elems_perm: "mset js = mset ks \<Longrightarrow> red_elems f cnt X js = red_elems f cnt X ks"
  unfolding red_elems_def by (auto intro!: red_perm)

lemma red_elems_append:
  "js \<noteq> [] \<Longrightarrow> ks \<noteq> [] \<Longrightarrow> map2 f (red_elems f cnt X js) (red_elems f cnt X ks) = red_elems f cnt X (js @ ks)"
  by (intro nth_equalityI) (auto simp: red_elems_def red_append)

end

text \<open>Sums of machine integers satisfy the contract: they wrap around, and keep being associative.\<close>

lemma word_add_abel: "abel_semigroup ((+) :: 'a::len word \<Rightarrow> 'a word \<Rightarrow> 'a word)"
  by unfold_locales (simp_all add: add.commute add.assoc)

end
