(* ===== verification/CollSeq.thy ===== *)
theory CollSeq
  imports CollRing Reduction
begin

text \<open>
  Collectives put together from lists of rounds. A round is a function from ranks to entries; the
  entries of a rank are those of the rounds in sequence, so that an algorithm that calls two
  building blocks is the concatenation of their lists of rounds, and its result is that of the
  second on the result of the first.
\<close>

type_synonym round = "rank \<Rightarrow> (sched_op \<times> bool) list"

definition round_seg :: "round \<Rightarrow> rank \<Rightarrow> sched_op list" where
  "round_seg E r = map fst (E r)"

definition round_entries :: "round list \<Rightarrow> rank \<Rightarrow> (sched_op \<times> bool) list" where
  "round_entries rl r = concat (map (\<lambda>E. E r) rl)"

definition run_rounds ::
    "('v \<Rightarrow> 'v \<Rightarrow> 'v) \<Rightarrow> round list \<Rightarrow> (rank \<Rightarrow> 'v mem) \<Rightarrow> rank \<Rightarrow> 'v mem" where
  "run_rounds f rl M = fold (\<lambda>E. round_mem f (round_seg E)) rl M"

definition good_rounds :: "nat \<Rightarrow> round list \<Rightarrow> bool" where
  "good_rounds n rl \<longleftrightarrow> (\<forall>E \<in> set rl. is_round n (round_seg E) \<and> (\<forall>r < n. one_phase (E r)))"

lemma round_entries_append [simp]: "round_entries (xs @ ys) r = round_entries xs r @ round_entries ys r"
  by (simp add: round_entries_def)

lemma round_entries_Nil [simp]: "round_entries [] r = []"
  by (simp add: round_entries_def)

lemma round_entries_Cons [simp]: "round_entries (E # rl) r = E r @ round_entries rl r"
  by (simp add: round_entries_def)

lemma run_rounds_append [simp]: "run_rounds f (xs @ ys) M = run_rounds f ys (run_rounds f xs M)"
  by (simp add: run_rounds_def)

lemma run_rounds_Nil [simp]: "run_rounds f [] M = M"
  by (simp add: run_rounds_def)

lemma run_rounds_Cons [simp]: "run_rounds f (E # rl) M = run_rounds f rl (round_mem f (round_seg E) M)"
  by (simp add: run_rounds_def)

lemma good_rounds_append [simp]: "good_rounds n (xs @ ys) \<longleftrightarrow> good_rounds n xs \<and> good_rounds n ys"
  by (auto simp: good_rounds_def)

lemma good_rounds_Nil [simp]: "good_rounds n []"
  by (simp add: good_rounds_def)

lemma good_rounds_Cons [simp]:
  "good_rounds n (E # rl) \<longleftrightarrow> is_round n (round_seg E) \<and> (\<forall>r < n. one_phase (E r)) \<and> good_rounds n rl"
  by (auto simp: good_rounds_def)

lemma rounds_mem_take:
  "k \<le> length rl \<Longrightarrow> rounds_mem f (\<lambda>k. round_seg (rl ! k)) k M = run_rounds f (take k rl) M"
  by (induction k) (simp_all add: take_Suc_conv_app_nth)

text \<open>A result of rounds over ranks, as a pre- and a postcondition on the memories.\<close>

definition rounds_triple ::
    "('v \<Rightarrow> 'v \<Rightarrow> 'v) \<Rightarrow> ((rank \<Rightarrow> 'v mem) \<Rightarrow> bool) \<Rightarrow> round list \<Rightarrow> ((rank \<Rightarrow> 'v mem) \<Rightarrow> bool) \<Rightarrow> bool" where
  "rounds_triple f P rl Q \<longleftrightarrow> (\<forall>M. P M \<longrightarrow> Q (run_rounds f rl M))"

lemma rounds_tripleI: "(\<And>M. P M \<Longrightarrow> Q (run_rounds f rl M)) \<Longrightarrow> rounds_triple f P rl Q"
  by (simp add: rounds_triple_def)

lemma rounds_tripleD: "rounds_triple f P rl Q \<Longrightarrow> P M \<Longrightarrow> Q (run_rounds f rl M)"
  by (simp add: rounds_triple_def)

lemma rounds_triple_append:
  "rounds_triple f P xs Q \<Longrightarrow> rounds_triple f Q ys R \<Longrightarrow> rounds_triple f P (xs @ ys) R"
  by (simp add: rounds_triple_def)

lemma rounds_triple_concat:
  "(\<And>k. a \<le> k \<Longrightarrow> k < b \<Longrightarrow> rounds_triple f (I k) (g k) (I (Suc k))) \<Longrightarrow> a \<le> b \<Longrightarrow>
   rounds_triple f (I a) (concat (map g [a..<b])) (I b)"
proof (induction b)
  case (Suc b)
  show ?case
  proof (cases "a = Suc b")
    case False
    with Suc have ab: "a \<le> b" "rounds_triple f (I a) (concat (map g [a..<b])) (I b)"
      "rounds_triple f (I b) (g b) (I (Suc b))" by auto
    from ab(1) have "concat (map g [a..<Suc b]) = concat (map g [a..<b]) @ g b" by simp
    with rounds_triple_append [OF ab(2,3)] show ?thesis by (simp only:)
  qed (simp add: rounds_triple_def)
qed (simp add: rounds_triple_def)

context fifo_transport
begin

theorem round_list_correct:
  assumes "good_rounds n rl" and "\<And>r. r < n \<Longrightarrow> es r = round_entries rl r"
    and "\<And>r. r < n \<Longrightarrow> safe_entries (es r)" and "Q (run_rounds f rl M)"
  shows "coll_correct T f (coll_start T n es M) Q"
proof (rule rounds_correct [where K = "length rl" and E = "\<lambda>k. rl ! k" and seg = "\<lambda>k. round_seg (rl ! k)"])
  fix r assume "r < n"
  moreover have "map (\<lambda>k. (rl ! k) r) [0..<length rl] = map (\<lambda>E. E r) rl" by (rule nth_equalityI) auto
  ultimately show "es r = concat (map (\<lambda>k. (rl ! k) r) [0..<length rl])"
    using assms(2) by (simp add: round_entries_def)
next
  show "race_free f (coll_start T n es M)" by (rule race_free_entries) (rule assms(3))
  show "Q (rounds_mem f (\<lambda>k. round_seg (rl ! k)) (length rl) M)"
    using assms(4) by (simp add: rounds_mem_take)
qed (use assms(1) in \<open>auto simp: good_rounds_def round_seg_def\<close>)

end

section \<open>Safety of sequences\<close>

lemma phases_Nil_iff: "phases es = [] \<longleftrightarrow> es = []"
  by (induction es rule: phases.induct) (auto split: list.splits)

lemma phases_append: "barrier_set as \<Longrightarrow> phases (as @ bs) = phases as @ phases bs"
proof (induction as rule: phases.induct)
  case (2 x b xs)
  then show ?case by (cases "xs = []") (auto simp: barrier_set_def phases_Nil_iff split: list.splits)
qed simp

lemma safe_entries_append:
  "barrier_set as \<Longrightarrow> safe_entries as \<Longrightarrow> safe_entries bs \<Longrightarrow> safe_entries (as @ bs)"
  by (auto simp: safe_entries_def phases_append)

lemma safe_entries_locals_end:
  assumes "safe_entries es" and "barrier_set es" and "\<forall>x \<in> set ls. is_local x \<and> op_size_ok x"
  shows "safe_entries (es @ map (\<lambda>x. (x, False)) ls)"
proof -
  have "safe_phase ls" using safe_phase_locals [OF assms(3), of "[]"] by (simp add: safe_phase_def)
  then have "safe_entries (map (\<lambda>x. (x, False)) ls)" by (simp add: safe_entries_def phases_no_barrier)
  with assms(1,2) show ?thesis by (simp add: safe_entries_append)
qed

section \<open>What rounds leave alone\<close>

definition seg_avoids :: "sched_op list \<Rightarrow> loc \<Rightarrow> bool" where
  "seg_avoids xs a \<longleftrightarrow> (\<forall>x \<in> set xs. op_size_ok x \<and> (\<forall>R \<in> set (op_writes x). \<not> in_rng R a))"

lemma fold_apply_frame:
  "seg_avoids xs a \<Longrightarrow> (\<And>x. x \<in> set xs \<Longrightarrow> op_vals_ok x (V x)) \<Longrightarrow> fold (\<lambda>x. apply_op f x (V x)) xs m a = m a"
proof (induction xs arbitrary: m)
  case (Cons x xs)
  then have "fold (\<lambda>x. apply_op f x (V x)) xs (apply_op f x (V x) m) a = apply_op f x (V x) m a"
    by (intro Cons.IH) (auto simp: seg_avoids_def)
  moreover have "apply_op f x (V x) m a = m a"
    by (rule apply_op_frame) (use Cons.prems in \<open>auto simp: seg_avoids_def\<close>)
  ultimately show ?case by simp
qed simp

lemma round_vals_ok:
  assumes "is_round n seg" and "x \<in> set (seg r)"
  shows "op_vals_ok x (recv_vals seg M r x)"
proof (cases "recv_src x")
  case (Some s)
  with assms have c: "comm_round n seg" by (auto simp: is_round_def local_round_def is_local_def)
  from comm_round_inbox [OF c assms(2) recv_not_send [OF Some], of M] Some show ?thesis
    by (simp add: op_vals_ok_def recv_vals_def)
qed (simp add: op_vals_ok_def)

lemma round_mem_frame: "is_round n seg \<Longrightarrow> seg_avoids (seg r) a \<Longrightarrow> round_mem f seg M r a = M r a"
  unfolding round_mem_def by (rule fold_apply_frame) (auto intro: round_vals_ok)

lemma run_rounds_frame:
  "good_rounds n rl \<Longrightarrow> (\<And>E. E \<in> set rl \<Longrightarrow> seg_avoids (round_seg E r) a) \<Longrightarrow> run_rounds f rl M r a = M r a"
proof (induction rl arbitrary: M)
  case (Cons E rl)
  then show ?case using round_mem_frame [of n "round_seg E" r a f M] by simp
qed simp

lemma is_round_out: "is_round n seg \<Longrightarrow> n \<le> r \<Longrightarrow> seg r = []"
  by (auto simp: is_round_def comm_round_def local_round_def)

lemma run_rounds_out:
  assumes "good_rounds n rl" and "n \<le> r"
  shows "run_rounds f rl M r = M r"
proof (rule ext)
  fix a
  have "round_seg E r = []" if "E \<in> set rl" for E
    by (rule is_round_out [of n]) (use assms that in \<open>auto simp: good_rounds_def\<close>)
  then show "run_rounds f rl M r a = M r a"
    by (intro run_rounds_frame [OF assms(1)]) (simp add: seg_avoids_def)
qed

end
