(* ===== verification/CollRedRing.thy ===== *)
theory CollRedRing
  imports CollSeq
begin

text \<open>
  The reducing ring as a building block: \<open>n\<close> blocks of \<open>cc\<close> chunks each; in iteration \<open>i\<close> rank \<open>r\<close>
  sends the chunks of block \<open>r - 1 - i\<close> and reduces what it receives into block \<open>r - 2 - i\<close>, so that in
  the end it holds block \<open>r\<close> reduced over all ranks. With more than one chunk the reduction of a chunk is
  delayed until the next chunk has been received. Rank \<open>r\<close> has its own data of chunk \<open>c\<close> of block \<open>j\<close> at
  \<open>lb r j c\<close> and receives that chunk at \<open>cb r j c\<close>; the reduction leaves its result at \<open>lb\<close> when
  \<open>inpl r\<close>, else at \<open>cb\<close>.
\<close>

section \<open>The block of an iteration\<close>

definition sblk :: "nat \<Rightarrow> rank \<Rightarrow> nat \<Rightarrow> nat" where
  "sblk n r i = (r + n - 1 - i) mod n"

abbreviation left_of :: "nat \<Rightarrow> rank \<Rightarrow> rank" where
  "left_of n r \<equiv> (r + n - 1) mod n"

lemma sblk_less: "0 < n \<Longrightarrow> sblk n r i < n"
  by (simp add: sblk_def)

lemma sblk_left:
  assumes "Suc i < n" and "r < n"
  shows "sblk n (left_of n r) i = sblk n r (Suc i)"
proof -
  have "sblk n (left_of n r) i = (left_of n r + (n - 1 - i)) mod n" using assms(1) by (simp add: sblk_def)
  also have "\<dots> = (r + n - 1 + (n - 1 - i)) mod n" by (rule mod_add_left_eq)
  also have "r + n - 1 + (n - 1 - i) = (r + n - 1 - Suc i) + n" using assms(1) by simp
  finally show ?thesis by (simp add: sblk_def)
qed

lemma sblk_inj:
  assumes "i < n" and "j < n" and "r < n" and "sblk n r i = sblk n r j"
  shows "i = j"
proof -
  have "r + n - 1 - i = r + (n - 1 - i)" "r + n - 1 - j = r + (n - 1 - j)" using assms(1,2) by auto
  with assms(4) have "(r + (n - 1 - i)) mod n = (r + (n - 1 - j)) mod n" by (simp add: sblk_def)
  then have "n - 1 - i = n - 1 - j" by (rule shift_inj [rotated 2]) (use assms in auto)
  with assms(1,2) show ?thesis by linarith
qed

lemma sblk_last: "0 < n \<Longrightarrow> r < n \<Longrightarrow> sblk n r (n - 1) = r"
  by (simp add: sblk_def)

section \<open>The ranks reduced so far\<close>

definition rks :: "nat \<Rightarrow> rank \<Rightarrow> nat \<Rightarrow> rank list" where
  "rks n r k = map (\<lambda>e. (r + n - e) mod n) [0..<Suc k]"

lemma rks_0: "r < n \<Longrightarrow> rks n r 0 = [r]"
  by (simp add: rks_def)

lemma rks_ne [simp]: "rks n r k \<noteq> []"
  by (simp add: rks_def)

lemma left_block': "Suc e \<le> n \<Longrightarrow> r < n \<Longrightarrow> (left_of n r + n - e) mod n = (r + n - Suc e) mod n"
proof -
  assume "Suc e \<le> n" "r < n"
  have "(left_of n r + n - e) mod n = (left_of n r + (n - e)) mod n" using \<open>Suc e \<le> n\<close> by simp
  also have "\<dots> = (r + n - 1 + (n - e)) mod n" by (rule mod_add_left_eq)
  also have "r + n - 1 + (n - e) = (r + n - Suc e) + n" using \<open>Suc e \<le> n\<close> by simp
  finally show ?thesis by simp
qed

lemma rks_Suc:
  assumes "r < n" and "Suc k < n"
  shows "rks n r (Suc k) = r # rks n (left_of n r) k"
proof -
  have "map (\<lambda>e. (r + n - Suc e) mod n) [0..<Suc k] = map (\<lambda>e. (left_of n r + n - e) mod n) [0..<Suc k]"
    using assms left_block' [of _ n r] by (auto simp del: upt_Suc)
  then show ?thesis
    using assms(1) unfolding rks_def upt_conv_Cons [OF zero_less_Suc] map_Suc_upt [symmetric]
    by (simp add: comp_def del: upt_Suc)
qed

lemma rks_all:
  assumes "r < n"
  shows "mset (rks n r (n - 1)) = mset [0..<n]"
proof -
  define g where "g = (\<lambda>e. (r + n - e) mod n)"
  have "Suc (n - 1) = n" using assms by simp
  then have eq: "rks n r (n - 1) = map g [0..<n]" by (simp only: rks_def g_def)
  have g: "g e < n" "g (g e) = e" if "e < n" for e
    using mod_shift_diff [OF assms that] assms by (simp_all only: g_def mod_less_divisor)
  have "inj_on g (set [0..<n])" using g(2) by (intro inj_on_inverseI [of _ g]) simp
  then have d: "distinct (map g [0..<n])" by (simp only: distinct_map distinct_upt simp_thms)
  have "set (map g [0..<n]) = set [0..<n]"
  proof (rule card_subset_eq)
    show "set (map g [0..<n]) \<subseteq> set [0..<n]" using g(1) by auto
    show "card (set (map g [0..<n])) = card (set [0..<n])"
      unfolding distinct_card [OF d] distinct_card [OF distinct_upt] by (rule length_map)
  qed (rule finite_set)
  with set_eq_iff_mset_eq_distinct [OF d distinct_upt] show ?thesis unfolding eq by blast
qed

section \<open>The rounds\<close>

definition rr_comm ::
    "(rank \<Rightarrow> nat \<Rightarrow> nat \<Rightarrow> loc) \<Rightarrow> (rank \<Rightarrow> nat \<Rightarrow> nat \<Rightarrow> loc) \<Rightarrow> (rank \<Rightarrow> bool) \<Rightarrow> (nat \<Rightarrow> nat \<Rightarrow> nat) \<Rightarrow>
     nat \<Rightarrow> nat \<Rightarrow> nat \<Rightarrow> nat \<Rightarrow> rank \<Rightarrow> sched_op list" where
  "rr_comm lb cb inpl C ds n cc t r =
     (if r < n then
        let i = t div cc; c = t mod cc; sj = sblk n r i; rj = sblk n r (Suc i) in
        [Send ((if i = 0 \<or> inpl r then lb else cb) r sj c) (C sj c) ds ((r + 1) mod n),
         if cc = 1 then RecvReduce (lb r rj c) (C rj c) ds (left_of n r) (cb r rj c) (inpl r)
         else Recv (cb r rj c) (C rj c) ds (left_of n r)]
      else [])"

definition rr_local ::
    "(rank \<Rightarrow> nat \<Rightarrow> nat \<Rightarrow> loc) \<Rightarrow> (rank \<Rightarrow> nat \<Rightarrow> nat \<Rightarrow> loc) \<Rightarrow> (rank \<Rightarrow> bool) \<Rightarrow> (nat \<Rightarrow> nat \<Rightarrow> nat) \<Rightarrow>
     nat \<Rightarrow> nat \<Rightarrow> nat \<Rightarrow> nat \<Rightarrow> rank \<Rightarrow> sched_op list" where
  "rr_local lb cb inpl C ds n cc t r =
     (if r < n \<and> cc \<noteq> 1 \<and> 0 < t then
        let i = (t - 1) div cc; c = (t - 1) mod cc; rj = sblk n r (Suc i) in
        [ReduceLocal ((if inpl r then cb else lb) r rj c) (C rj c) ((if inpl r then lb else cb) r rj c) ds]
      else [])"

lemma rr_sends:
  "sends_to (rr_comm lb cb inpl C ds n cc t) s d =
     (if s < n \<and> d = (s + 1) mod n
      then [Send ((if t div cc = 0 \<or> inpl s then lb else cb) s (sblk n s (t div cc)) (t mod cc))
              (C (sblk n s (t div cc)) (t mod cc)) ds d] else [])"
  by (auto simp: sends_to_def rr_comm_def Let_def)

lemma right_iff_left: "1 < n \<Longrightarrow> s < n \<and> d = (s + 1) mod n \<longleftrightarrow> d < n \<and> s = left_of n d"
  using mod_shift [of d n 1] mod_shift' [of s n 1] by auto

lemma rr_comm_round:
  assumes "Suc (t div cc) < n"
  shows "comm_round n (rr_comm lb cb inpl C ds n cc t)"
proof (rule comm_roundI [OF _ _ rr_sends])
  fix s d
  let ?i = "t div cc" and ?c = "t mod cc"
  let ?j = "sblk n s ?i"
  have iff: "s < n \<and> d = (s + 1) mod n \<longleftrightarrow> d < n \<and> s = left_of n d" using assms by (intro right_iff_left) simp
  show "recvs_from (rr_comm lb cb inpl C ds n cc t) d s =
    (if s < n \<and> d = (s + 1) mod n
     then [if cc = 1 then RecvReduce (lb d ?j ?c) (C ?j ?c) ds s (cb d ?j ?c) (inpl d) else Recv (cb d ?j ?c) (C ?j ?c) ds s]
     else [])"
    unfolding iff using sblk_left [OF assms, of d] by (auto simp: recvs_from_def rr_comm_def Let_def)
qed (auto simp: rr_comm_def Let_def is_local_def msg_fits_def)

lemma rr_local_round: "local_round n (rr_local lb cb inpl C ds n cc t)"
  by (auto simp: local_round_def rr_local_def Let_def is_local_def)

lemma rr_comm_mem:
  assumes "Suc (t div cc) < n" and "r < n"
  defines "j \<equiv> sblk n r (Suc (t div cc))" and "c \<equiv> t mod cc"
  shows "round_mem f (rr_comm lb cb inpl C ds n cc t) M r =
    (let vs = read_cells (M (left_of n r)) ((if t div cc = 0 \<or> inpl (left_of n r) then lb else cb) (left_of n r) j c) (C j c) ds
     in if cc = 1 then recv_reduce_update f (M r) (lb r j c) (C j c) ds (cb r j c) (inpl r) vs
        else write_cells (M r) (cb r j c) ds vs)"
proof -
  let ?s = "left_of n r"
  have s: "?s < n" "(?s + 1) mod n = r" using mod_shift [of r n 1] assms(1,2) by auto
  have "inbox (rr_comm lb cb inpl C ds n cc t) M ?s r =
      read_cells (M ?s) ((if t div cc = 0 \<or> inpl ?s then lb else cb) ?s j c) (C j c) ds"
    unfolding inbox_def rr_sends using s sblk_left [OF assms(1,2)] by (simp add: j_def c_def)
  moreover define Sg where "Sg = rr_comm lb cb inpl C ds n cc t"
  moreover obtain l cnt d where seg: "Sg r = [Send l cnt ds d,
      if cc = 1 then RecvReduce (lb r j c) (C j c) ds ?s (cb r j c) (inpl r) else Recv (cb r j c) (C j c) ds ?s]"
    using assms(2) by (simp add: Sg_def rr_comm_def Let_def j_def c_def)
  ultimately have inb: "inbox Sg M ?s r =
      read_cells (M ?s) ((if t div cc = 0 \<or> inpl ?s then lb else cb) ?s j c) (C j c) ds" by simp
  have "round_mem f Sg M r = (if cc = 1 then recv_reduce_update f (M r) (lb r j c) (C j c) ds (cb r j c) (inpl r) (inbox Sg M ?s r)
      else write_cells (M r) (cb r j c) ds (inbox Sg M ?s r))"
    unfolding round_mem_def seg by (simp add: recv_vals_def)
  then show ?thesis unfolding Sg_def [symmetric] inb Let_def .
qed

lemma rr_local_mem:
  assumes "r < n" and "cc \<noteq> 1" and "0 < t"
  defines "j \<equiv> sblk n r (Suc ((t - 1) div cc))" and "c \<equiv> (t - 1) mod cc"
  shows "round_mem f (rr_local lb cb inpl C ds n cc t) M r =
    reduce_cells f (M r) ((if inpl r then cb else lb) r j c) (C j c) ((if inpl r then lb else cb) r j c) ds"
  using assms(1-3) by (simp add: round_mem_def rr_local_def Let_def j_def c_def)

lemma rr_local_none: "cc = 1 \<or> t = 0 \<Longrightarrow> round_mem f (rr_local lb cb inpl C ds n cc t) M = M"
  by (auto simp: round_mem_def rr_local_def fun_eq_iff)

section \<open>The invariant\<close>

text \<open>No two chunks of a rank overlap, and its own data is apart from what it receives.\<close>

definition chunks_apart ::
    "(rank \<Rightarrow> nat \<Rightarrow> nat \<Rightarrow> loc) \<Rightarrow> (rank \<Rightarrow> nat \<Rightarrow> nat \<Rightarrow> loc) \<Rightarrow> (nat \<Rightarrow> nat \<Rightarrow> nat) \<Rightarrow> nat \<Rightarrow> nat \<Rightarrow> nat \<Rightarrow> bool" where
  "chunks_apart lb cb C ds n cc \<longleftrightarrow>
     (\<forall>r < n. \<forall>j < n. \<forall>c < cc. \<forall>j' < n. \<forall>c' < cc.
        rng_disj (lb r j c, C j c * ds) (cb r j' c', C j' c' * ds) \<and>
        ((j, c) \<noteq> (j', c') \<longrightarrow>
           rng_disj (lb r j c, C j c * ds) (lb r j' c', C j' c' * ds) \<and>
           rng_disj (cb r j c, C j c * ds) (cb r j' c', C j' c' * ds)))"

lemma apart_lb_cb:
  "chunks_apart lb cb C ds n cc \<Longrightarrow> r < n \<Longrightarrow> j < n \<Longrightarrow> c < cc \<Longrightarrow> j' < n \<Longrightarrow> c' < cc \<Longrightarrow>
   rng_disj (lb r j c, C j c * ds) (cb r j' c', C j' c' * ds)"
  unfolding chunks_apart_def by blast

lemma apart_cb_lb:
  "chunks_apart lb cb C ds n cc \<Longrightarrow> r < n \<Longrightarrow> j < n \<Longrightarrow> c < cc \<Longrightarrow> j' < n \<Longrightarrow> c' < cc \<Longrightarrow>
   rng_disj (cb r j c, C j c * ds) (lb r j' c', C j' c' * ds)"
  using apart_lb_cb rng_disj_sym by blast

lemma apart_lb_lb:
  "chunks_apart lb cb C ds n cc \<Longrightarrow> r < n \<Longrightarrow> j < n \<Longrightarrow> c < cc \<Longrightarrow> j' < n \<Longrightarrow> c' < cc \<Longrightarrow> (j, c) \<noteq> (j', c') \<Longrightarrow>
   rng_disj (lb r j c, C j c * ds) (lb r j' c', C j' c' * ds)"
  unfolding chunks_apart_def by blast

lemma apart_cb_cb:
  "chunks_apart lb cb C ds n cc \<Longrightarrow> r < n \<Longrightarrow> j < n \<Longrightarrow> c < cc \<Longrightarrow> j' < n \<Longrightarrow> c' < cc \<Longrightarrow> (j, c) \<noteq> (j', c') \<Longrightarrow>
   rng_disj (cb r j c, C j c * ds) (cb r j' c', C j' c' * ds)"
  unfolding chunks_apart_def by blast

lemmas apart = apart_lb_cb apart_cb_lb apart_lb_lb apart_cb_cb

text \<open>
  Chunk \<open>c\<close> of block \<open>sblk n r k\<close> is the \<open>(k - 1) * cc + c\<close>-th that rank \<open>r\<close> receives. After \<open>tr\<close> receives and
  \<open>td\<close> reductions:
\<close>

definition chunk_inv ::
    "('v \<Rightarrow> 'v \<Rightarrow> 'v) \<Rightarrow> (rank \<Rightarrow> nat \<Rightarrow> nat \<Rightarrow> loc) \<Rightarrow> (rank \<Rightarrow> nat \<Rightarrow> nat \<Rightarrow> loc) \<Rightarrow> (rank \<Rightarrow> bool) \<Rightarrow> (nat \<Rightarrow> nat \<Rightarrow> nat) \<Rightarrow>
     nat \<Rightarrow> nat \<Rightarrow> nat \<Rightarrow> (nat \<Rightarrow> nat \<Rightarrow> rank \<Rightarrow> 'v list) \<Rightarrow> nat \<Rightarrow> nat \<Rightarrow> 'v mem \<Rightarrow> rank \<Rightarrow> nat \<Rightarrow> nat \<Rightarrow> bool" where
  "chunk_inv f lb cb inpl C ds n cc D tr td m r k c \<longleftrightarrow>
     (let j = sblk n r k; p = (k - 1) * cc + c in
      (k = 0 \<or> td \<le> p \<longrightarrow> read_cells m (lb r j c) (C j c) ds = D j c r) \<and>
      (0 < k \<and> td \<le> p \<and> p < tr \<longrightarrow>
         read_cells m (cb r j c) (C j c) ds = red_elems f (C j c) (D j c) (rks n (left_of n r) (k - 1))) \<and>
      (0 < k \<and> p < td \<longrightarrow>
         read_cells m ((if inpl r then lb else cb) r j c) (C j c) ds = red_elems f (C j c) (D j c) (rks n r k)))"

definition rr_inv ::
    "('v \<Rightarrow> 'v \<Rightarrow> 'v) \<Rightarrow> (rank \<Rightarrow> nat \<Rightarrow> nat \<Rightarrow> loc) \<Rightarrow> (rank \<Rightarrow> nat \<Rightarrow> nat \<Rightarrow> loc) \<Rightarrow> (rank \<Rightarrow> bool) \<Rightarrow> (nat \<Rightarrow> nat \<Rightarrow> nat) \<Rightarrow>
     nat \<Rightarrow> nat \<Rightarrow> nat \<Rightarrow> (nat \<Rightarrow> nat \<Rightarrow> rank \<Rightarrow> 'v list) \<Rightarrow> nat \<Rightarrow> nat \<Rightarrow> (rank \<Rightarrow> 'v mem) \<Rightarrow> bool" where
  "rr_inv f lb cb inpl C ds n cc D tr td M \<longleftrightarrow>
     (\<forall>r < n. \<forall>k < n. \<forall>c < cc. chunk_inv f lb cb inpl C ds n cc D tr td (M r) r k c)"

text \<open>Memory changes that leave a chunk alone keep its part of the invariant.\<close>

lemma chunk_inv_keep:
  assumes "chunk_inv f lb cb inpl C ds n cc D tr td m r k c" and "j = sblk n r k"
    and "read_cells m' (lb r j c) (C j c) ds = read_cells m (lb r j c) (C j c) ds"
    and "read_cells m' (cb r j c) (C j c) ds = read_cells m (cb r j c) (C j c) ds"
    and "0 < k \<Longrightarrow> (k - 1) * cc + c < tr' \<longleftrightarrow> (k - 1) * cc + c < tr"
    and "0 < k \<Longrightarrow> (k - 1) * cc + c < td' \<longleftrightarrow> (k - 1) * cc + c < td"
  shows "chunk_inv f lb cb inpl C ds n cc D tr' td' m' r k c"
  using assms by (cases k) (auto simp: chunk_inv_def Let_def not_less [symmetric])

lemma pos_div_mod: "c < cc \<Longrightarrow> (k * cc + c) div cc = k \<and> (k * cc + c) mod cc = c" for k c cc :: nat
  by (simp add: add.commute)

lemma pos_eq: "c < cc \<Longrightarrow> k * cc + c = t \<longleftrightarrow> k = t div cc \<and> c = t mod cc" for k c cc t :: nat
  using pos_div_mod [of c cc k] by auto

text \<open>The value a rank sends in iteration \<open>i\<close> is that of the ranks reduced so far.\<close>

lemma rr_sent:
  assumes inv: "rr_inv f lb cb inpl C ds n cc D tr td M" and s: "s < n" and i: "i < n" and c: "c < cc"
    and dn: "0 < i \<Longrightarrow> (i - 1) * cc + c < td" and len: "\<And>j c r. length (D j c r) = C j c"
  shows "read_cells (M s) ((if i = 0 \<or> inpl s then lb else cb) s (sblk n s i) c) (C (sblk n s i) c) ds =
    red_elems f (C (sblk n s i) c) (D (sblk n s i) c) (rks n s i)"
proof (cases i)
  case 0
  have "chunk_inv f lb cb inpl C ds n cc D tr td (M s) s i c" using inv s i c by (auto simp: rr_inv_def)
  with 0 show ?thesis using red_elems_single [of "D (sblk n s 0) c" s, OF len] s by (simp add: chunk_inv_def Let_def rks_0)
next
  case (Suc i')
  have "chunk_inv f lb cb inpl C ds n cc D tr td (M s) s i c" using inv s i c by (auto simp: rr_inv_def)
  with Suc dn show ?thesis by (auto simp: chunk_inv_def Let_def)
qed

lemma reduce_cells_read:
  "0 < ds \<Longrightarrow> read_cells (reduce_cells f m a cnt b ds) b cnt ds =
     map2 f (read_cells m a cnt ds) (read_cells m b cnt ds)"
  by (simp add: reduce_cells_def)

lemma reduce_cells_other:
  "0 < ds \<Longrightarrow> rng_disj (b, cnt * ds) (l, cnt' * ds) \<Longrightarrow>
   read_cells (reduce_cells f m a cnt b ds) l cnt' ds = read_cells m l cnt' ds"
  by (simp add: reduce_cells_def read_write_other)

text \<open>Reducing the own data with what the left neighbour reduced.\<close>

lemma red_step:
  assumes "abel_semigroup f" and "r < n" and "Suc k < n" and "\<And>j c r. length (D j c r) = C j c"
  shows "map2 f (red_elems f (C j c) (D j c) (rks n (left_of n r) k)) (D j c r) = red_elems f (C j c) (D j c) (rks n r (Suc k))"
    and "map2 f (D j c r) (red_elems f (C j c) (D j c) (rks n (left_of n r) k)) = red_elems f (C j c) (D j c) (rks n r (Suc k))"
proof -
  have own: "D j c r = red_elems f (C j c) (D j c) [r]" using red_elems_single [of "D j c" r, OF assms(4)] by simp
  note ap = abel_semigroup.red_elems_append [OF assms(1)]
  show "map2 f (D j c r) (red_elems f (C j c) (D j c) (rks n (left_of n r) k)) = red_elems f (C j c) (D j c) (rks n r (Suc k))"
    by (subst own) (simp add: ap rks_Suc [OF assms(2,3)])
  show "map2 f (red_elems f (C j c) (D j c) (rks n (left_of n r) k)) (D j c r) = red_elems f (C j c) (D j c) (rks n r (Suc k))"
    by (subst own) (auto simp: ap rks_Suc [OF assms(2,3)] intro: abel_semigroup.red_elems_perm [OF assms(1)])
qed

lemma pos_bound: "t < (n - 1) * cc \<Longrightarrow> Suc (t div cc) < n \<and> t mod cc < cc" for t n cc :: nat
proof -
  assume "t < (n - 1) * cc"
  then have "t div cc < n - 1" "0 < cc" by (auto simp: less_mult_imp_div_less intro: gr0I)
  then show ?thesis by simp
qed

text \<open>A chunk is received.\<close>

lemma rr_recv_step:
  assumes "0 < ds" and "chunks_apart lb cb C ds n cc" and len: "\<And>j c r. length (D j c r) = C j c"
    and inv: "rr_inv f lb cb inpl C ds n cc D t td M" and t: "t < (n - 1) * cc" and "cc \<noteq> 1" and "td \<le> t"
    and dn: "0 < t div cc \<Longrightarrow> (t div cc - 1) * cc + t mod cc < td"
  shows "rr_inv f lb cb inpl C ds n cc D (Suc t) td (round_mem f (rr_comm lb cb inpl C ds n cc t) M)"
  unfolding rr_inv_def
proof (intro allI impI)
  fix r k c assume r: "r < n" and k: "k < n" and c: "c < cc"
  define j c0 s where "j = sblk n r (Suc (t div cc))" and "c0 = t mod cc" and "s = left_of n r"
  let ?M = "round_mem f (rr_comm lb cb inpl C ds n cc t) M"
  from pos_bound [OF t] have i: "Suc (t div cc) < n" and c0: "c0 < cc" by (auto simp: c0_def)
  have sj: "sblk n s (t div cc) = j" unfolding s_def j_def by (rule sblk_left [OF i r])
  have s: "s < n" using r by (simp add: s_def)
  have sent: "read_cells (M s) ((if t div cc = 0 \<or> inpl s then lb else cb) s j c0) (C j c0) ds =
      red_elems f (C j c0) (D j c0) (rks n s (t div cc))"
    using rr_sent [OF inv s _ c0 _ len, of "t div cc"] i dn unfolding sj c0_def by simp
  have mem: "?M r = write_cells (M r) (cb r j c0) ds (red_elems f (C j c0) (D j c0) (rks n s (t div cc)))"
    using assms(6) unfolding rr_comm_mem [OF i r] Let_def
    by (simp only: sent [unfolded s_def] s_def if_False flip: j_def c0_def)
  have old: "chunk_inv f lb cb inpl C ds n cc D t td (M r) r k c" using inv r k c by (auto simp: rr_inv_def)
  have jn: "j < n" "sblk n r k < n" using r by (auto simp: j_def sblk_less)
  show "chunk_inv f lb cb inpl C ds n cc D (Suc t) td (?M r) r k c"
  proof (cases "k = Suc (t div cc) \<and> c = c0")
    case True
    then have p: "(k - 1) * cc + c = t" by (simp add: c0_def)
    have "read_cells (?M r) (lb r j c0) (C j c0) ds = read_cells (M r) (lb r j c0) (C j c0) ds"
      unfolding mem by (rule read_write_other) (use assms(1) apart_cb_lb [OF assms(2) r jn(1) c0 jn(1) c0] in simp_all)
    moreover have "read_cells (?M r) (cb r j c0) (C j c0) ds = red_elems f (C j c0) (D j c0) (rks n s (t div cc))"
      unfolding mem by (rule read_write_same [OF assms(1)]) simp
    ultimately show ?thesis
      using old True p assms(7) by (auto simp: chunk_inv_def Let_def j_def s_def)
  next
    case False
    have ne: "(j, c0) \<noteq> (sblk n r k, c)" using False sblk_inj [OF i k r] by (auto simp: j_def)
    have "0 < k \<Longrightarrow> (k - 1) * cc + c \<noteq> t" using False c by (auto simp: pos_eq c0_def)
    then have lt: "0 < k \<Longrightarrow> (k - 1) * cc + c < Suc t \<longleftrightarrow> (k - 1) * cc + c < t" by auto
    show ?thesis
    proof (rule chunk_inv_keep [OF old refl _ _ lt])
      show "read_cells (?M r) (lb r (sblk n r k) c) (C (sblk n r k) c) ds = read_cells (M r) (lb r (sblk n r k) c) (C (sblk n r k) c) ds"
        unfolding mem by (rule read_write_other) (use assms(1) apart_cb_lb [OF assms(2) r jn(1) c0 jn(2) c] in simp_all)
      show "read_cells (?M r) (cb r (sblk n r k) c) (C (sblk n r k) c) ds = read_cells (M r) (cb r (sblk n r k) c) (C (sblk n r k) c) ds"
        unfolding mem by (rule read_write_other) (use assms(1) apart_cb_cb [OF assms(2) r jn(1) c0 jn(2) c ne] in simp_all)
    qed simp_all
  qed
qed

text \<open>The reduction of one chunk: what it leaves in the result and in other chunks.\<close>

lemma reduce_chunk:
  assumes "abel_semigroup f" and "0 < ds" and "chunks_apart lb cb C ds n cc" and len: "\<And>j c r. length (D j c r) = C j c"
    and r: "r < n" and i: "Suc i < n" and c: "c < cc" and j: "j = sblk n r (Suc i)"
    and l: "read_cells m (lb r j c) (C j c) ds = D j c r"
    and b: "read_cells m (cb r j c) (C j c) ds = red_elems f (C j c) (D j c) (rks n (left_of n r) i)"
    and m': "m' = reduce_cells f m ((if inpl r then cb else lb) r j c) (C j c) ((if inpl r then lb else cb) r j c) ds"
  shows "read_cells m' ((if inpl r then lb else cb) r j c) (C j c) ds = red_elems f (C j c) (D j c) (rks n r (Suc i))"
    and "j' < n \<Longrightarrow> c' < cc \<Longrightarrow> (j, c) \<noteq> (j', c') \<Longrightarrow> read_cells m' (lb r j' c') (C j' c') ds = read_cells m (lb r j' c') (C j' c') ds"
    and "j' < n \<Longrightarrow> c' < cc \<Longrightarrow> (j, c) \<noteq> (j', c') \<Longrightarrow> read_cells m' (cb r j' c') (C j' c') ds = read_cells m (cb r j' c') (C j' c') ds"
proof -
  have jn: "j < n" using r by (simp add: j sblk_less)
  show "read_cells m' ((if inpl r then lb else cb) r j c) (C j c) ds = red_elems f (C j c) (D j c) (rks n r (Suc i))"
    unfolding m' reduce_cells_read [OF assms(2)] using red_step [OF assms(1) r i len] by (auto simp: l b)
  assume j': "j' < n" "c' < cc" "(j, c) \<noteq> (j', c')"
  note a = apart_lb_cb [OF assms(3) r jn c j'(1,2)] apart_cb_lb [OF assms(3) r jn c j'(1,2)]
    apart_lb_lb [OF assms(3) r jn c j'] apart_cb_cb [OF assms(3) r jn c j']
  show "read_cells m' (lb r j' c') (C j' c') ds = read_cells m (lb r j' c') (C j' c') ds"
    unfolding m' by (rule reduce_cells_other [OF assms(2)]) (use a in auto)
  show "read_cells m' (cb r j' c') (C j' c') ds = read_cells m (cb r j' c') (C j' c') ds"
    unfolding m' by (rule reduce_cells_other [OF assms(2)]) (use a in auto)
qed

lemma rr_local_step:
  assumes "abel_semigroup f" and "0 < ds" and "chunks_apart lb cb C ds n cc" and len: "\<And>j c r. length (D j c r) = C j c"
    and inv: "rr_inv f lb cb inpl C ds n cc D tr td M" and td: "td < tr" "td < (n - 1) * cc" and "cc \<noteq> 1"
  shows "rr_inv f lb cb inpl C ds n cc D tr (Suc td) (round_mem f (rr_local lb cb inpl C ds n cc (Suc td)) M)"
  unfolding rr_inv_def
proof (intro allI impI)
  fix r k c assume r: "r < n" and k: "k < n" and c: "c < cc"
  define i where "i = td div cc"
  define j c0 where "j = sblk n r (Suc i)" and "c0 = td mod cc"
  let ?M = "round_mem f (rr_local lb cb inpl C ds n cc (Suc td)) M"
  from pos_bound [OF td(2)] have i: "Suc i < n" and c0: "c0 < cc" by (auto simp: c0_def i_def)
  have p0: "i * cc + c0 = td" by (simp add: c0_def i_def)
  have mem: "?M r = reduce_cells f (M r) ((if inpl r then cb else lb) r j c0) (C j c0) ((if inpl r then lb else cb) r j c0) ds"
    using rr_local_mem [OF r assms(8) zero_less_Suc, of f lb cb inpl C ds td M] by (simp add: j_def c0_def i_def)
  have "chunk_inv f lb cb inpl C ds n cc D tr td (M r) r (Suc i) c0" using inv r i c0 by (auto simp: rr_inv_def)
  then have "read_cells (M r) (lb r j c0) (C j c0) ds = D j c0 r"
    "read_cells (M r) (cb r j c0) (C j c0) ds = red_elems f (C j c0) (D j c0) (rks n (left_of n r) i)"
    using p0 td(1) by (simp_all add: chunk_inv_def Let_def flip: j_def)
  note red = reduce_chunk [where lb = lb and cb = cb and C = C and D = D and inpl = inpl and m = "M r", OF assms(1-4) r i c0 j_def this mem]
  have old: "chunk_inv f lb cb inpl C ds n cc D tr td (M r) r k c" using inv r k c by (auto simp: rr_inv_def)
  show "chunk_inv f lb cb inpl C ds n cc D tr (Suc td) (?M r) r k c"
  proof (cases "k = Suc i \<and> c = c0")
    case True
    with red(1) p0 show ?thesis by (simp add: chunk_inv_def Let_def flip: j_def)
  next
    case False
    have ne: "(j, c0) \<noteq> (sblk n r k, c)" using False sblk_inj [OF i k r] by (auto simp: j_def)
    have sn: "sblk n r k < n" using r by (simp add: sblk_less)
    have "0 < k \<Longrightarrow> (k - 1) * cc + c \<noteq> td" using False c by (auto simp: pos_eq c0_def i_def)
    then have lt: "0 < k \<Longrightarrow> (k - 1) * cc + c < Suc td \<longleftrightarrow> (k - 1) * cc + c < td" by auto
    show ?thesis
      by (rule chunk_inv_keep [OF old refl red(2) [OF sn c ne] red(3) [OF sn c ne] refl lt])
  qed
qed

text \<open>With one chunk, receiving and reducing are one entry.\<close>

lemma rr_both_step:
  assumes "abel_semigroup f" and "0 < ds" and "chunks_apart lb cb C ds n cc" and len: "\<And>j c r. length (D j c r) = C j c"
    and inv: "rr_inv f lb cb inpl C ds n cc D t t M" and t: "t < (n - 1) * cc" and cc: "cc = 1"
  shows "rr_inv f lb cb inpl C ds n cc D (Suc t) (Suc t) (round_mem f (rr_comm lb cb inpl C ds n cc t) M)"
  unfolding rr_inv_def
proof (intro allI impI)
  fix r k c assume r: "r < n" and k: "k < n" and c: "c < cc"
  define j s where "j = sblk n r (Suc t)" and "s = left_of n r"
  let ?M = "round_mem f (rr_comm lb cb inpl C ds n cc t) M"
  let ?v = "red_elems f (C j 0) (D j 0) (rks n s t)"
  define m1 where "m1 = write_cells (M r) (cb r j 0) ds ?v"
  have i: "Suc t < n" and dm: "t div cc = t" "t mod cc = 0" and c0: "0 < cc" and c: "c = 0" using t cc c by auto
  then have i': "Suc (t div cc) < n" by simp
  have sj: "sblk n s t = j" unfolding s_def j_def by (rule sblk_left [OF i r])
  have s: "s < n" using r by (simp add: s_def)
  have sent: "read_cells (M s) ((if t = 0 \<or> inpl s then lb else cb) s j 0) (C j 0) ds = ?v"
    using rr_sent [OF inv s _ c0 _ len, of t] i cc unfolding sj by auto
  have "?M r = recv_reduce_update f (M r) (lb r j 0) (C j 0) ds (cb r j 0) (inpl r) ?v"
    unfolding rr_comm_mem [OF i' r] Let_def dm using cc sent by (simp only: simp_thms if_True j_def s_def)
  then have mem: "?M r = reduce_cells f m1 ((if inpl r then cb else lb) r j 0) (C j 0) ((if inpl r then lb else cb) r j 0) ds"
    by (simp add: m1_def Let_def)
  have jn: "j < n" using r by (auto simp: j_def sblk_less)
  have "chunk_inv f lb cb inpl C ds n cc D t t (M r) r (Suc t) 0" using inv r i c0 by (auto simp: rr_inv_def)
  then have l: "read_cells (M r) (lb r j 0) (C j 0) ds = D j 0 r" using cc by (simp add: chunk_inv_def Let_def flip: j_def)
  have oth: "read_cells m1 x (C j' c') ds = read_cells (M r) x (C j' c') ds"
    if "rng_disj (cb r j 0, C j 0 * ds) (x, C j' c' * ds)" for x j' c'
    unfolding m1_def by (rule read_write_other) (use assms(2) that in simp_all)
  have "read_cells m1 (lb r j 0) (C j 0) ds = D j 0 r"
    using oth [OF apart_cb_lb [OF assms(3) r jn c0 jn c0]] l by simp
  moreover have "read_cells m1 (cb r j 0) (C j 0) ds = red_elems f (C j 0) (D j 0) (rks n (left_of n r) t)"
    unfolding m1_def using assms(2) by (simp add: s_def)
  ultimately have red: "read_cells (?M r) ((if inpl r then lb else cb) r j 0) (C j 0) ds = red_elems f (C j 0) (D j 0) (rks n r (Suc t))"
    "j' < n \<Longrightarrow> (j, 0) \<noteq> (j', 0::nat) \<Longrightarrow> read_cells (?M r) (lb r j' 0) (C j' 0) ds = read_cells m1 (lb r j' 0) (C j' 0) ds"
    "j' < n \<Longrightarrow> (j, 0) \<noteq> (j', 0::nat) \<Longrightarrow> read_cells (?M r) (cb r j' 0) (C j' 0) ds = read_cells m1 (cb r j' 0) (C j' 0) ds" for j'
    using reduce_chunk [where lb = lb and cb = cb and C = C and D = D and inpl = inpl and m = m1,
        OF assms(1-4) r i c0 j_def _ _ mem] c0 by blast+
  have old: "chunk_inv f lb cb inpl C ds n cc D t t (M r) r k 0" using inv r k c0 by (auto simp: rr_inv_def)
  show "chunk_inv f lb cb inpl C ds n cc D (Suc t) (Suc t) (?M r) r k c"
  proof (cases "k = Suc t")
    case True
    with red(1) cc c show ?thesis by (simp add: chunk_inv_def Let_def flip: j_def)
  next
    case False
    have ne: "(j, 0) \<noteq> (sblk n r k, 0::nat)" using False sblk_inj [OF i k r] by (auto simp: j_def)
    have sn: "sblk n r k < n" using r by (simp add: sblk_less)
    have lt: "0 < k \<Longrightarrow> (k - 1) * cc + 0 < Suc t \<longleftrightarrow> (k - 1) * cc + 0 < t" using False cc by auto
    show ?thesis
      unfolding c
      by (rule chunk_inv_keep [OF old refl _ _ lt lt])
        (simp_all only: red(2) [OF sn ne] red(3) [OF sn ne] oth [OF apart_cb_lb [OF assms(3) r jn c0 sn c0]]
          oth [OF apart_cb_cb [OF assms(3) r jn c0 sn c0 ne]])
  qed
qed

section \<open>The rounds in sequence\<close>

definition rr_comm_E ::
    "(rank \<Rightarrow> nat \<Rightarrow> nat \<Rightarrow> loc) \<Rightarrow> (rank \<Rightarrow> nat \<Rightarrow> nat \<Rightarrow> loc) \<Rightarrow> (rank \<Rightarrow> bool) \<Rightarrow> (nat \<Rightarrow> nat \<Rightarrow> nat) \<Rightarrow>
     nat \<Rightarrow> nat \<Rightarrow> nat \<Rightarrow> nat \<Rightarrow> round" where
  "rr_comm_E lb cb inpl C ds n cc t r =
     (if cc = 1 \<or> t = 0 then with_barrier (rr_comm lb cb inpl C ds n cc t r)
      else map (\<lambda>x. (x, False)) (rr_comm lb cb inpl C ds n cc t r))"

definition rr_local_E ::
    "(rank \<Rightarrow> nat \<Rightarrow> nat \<Rightarrow> loc) \<Rightarrow> (rank \<Rightarrow> nat \<Rightarrow> nat \<Rightarrow> loc) \<Rightarrow> (rank \<Rightarrow> bool) \<Rightarrow> (nat \<Rightarrow> nat \<Rightarrow> nat) \<Rightarrow>
     nat \<Rightarrow> nat \<Rightarrow> nat \<Rightarrow> nat \<Rightarrow> round" where
  "rr_local_E lb cb inpl C ds n cc t r = with_barrier (rr_local lb cb inpl C ds n cc t r)"

definition rr_rounds ::
    "(rank \<Rightarrow> nat \<Rightarrow> nat \<Rightarrow> loc) \<Rightarrow> (rank \<Rightarrow> nat \<Rightarrow> nat \<Rightarrow> loc) \<Rightarrow> (rank \<Rightarrow> bool) \<Rightarrow> (nat \<Rightarrow> nat \<Rightarrow> nat) \<Rightarrow>
     nat \<Rightarrow> nat \<Rightarrow> nat \<Rightarrow> round list" where
  "rr_rounds lb cb inpl C ds n cc =
     concat (map (\<lambda>t. [rr_comm_E lb cb inpl C ds n cc t, rr_local_E lb cb inpl C ds n cc t]) [0..<(n - 1) * cc]) @
     [rr_local_E lb cb inpl C ds n cc ((n - 1) * cc)]"

lemma rr_comm_seg: "round_seg (rr_comm_E lb cb inpl C ds n cc t) = rr_comm lb cb inpl C ds n cc t"
  by (simp add: fun_eq_iff round_seg_def rr_comm_E_def with_barrier_ops comp_def)

lemma rr_local_seg: "round_seg (rr_local_E lb cb inpl C ds n cc t) = rr_local lb cb inpl C ds n cc t"
  by (simp add: fun_eq_iff round_seg_def rr_local_E_def with_barrier_ops)

lemma rr_rounds_good: "good_rounds n (rr_rounds lb cb inpl C ds n cc)"
proof -
  have "is_round n (round_seg (rr_comm_E lb cb inpl C ds n cc t))" if "t < (n - 1) * cc" for t
    using pos_bound [OF that] rr_comm_round by (simp add: is_round_def rr_comm_seg)
  moreover have "is_round n (round_seg (rr_local_E lb cb inpl C ds n cc t))" for t
    by (simp add: is_round_def rr_local_seg rr_local_round)
  moreover have "one_phase (rr_comm_E lb cb inpl C ds n cc t r)" "one_phase (rr_local_E lb cb inpl C ds n cc t r)" for t r
    using with_barrier_phase by (auto simp: rr_comm_E_def rr_local_E_def one_phase_def dest: in_set_butlastD)
  ultimately show ?thesis by (auto simp: good_rounds_def rr_rounds_def)
qed

definition rr_init ::
    "(rank \<Rightarrow> nat \<Rightarrow> nat \<Rightarrow> loc) \<Rightarrow> (nat \<Rightarrow> nat \<Rightarrow> nat) \<Rightarrow> nat \<Rightarrow> nat \<Rightarrow> nat \<Rightarrow> (nat \<Rightarrow> nat \<Rightarrow> rank \<Rightarrow> 'v list) \<Rightarrow> (rank \<Rightarrow> 'v mem) \<Rightarrow> bool" where
  "rr_init lb C ds n cc D M \<longleftrightarrow> (\<forall>r < n. \<forall>j < n. \<forall>c < cc. read_cells (M r) (lb r j c) (C j c) ds = D j c r)"

text \<open>In the end rank \<open>r\<close> has its block reduced over all ranks.\<close>

lemma rr_rounds_triple:
  assumes "abel_semigroup f" and "0 < ds" and "chunks_apart lb cb C ds n cc" and len: "\<And>j c r. length (D j c r) = C j c"
    and n: "1 < n" and "0 < cc"
  shows "rounds_triple f (rr_init lb C ds n cc D) (rr_rounds lb cb inpl C ds n cc)
    (\<lambda>M. \<forall>r < n. \<forall>c < cc. read_cells (M r) ((if inpl r then lb else cb) r r c) (C r c) ds = red_elems f (C r c) (D r c) [0..<n])"
proof -
  let ?T = "(n - 1) * cc"
  let ?I = "\<lambda>t. rr_inv f lb cb inpl C ds n cc D t (if cc = 1 then t else t - 1)"
  have T: "0 < ?T" using n assms(6) by simp
  have step: "rounds_triple f (?I t) [rr_comm_E lb cb inpl C ds n cc t, rr_local_E lb cb inpl C ds n cc t] (?I (Suc t))"
    if t: "t < ?T" for t
  proof (cases "cc = 1")
    case True
    with rr_both_step [where inpl = inpl, OF assms(1-4) _ t] show ?thesis
      by (auto simp: rounds_triple_def rr_comm_seg rr_local_seg rr_local_none)
  next
    case False
    show ?thesis
    proof (rule rounds_tripleI)
      fix M assume "?I t M"
      with False have inv: "rr_inv f lb cb inpl C ds n cc D t (t - 1) M" by simp
      let ?M1 = "round_mem f (rr_comm lb cb inpl C ds n cc t) M"
      have "(t div cc - 1) * cc + t mod cc < t - 1" if "0 < t div cc"
      proof -
        have "(t div cc - 1) * cc + cc = t div cc * cc" using that by (cases "t div cc") simp_all
        moreover have "t div cc * cc + t mod cc = t" by simp
        ultimately show ?thesis using False assms(6) by linarith
      qed
      then have r1: "rr_inv f lb cb inpl C ds n cc D (Suc t) (t - 1) ?M1"
        by (intro rr_recv_step [OF assms(2-4) inv t False]) auto
      show "?I (Suc t) (run_rounds f [rr_comm_E lb cb inpl C ds n cc t, rr_local_E lb cb inpl C ds n cc t] M)"
      proof (cases "t = 0")
        case True
        with r1 False show ?thesis by (simp add: rr_comm_seg rr_local_seg rr_local_none)
      next
        case t0: False
        then have "rr_inv f lb cb inpl C ds n cc D (Suc t) (Suc (t - 1)) (round_mem f (rr_local lb cb inpl C ds n cc (Suc (t - 1))) ?M1)"
          using t by (intro rr_local_step [OF assms(1-4) r1 _ _ False]) auto
        with t0 False show ?thesis by (simp add: rr_comm_seg rr_local_seg)
      qed
    qed
  qed
  have main: "rounds_triple f (?I 0) (concat (map (\<lambda>t. [rr_comm_E lb cb inpl C ds n cc t, rr_local_E lb cb inpl C ds n cc t]) [0..<?T])) (?I ?T)"
    by (rule rounds_triple_concat [where I = ?I]) (use step in auto)
  have tail: "rounds_triple f (?I ?T) [rr_local_E lb cb inpl C ds n cc ?T] (rr_inv f lb cb inpl C ds n cc D ?T ?T)"
  proof (rule rounds_tripleI)
    fix M assume I: "?I ?T M"
    show "rr_inv f lb cb inpl C ds n cc D ?T ?T (run_rounds f [rr_local_E lb cb inpl C ds n cc ?T] M)"
    proof (cases "cc = 1")
      case True
      with I show ?thesis by (simp add: rr_local_seg rr_local_none)
    next
      case False
      with I have "rr_inv f lb cb inpl C ds n cc D ?T (Suc (?T - 1)) (round_mem f (rr_local lb cb inpl C ds n cc (Suc (?T - 1))) M)"
        using T by (intro rr_local_step [OF assms(1-4) _ _ _ False]) auto
      then show ?thesis using T by (simp only: rr_local_seg Suc_diff_1 run_rounds_Cons run_rounds_Nil)
    qed
  qed
  have init: "?I 0 M" if "rr_init lb C ds n cc D M" for M
    using that n by (auto simp: rr_inv_def rr_init_def chunk_inv_def Let_def sblk_less)
  have fin: "read_cells (M r) ((if inpl r then lb else cb) r r c) (C r c) ds = red_elems f (C r c) (D r c) [0..<n]"
    if "rr_inv f lb cb inpl C ds n cc D ?T ?T M" "r < n" "c < cc" for M r c
  proof -
    have "chunk_inv f lb cb inpl C ds n cc D ?T ?T (M r) r (n - 1) c" using that n by (auto simp: rr_inv_def)
    moreover have "(n - 1 - 1) * cc + c < ?T"
    proof -
      have "?T = (n - 1 - 1) * cc + cc" using n by (cases n) (auto simp: algebra_simps)
      with that(3) show ?thesis by linarith
    qed
    ultimately have "read_cells (M r) ((if inpl r then lb else cb) r r c) (C r c) ds = red_elems f (C r c) (D r c) (rks n r (n - 1))"
      using n sblk_last [of n r] that(2) by (simp add: chunk_inv_def Let_def del: One_nat_def)
    then show ?thesis using abel_semigroup.red_elems_perm [OF assms(1) rks_all [OF that(2)]] by simp
  qed
  from main tail init fin show ?thesis by (auto simp: rounds_triple_def rr_rounds_def)
qed

section \<open>What the rounds touch\<close>

definition rr_region ::
    "(rank \<Rightarrow> nat \<Rightarrow> nat \<Rightarrow> loc) \<Rightarrow> (rank \<Rightarrow> nat \<Rightarrow> nat \<Rightarrow> loc) \<Rightarrow> (rank \<Rightarrow> bool) \<Rightarrow> (nat \<Rightarrow> nat \<Rightarrow> nat) \<Rightarrow>
     nat \<Rightarrow> nat \<Rightarrow> nat \<Rightarrow> rank \<Rightarrow> loc \<Rightarrow> bool" where
  "rr_region lb cb inpl C ds n cc r a \<longleftrightarrow>
     (\<exists>j < n. \<exists>c < cc. in_rng (cb r j c, C j c * ds) a \<or> inpl r \<and> in_rng (lb r j c, C j c * ds) a)"

lemma rr_frame:
  assumes "0 < ds" and "r < n" and "\<not> rr_region lb cb inpl C ds n cc r a"
  shows "run_rounds f (rr_rounds lb cb inpl C ds n cc) M r a = M r a"
proof (rule run_rounds_frame [OF rr_rounds_good])
  fix E assume E: "E \<in> set (rr_rounds lb cb inpl C ds n cc)"
  have c: "seg_avoids (round_seg (rr_comm_E lb cb inpl C ds n cc t) r) a" if "t < (n - 1) * cc" for t
  proof -
    have "sblk n r (Suc (t div cc)) < n" "t mod cc < cc" using assms(2) pos_bound [OF that] by (auto simp: sblk_less)
    with assms show ?thesis
      unfolding rr_comm_seg by (auto simp: seg_avoids_def rr_comm_def Let_def rr_region_def op_size_ok_def)
  qed
  have l: "seg_avoids (round_seg (rr_local_E lb cb inpl C ds n cc t) r) a" if "t \<le> (n - 1) * cc" for t
  proof (cases "0 < t")
    case True
    with that have "t - 1 < (n - 1) * cc" by linarith
    from pos_bound [OF this] have "sblk n r (Suc ((t - 1) div cc)) < n" "(t - 1) mod cc < cc"
      using assms(2) by (auto simp: sblk_less)
    with assms show ?thesis
      unfolding rr_local_seg by (auto simp: seg_avoids_def rr_local_def Let_def rr_region_def op_size_ok_def)
  qed (simp add: rr_local_seg rr_local_def seg_avoids_def)
  show "seg_avoids (round_seg E r) a"
    using E c l by (auto simp: rr_rounds_def)
qed

lemma rr_phase_safe:
  assumes "0 < ds" and ap: "chunks_apart lb cb C ds n cc" and r: "r < n" and t: "t < (n - 1) * cc"
  shows "safe_phase (rr_comm lb cb inpl C ds n cc t r @ rr_local lb cb inpl C ds n cc t r)"
proof -
  define i c where "i = t div cc" and "c = t mod cc"
  define sj rj where "sj = sblk n r i" and "rj = sblk n r (Suc i)"
  from pos_bound [OF t] have i: "Suc i < n" and c: "c < cc" by (auto simp: i_def c_def)
  have sr: "sj < n" "rj < n" "sj \<noteq> rj"
    using r sblk_inj [of i n "Suc i" r] i by (auto simp: sj_def rj_def sblk_less)
  define S where "S = (if i = 0 \<or> inpl r then lb else cb) r sj c"
  have comm: "rr_comm lb cb inpl C ds n cc t r =
      [Send S (C sj c) ds ((r + 1) mod n),
       if cc = 1 then RecvReduce (lb r rj c) (C rj c) ds (left_of n r) (cb r rj c) (inpl r)
       else Recv (cb r rj c) (C rj c) ds (left_of n r)]"
    using r by (simp add: rr_comm_def Let_def i_def c_def sj_def rj_def S_def)
  have ds: "rng_disj (cb r rj c, C rj c * ds) (S, C sj c * ds)" "rng_disj (lb r rj c, C rj c * ds) (S, C sj c * ds)"
    using apart [OF ap r sr(2) c sr(1) c] sr(3) by (auto simp: S_def)
  show ?thesis
  proof (cases "cc = 1 \<or> t = 0")
    case True
    then have "rr_local lb cb inpl C ds n cc t r = []" by (auto simp: rr_local_def)
    with comm ds assms(1) show ?thesis
      by (auto simp: safe_phase_def op_size_ok_def ops_disj_def rngs_disj_def)
  next
    case False
    define i' c' where "i' = (t - 1) div cc" and "c' = (t - 1) mod cc"
    define pj where "pj = sblk n r (Suc i')"
    have loc: "rr_local lb cb inpl C ds n cc t r =
        [ReduceLocal ((if inpl r then cb else lb) r pj c') (C pj c') ((if inpl r then lb else cb) r pj c') ds]"
      using False r by (simp add: rr_local_def Let_def i'_def c'_def pj_def)
    have "t - 1 < (n - 1) * cc" using t by linarith
    from pos_bound [OF this] have i': "Suc i' < n" and c': "c' < cc" by (auto simp: i'_def c'_def)
    have pj: "pj < n" using r by (simp add: pj_def sblk_less)
    have tt: "t = i * cc + c" "t = i' * cc + c' + 1" using False by (simp_all add: i_def c_def i'_def c'_def)
    have np: "(rj, c) \<noteq> (pj, c')"
    proof
      assume "(rj, c) = (pj, c')"
      then have "i = i'" "c = c'" using sblk_inj [OF i i' r] by (auto simp: rj_def pj_def)
      with tt show False by simp
    qed
    have ns: "(sj, c) \<noteq> (pj, c')"
    proof
      assume "(sj, c) = (pj, c')"
      then have "i = Suc i'" "c = c'" using sblk_inj [OF _ i' r, of i] i by (auto simp: sj_def pj_def)
      with tt False show False by simp
    qed
    have d2: "rng_disj (lb r pj c', C pj c' * ds) (S, C sj c * ds)" "rng_disj (cb r pj c', C pj c' * ds) (S, C sj c * ds)"
      using apart [OF ap r pj c' sr(1) c] ns by (auto simp: S_def)
    have d3: "rng_disj (cb r rj c, C rj c * ds) (lb r pj c', C pj c' * ds)" "rng_disj (cb r rj c, C rj c * ds) (cb r pj c', C pj c' * ds)"
      using apart [OF ap r sr(2) c pj c'] np by auto
    show ?thesis
      using False comm loc ds(1) d2 d3 assms(1)
      by (auto simp: safe_phase_def op_size_ok_def ops_disj_def rngs_disj_def rng_disj_sym [of _ "(cb r rj c, C rj c * ds)"])
  qed
qed

lemma rr_local_safe: "0 < ds \<Longrightarrow> safe_phase (rr_local lb cb inpl C ds n cc t r)"
  by (auto simp: safe_phase_def rr_local_def Let_def op_size_ok_def)

lemma with_barrier_E: "one_phase (with_barrier xs)" "with_barrier xs = [] \<or> ends_barrier (with_barrier xs)"
  using with_barrier_phase by auto

lemma one_phase_app: "one_phase E \<Longrightarrow> one_phase (map (\<lambda>x. (x, False)) xs @ E)"
  by (auto simp: one_phase_def butlast_append dest: in_set_butlastD)

lemma rr_phase_E:
  fixes lb cb :: "rank \<Rightarrow> nat \<Rightarrow> nat \<Rightarrow> loc" and C :: "nat \<Rightarrow> nat \<Rightarrow> nat" and inpl :: "rank \<Rightarrow> bool" and ds n cc :: nat
  defines "E \<equiv> \<lambda>t r. rr_comm_E lb cb inpl C ds n cc t r @ rr_local_E lb cb inpl C ds n cc t r"
  shows "one_phase (E t r)" and "r < n \<Longrightarrow> ends_barrier (E t r)"
    and "map fst (E t r) = rr_comm lb cb inpl C ds n cc t r @ rr_local lb cb inpl C ds n cc t r"
proof -
  have l: "cc = 1 \<or> t = 0 \<or> \<not> r < n \<Longrightarrow> rr_local lb cb inpl C ds n cc t r = []" by (auto simp: rr_local_def)
  have ne: "r < n \<Longrightarrow> rr_comm lb cb inpl C ds n cc t r \<noteq> []" by (simp add: rr_comm_def Let_def)
  show "one_phase (E t r)"
    using l with_barrier_E(1) one_phase_app [OF with_barrier_E(1)] by (auto simp: E_def rr_comm_E_def rr_local_E_def)
  show "map fst (E t r) = rr_comm lb cb inpl C ds n cc t r @ rr_local lb cb inpl C ds n cc t r"
    by (simp add: E_def rr_comm_E_def rr_local_E_def with_barrier_ops comp_def)
  assume r: "r < n"
  show "ends_barrier (E t r)"
  proof (cases "cc = 1 \<or> t = 0")
    case True
    then have "E t r = with_barrier (rr_comm lb cb inpl C ds n cc t r)"
      using l by (auto simp: E_def rr_comm_E_def rr_local_E_def)
    with ne [OF r] show ?thesis by (simp add: ends_barrier_def with_barrier_def)
  next
    case False
    then have "rr_local lb cb inpl C ds n cc t r \<noteq> []" using r by (simp add: rr_local_def Let_def)
    then show ?thesis by (simp add: E_def rr_local_E_def ends_barrier_def with_barrier_def)
  qed
qed

lemma rr_entries:
  "round_entries (rr_rounds lb cb inpl C ds n cc) r =
    concat (map (\<lambda>t. rr_comm_E lb cb inpl C ds n cc t r @ rr_local_E lb cb inpl C ds n cc t r) [0..<(n - 1) * cc]) @
    rr_local_E lb cb inpl C ds n cc ((n - 1) * cc) r"
proof -
  have "round_entries (concat (map (\<lambda>t. [g t, h t]) xs)) r = concat (map (\<lambda>t. g t r @ h t r) xs)" for g h :: "nat \<Rightarrow> round" and xs
    by (induction xs) auto
  then show ?thesis by (simp add: rr_rounds_def)
qed

lemma rr_safe:
  assumes "0 < ds" and "chunks_apart lb cb C ds n cc" and "r < n"
  shows "safe_entries (round_entries (rr_rounds lb cb inpl C ds n cc) r)"
    and "barrier_set (round_entries (rr_rounds lb cb inpl C ds n cc) r)"
proof -
  let ?E = "\<lambda>t. rr_comm_E lb cb inpl C ds n cc t r @ rr_local_E lb cb inpl C ds n cc t r"
  let ?l = "rr_local_E lb cb inpl C ds n cc ((n - 1) * cc) r"
  have E: "round_entries (rr_rounds lb cb inpl C ds n cc) r = concat (map ?E [0..<(n - 1) * cc] @ [?l])"
    by (simp add: rr_entries)
  have l: "one_phase ?l \<and> (?l = [] \<or> ends_barrier ?l) \<and> safe_phase (map fst ?l)"
    using with_barrier_E rr_local_safe [OF assms(1)] by (simp add: rr_local_E_def with_barrier_ops)
  show "safe_entries (round_entries (rr_rounds lb cb inpl C ds n cc) r)"
    unfolding E
  proof (rule safe_entries_concat)
    fix X assume "X \<in> set (map ?E [0..<(n - 1) * cc] @ [?l])"
    then consider t where "t < (n - 1) * cc" "X = ?E t" | "X = ?l" by auto
    then show "one_phase X \<and> (X = [] \<or> ends_barrier X) \<and> safe_phase (map fst X)"
    proof cases
      case 1
      then show ?thesis using rr_phase_E [where lb = lb and cb = cb and inpl = inpl and C = C and ds = ds and n = n and cc = cc and r = r] assms(3) rr_phase_safe [OF assms(1,2,3) 1(1)] by simp
    qed (use l in simp)
  qed
  show "barrier_set (round_entries (rr_rounds lb cb inpl C ds n cc) r)"
  proof (cases "?l = []")
    case True
    have "barrier_set (concat (map ?E ts))" for ts
      using rr_phase_E(2) [where lb = lb and cb = cb and inpl = inpl and C = C and ds = ds and cc = cc, OF assms(3)]
      by (induction ts rule: rev_induct) (auto simp: barrier_set_def ends_barrier_def)
    with E True show ?thesis by simp
  next
    case False
    with E l show ?thesis by (simp add: barrier_set_def ends_barrier_def)
  qed
qed

end
