(* ===== verification/CollReduceScatter.thy ===== *)
theory CollReduceScatter
  imports CollRedRing
begin

text \<open>
  Reduce-scatter (\<^verbatim>\<open>src/src/coll/algorithms/reduce_scatter/reduce_scatter.cpp\<close>): the naive and the ring
  algorithm, and the chunked ring \<^verbatim>\<open>ccl_coll_build_reduce_scatter_block\<close> that the ring algorithms of
  allreduce, reduce and reduce-scatter build on; with the in-place test of
  \<^verbatim>\<open>src/src/coll/coll_util.cpp\<close>. The reduction is any associative and commutative operation.
\<close>

section \<open>The chunked ring\<close>

text \<open>Buffers with number 0 are null: \<^verbatim>\<open>ccl_buffer::operator bool\<close> looks at the base pointer.\<close>

definition buf_ok :: "loc \<Rightarrow> bool" where
  "buf_ok b \<longleftrightarrow> fst b \<noteq> 0"

function rs_shrink_chunks :: "nat \<Rightarrow> nat \<Rightarrow> nat \<Rightarrow> nat \<Rightarrow> nat" where
  "rs_shrink_chunks bytes comm_size min_chunk chunk_count =
     (if chunk_count > 1 \<and> bytes div (comm_size * chunk_count) < min_chunk
      then rs_shrink_chunks bytes comm_size min_chunk (chunk_count - 1) else chunk_count)"
  by auto
termination by (relation "measure (\<lambda>(_, _, _, c). c)") auto

declare rs_shrink_chunks.simps [simp del]

text \<open>\<open>env_chunks\<close> and \<open>env_min\<close> are \<^verbatim>\<open>env().rs_chunk_count\<close> and \<^verbatim>\<open>env().rs_min_chunk_size\<close>.\<close>

definition rs_chunk_count :: "nat \<Rightarrow> nat \<Rightarrow> nat \<Rightarrow> nat \<Rightarrow> nat \<Rightarrow> nat" where
  "rs_chunk_count env_chunks env_min cnt ds comm_size =
     (let bytes = cnt * ds;
          chunk_count = (if bytes \<ge> env_min \<and> cnt \<ge> env_chunks \<and> int32 (int cnt) \<ge> int comm_size
                         then env_chunks else 1);
          chunk_count = rs_shrink_chunks bytes comm_size env_min chunk_count
      in if chunk_count = 0 then 1 else chunk_count)"

definition rs_block_size :: "nat \<Rightarrow> nat \<Rightarrow> nat \<Rightarrow> nat" where
  "rs_block_size cnt comm_size block_idx =
     (let main_block_size = cnt div comm_size;
          last_block_size = main_block_size + cnt mod comm_size
      in if block_idx = comm_size - 1 then last_block_size else main_block_size)"

text \<open>
  The entries of one chunk, given the sizes and byte offsets of the chunks to send, to receive and
  to reduce.
\<close>

definition rs_chunk_entries ::
    "loc \<Rightarrow> loc \<Rightarrow> loc \<Rightarrow> bool \<Rightarrow> bool \<Rightarrow> nat \<Rightarrow> nat \<Rightarrow> nat \<Rightarrow> nat \<Rightarrow> rank \<Rightarrow> rank \<Rightarrow> nat \<Rightarrow> nat \<Rightarrow> nat \<Rightarrow> nat \<Rightarrow> nat \<Rightarrow> nat \<Rightarrow> nat \<Rightarrow>
     builder \<Rightarrow> builder" where
  "rs_chunk_entries send_buf recv_buf tmp_buf inplace use_prev idx chunk_idx chunk_count comm_size src dst ds
      send_chunk_size send_chunk_offset recv_chunk_size recv_chunk_offset reduce_chunk_size reduce_chunk_offset s =
     (let sbuf = (if inplace then recv_buf else if idx = 0 then send_buf else recv_buf);
          rbuf = (if inplace then tmp_buf else recv_buf);
          reduce_in_buf = (if inplace then tmp_buf else send_buf);
          reduce_inout_buf = recv_buf;
          recv_reduce_local_buf = (if inplace then recv_buf else send_buf);
          recv_reduce_comm_buf = rbuf;
          s = create (Send (loc_add sbuf send_chunk_offset) send_chunk_size ds dst) s;
          s = (if \<not> use_prev then
                 create_recv_reduce (loc_add recv_reduce_local_buf reduce_chunk_offset) recv_chunk_size ds src
                   (Some (loc_add recv_reduce_comm_buf reduce_chunk_offset)) inplace s
               else
                 let s = create (Recv (loc_add rbuf recv_chunk_offset) recv_chunk_size ds src) s;
                     s = (if idx + chunk_idx > 0
                          then barrier_here (create (ReduceLocal (loc_add reduce_in_buf reduce_chunk_offset)
                                 reduce_chunk_size (loc_add reduce_inout_buf reduce_chunk_offset) ds) s)
                          else s)
                 in if idx = comm_size - 2 \<and> chunk_idx = chunk_count - 1
                    then create (ReduceLocal (loc_add reduce_in_buf recv_chunk_offset)
                           recv_chunk_size (loc_add reduce_inout_buf recv_chunk_offset) ds) (barrier_here s)
                    else s)
      in barrier_here s)"

text \<open>
  The body of the loop over the chunks. The state is what the loop carries: size and offset of the
  last received chunk (\<^verbatim>\<open>recv_chunk_size\<close>, \<^verbatim>\<open>recv_chunk_offset\<close>), and the schedule.
\<close>

definition rs_chunk_body ::
    "loc \<Rightarrow> loc \<Rightarrow> loc \<Rightarrow> bool \<Rightarrow> nat \<Rightarrow> nat \<Rightarrow> nat \<Rightarrow> rank \<Rightarrow> rank \<Rightarrow> nat \<Rightarrow> nat \<Rightarrow> nat \<Rightarrow> nat \<Rightarrow> nat \<Rightarrow> nat \<Rightarrow>
     nat \<times> nat \<times> builder \<Rightarrow> nat \<times> nat \<times> builder" where
  "rs_chunk_body send_buf recv_buf tmp_buf inplace chunk_count ds comm_size src dst idx
      send_block_size recv_block_size send_block_offset recv_block_offset chunk_idx st =
     (let prev_recv_chunk_size = fst st; prev_recv_chunk_offset = fst (snd st);
          use_prev = chunk_count > 1;
          send_main_chunk_size = send_block_size div chunk_count;
          send_last_chunk_size = send_main_chunk_size + send_block_size mod chunk_count;
          recv_main_chunk_size = recv_block_size div chunk_count;
          recv_last_chunk_size = recv_main_chunk_size + recv_block_size mod chunk_count;
          send_chunk_size = (if chunk_idx = chunk_count - 1 then send_last_chunk_size else send_main_chunk_size);
          recv_chunk_size = (if chunk_idx = chunk_count - 1 then recv_last_chunk_size else recv_main_chunk_size);
          reduce_chunk_size = (if use_prev then prev_recv_chunk_size else recv_chunk_size);
          send_chunk_offset = send_block_offset + send_main_chunk_size * chunk_idx * ds;
          recv_chunk_offset = recv_block_offset + recv_main_chunk_size * chunk_idx * ds;
          reduce_chunk_offset = (if use_prev then prev_recv_chunk_offset else recv_chunk_offset)
      in (recv_chunk_size, recv_chunk_offset,
          rs_chunk_entries send_buf recv_buf tmp_buf inplace use_prev idx chunk_idx chunk_count comm_size src dst ds
            send_chunk_size send_chunk_offset recv_chunk_size recv_chunk_offset reduce_chunk_size reduce_chunk_offset
            (snd (snd st))))"

text \<open>The body of the loop over the blocks; the state also has \<^verbatim>\<open>block_idx\<close>.\<close>

definition rs_block_body ::
    "loc \<Rightarrow> loc \<Rightarrow> loc \<Rightarrow> bool \<Rightarrow> nat \<Rightarrow> nat \<Rightarrow> nat \<Rightarrow> nat \<Rightarrow> rank \<Rightarrow> rank \<Rightarrow> nat \<Rightarrow>
     nat \<times> nat \<times> nat \<times> builder \<Rightarrow> nat \<times> nat \<times> nat \<times> builder" where
  "rs_block_body send_buf recv_buf tmp_buf inplace chunk_count cnt ds comm_size src dst idx st =
     (let block_idx = fst st;
          main_block_size = cnt div comm_size;
          send_block_idx = block_idx;
          recv_block_idx = (comm_size + block_idx - 1) mod comm_size;
          send_block_size = rs_block_size cnt comm_size send_block_idx;
          recv_block_size = rs_block_size cnt comm_size recv_block_idx;
          send_block_offset = main_block_size * send_block_idx * ds;
          recv_block_offset = main_block_size * recv_block_idx * ds
      in ((comm_size + block_idx - 1) mod comm_size,
          fold (rs_chunk_body send_buf recv_buf tmp_buf inplace chunk_count ds comm_size src dst idx
                  send_block_size recv_block_size send_block_offset recv_block_offset) [0..<chunk_count] (snd st)))"

definition ccl_coll_build_reduce_scatter_block ::
    "nat \<Rightarrow> nat \<Rightarrow> loc \<Rightarrow> loc \<Rightarrow> nat \<Rightarrow> nat \<Rightarrow> nat \<Rightarrow> rank \<Rightarrow> builder \<Rightarrow> builder result" where
  "ccl_coll_build_reduce_scatter_block env_chunks env_min send_buf recv_buf recv_count ds comm_size rank s =
     throw_if_not (buf_ok send_buf \<and> buf_ok recv_buf) ''incorrect values''
       (let src = (comm_size + rank - 1) mod comm_size;
            dst = (comm_size + rank + 1) mod comm_size;
            cnt = recv_count
        in if comm_size = 0 then Inr s
           else
             let chunk_count = rs_chunk_count env_chunks env_min cnt ds comm_size;
                 inplace = (send_buf = recv_buf)
             in if comm_size = 1 then
                  Inr (if inplace then s else barrier_here (create (Copy send_buf recv_buf cnt ds) s))
                else
                  let (tmp_buf, s) = (if inplace then alloc_buffer s else (null_buf, s));
                      block_idx = (rank + comm_size - 1) mod comm_size
                  in Inr (snd (snd (snd (fold
                       (rs_block_body send_buf recv_buf tmp_buf inplace chunk_count cnt ds comm_size src dst)
                       [0..<comm_size - 1] (block_idx, 0, 0, s))))))"

lemma rs_chunk_count_pos: "0 < rs_chunk_count ec em cnt ds n"
  by (simp add: rs_chunk_count_def Let_def)

section \<open>The algorithms\<close>

text \<open>
  Pointers into different buffers never alias. \<open>check\<close> is \<^verbatim>\<open>env().check_inplace_aliasing\<close>.
\<close>

definition is_reduce_scatter_inplace ::
    "bool \<Rightarrow> loc \<Rightarrow> loc \<Rightarrow> nat \<Rightarrow> nat \<Rightarrow> rank \<Rightarrow> nat \<Rightarrow> bool result" where
  "is_reduce_scatter_inplace check send_buf recv_buf recv_count dtype_size rank comm_size =
     (let recv_buf_size = recv_count * dtype_size;
          send_buf_size = recv_buf_size * comm_size;
          address_aliasing = (fst recv_buf = fst send_buf \<and> snd send_buf \<le> snd recv_buf \<and>
                              snd recv_buf < snd send_buf + send_buf_size);
          curr_send_buf = loc_add send_buf (rank * recv_buf_size);
          inplace = (recv_buf = curr_send_buf)
      in if address_aliasing \<and> \<not> inplace \<and> check
         then Inl (CclThrow ''using reduce_scatter with a recv_buf that is not in-place but that overlaps with send_buf'')
         else Inr inplace)"

definition naive_reduce_scatter_body ::
    "loc \<Rightarrow> loc \<Rightarrow> loc \<Rightarrow> nat \<Rightarrow> nat \<Rightarrow> nat \<Rightarrow> rank \<Rightarrow> nat \<Rightarrow> builder \<Rightarrow> builder" where
  "naive_reduce_scatter_body send_buf recv_buf tmp_buf recv_count dtype_size comm_size rank idx s =
     (let src = (comm_size + rank - idx) mod comm_size;
          dst = (rank + idx) mod comm_size;
          s = create (Send (loc_add send_buf (dst * recv_count * dtype_size)) recv_count dtype_size dst) s;
          s = create (Recv tmp_buf recv_count dtype_size src) s;
          s = barrier_here s
      in create (ReduceLocal tmp_buf recv_count recv_buf dtype_size) s)"

definition ccl_coll_build_naive_reduce_scatter ::
    "bool \<Rightarrow> loc \<Rightarrow> loc \<Rightarrow> nat \<Rightarrow> nat \<Rightarrow> nat \<Rightarrow> rank \<Rightarrow> builder \<Rightarrow> builder result" where
  "ccl_coll_build_naive_reduce_scatter check send_buf recv_buf recv_count dtype_size comm_size rank s =
     (if recv_count = 0 then Inr s
      else throw_if_not (buf_ok send_buf \<and> buf_ok recv_buf) ''incorrect values''
        (rbind (is_reduce_scatter_inplace check send_buf recv_buf recv_count dtype_size rank comm_size)
          (\<lambda>inplace.
             let s = (if \<not> inplace
                      then create (Copy (loc_add send_buf (rank * recv_count * dtype_size)) recv_buf recv_count dtype_size) s
                      else s);
                 (tmp_buf, s) = alloc_buffer s
             in Inr (fold (naive_reduce_scatter_body send_buf recv_buf tmp_buf recv_count dtype_size comm_size rank)
                       [1..<comm_size] s))))"

definition ccl_coll_build_ring_reduce_scatter ::
    "nat \<Rightarrow> nat \<Rightarrow> loc \<Rightarrow> loc \<Rightarrow> nat \<Rightarrow> nat \<Rightarrow> nat \<Rightarrow> rank \<Rightarrow> builder \<Rightarrow> builder result" where
  "ccl_coll_build_ring_reduce_scatter env_chunks env_min send_buf recv_buf recv_count dtype_size comm_size rank s =
     (if recv_count = 0 then Inr s
      else throw_if_not (buf_ok send_buf \<and> buf_ok recv_buf) ''incorrect values''
        (let (recv_local_buf, s) = alloc_buffer s
         in rbind (ccl_coll_build_reduce_scatter_block env_chunks env_min send_buf recv_local_buf
                     (recv_count * comm_size) dtype_size comm_size rank s)
              (\<lambda>s. Inr (create (Copy (loc_add recv_local_buf (rank * recv_count * dtype_size)) recv_buf
                                 recv_count dtype_size) s))))"

section \<open>Geometry of the chunks\<close>

definition rs_size :: "nat \<Rightarrow> nat \<Rightarrow> nat \<Rightarrow> nat \<Rightarrow> nat \<Rightarrow> nat" where
  "rs_size cnt n cc j c =
     (let b = rs_block_size cnt n j in if c = cc - 1 then b div cc + b mod cc else b div cc)"

definition rs_off :: "nat \<Rightarrow> nat \<Rightarrow> nat \<Rightarrow> nat \<Rightarrow> nat \<Rightarrow> nat \<Rightarrow> nat" where
  "rs_off cnt ds n cc j c = cnt div n * j * ds + rs_block_size cnt n j div cc * c * ds"

definition rs_lb :: "(rank \<Rightarrow> loc) \<Rightarrow> nat \<Rightarrow> nat \<Rightarrow> nat \<Rightarrow> nat \<Rightarrow> rank \<Rightarrow> nat \<Rightarrow> nat \<Rightarrow> loc" where
  "rs_lb sb cnt ds n cc r j c = loc_add (sb r) (rs_off cnt ds n cc j c)"

definition rs_cb :: "(rank \<Rightarrow> loc) \<Rightarrow> (rank \<Rightarrow> loc) \<Rightarrow> (rank \<Rightarrow> nat) \<Rightarrow> nat \<Rightarrow> nat \<Rightarrow> nat \<Rightarrow> nat \<Rightarrow> rank \<Rightarrow> nat \<Rightarrow> nat \<Rightarrow> loc" where
  "rs_cb sb rb tb cnt ds n cc r j c = loc_add (if sb r = rb r then (tb r, 0) else rb r) (rs_off cnt ds n cc j c)"

definition rs_inpl :: "(rank \<Rightarrow> loc) \<Rightarrow> (rank \<Rightarrow> loc) \<Rightarrow> rank \<Rightarrow> bool" where
  "rs_inpl sb rb r \<longleftrightarrow> sb r = rb r"

text \<open>The rounds of the block, \<open>tb r\<close> the number of the temporary buffer of rank \<open>r\<close>.\<close>

definition rs_rounds ::
    "(rank \<Rightarrow> loc) \<Rightarrow> (rank \<Rightarrow> loc) \<Rightarrow> (rank \<Rightarrow> nat) \<Rightarrow> nat \<Rightarrow> nat \<Rightarrow> nat \<Rightarrow> nat \<Rightarrow> round list" where
  "rs_rounds sb rb tb cnt ds n cc =
     rr_rounds (rs_lb sb cnt ds n cc) (rs_cb sb rb tb cnt ds n cc) (rs_inpl sb rb) (rs_size cnt n cc) ds n cc"

section \<open>The entries of the block\<close>

lemma barrier_here_idem [simp]: "barrier_here (barrier_here s) = barrier_here s"
  by (simp add: barrier_here_def)

lemma loc_add_eq [simp]: "loc_add a k = loc_add b k \<longleftrightarrow> a = b"
  by (auto simp: loc_add_def prod_eq_iff)

abbreviation rs_phase ::
    "(rank \<Rightarrow> loc) \<Rightarrow> (rank \<Rightarrow> loc) \<Rightarrow> (rank \<Rightarrow> nat) \<Rightarrow> nat \<Rightarrow> nat \<Rightarrow> nat \<Rightarrow> nat \<Rightarrow> rank \<Rightarrow> nat \<Rightarrow> (sched_op \<times> bool) list" where
  "rs_phase sb rb tb cnt ds n cc r t \<equiv>
     rr_comm_E (rs_lb sb cnt ds n cc) (rs_cb sb rb tb cnt ds n cc) (rs_inpl sb rb) (rs_size cnt n cc) ds n cc t r @
     rr_local_E (rs_lb sb cnt ds n cc) (rs_cb sb rb tb cnt ds n cc) (rs_inpl sb rb) (rs_size cnt n cc) ds n cc t r @
     (if Suc t = (n - 1) * cc
      then rr_local_E (rs_lb sb cnt ds n cc) (rs_cb sb rb tb cnt ds n cc) (rs_inpl sb rb) (rs_size cnt n cc) ds n cc (Suc t) r
      else [])"

text \<open>What the loop over the chunks carries: the last received chunk is number \<open>t - 1\<close>.\<close>

definition rs_carry ::
    "nat \<Rightarrow> nat \<Rightarrow> nat \<Rightarrow> nat \<Rightarrow> rank \<Rightarrow> nat \<Rightarrow> (sched_op \<times> bool) list \<Rightarrow> nat \<Rightarrow> nat \<times> nat \<times> builder \<Rightarrow> bool" where
  "rs_carry cnt ds n cc r t es nb st \<longleftrightarrow>
     (0 < t \<longrightarrow> fst st = rs_size cnt n cc (sblk n r (Suc ((t - 1) div cc))) ((t - 1) mod cc) \<and>
              fst (snd st) = rs_off cnt ds n cc (sblk n r (Suc ((t - 1) div cc))) ((t - 1) mod cc)) \<and>
     ops (snd (snd st)) = es \<and> next_buf (snd (snd st)) = nb"

lemma rs_chunk_entries_ops:
  assumes "inplace \<longleftrightarrow> send_buf = recv_buf" and "inplace \<longrightarrow> recv_buf \<noteq> tmp_buf"
    and S: "S = (if idx = 0 \<or> inplace then send_buf else recv_buf)" and B: "B = (if inplace then tmp_buf else recv_buf)"
    and s': "s' = rs_chunk_entries send_buf recv_buf tmp_buf inplace use_prev idx chunk_idx chunk_count comm_size src dst ds
      ssz so rsz ro psz po s"
  shows "\<not> use_prev \<Longrightarrow> ops s' = ops s @ with_barrier [Send (loc_add S so) ssz ds dst,
          RecvReduce (loc_add send_buf po) rsz ds src (loc_add B po) inplace]"
    and "use_prev \<Longrightarrow> ops s' = ops s @
       (if idx + chunk_idx = 0 then with_barrier [Send (loc_add S so) ssz ds dst, Recv (loc_add B ro) rsz ds src]
        else [(Send (loc_add S so) ssz ds dst, False), (Recv (loc_add B ro) rsz ds src, False),
              (ReduceLocal (loc_add (if inplace then B else send_buf) po) psz (loc_add recv_buf po) ds, True)]) @
       (if idx = comm_size - 2 \<and> chunk_idx = chunk_count - 1
        then [(ReduceLocal (loc_add (if inplace then B else send_buf) ro) rsz (loc_add recv_buf ro) ds, True)] else [])"
    and "next_buf s' = next_buf s"
proof -
  have rr: "create_recv_reduce (loc_add (if inplace then recv_buf else send_buf) po) rsz ds src
      (Some (loc_add (if inplace then tmp_buf else recv_buf) po)) inplace u =
      create (RecvReduce (loc_add send_buf po) rsz ds src (loc_add B po) inplace) u" for u
    using assms(1,2) B by (auto simp: create_recv_reduce_def)
  have S': "(if inplace then recv_buf else if idx = 0 then send_buf else recv_buf) = S" using assms(1) S by auto
  show "\<not> use_prev \<Longrightarrow> ops s' = ops s @ with_barrier [Send (loc_add S so) ssz ds dst,
          RecvReduce (loc_add send_buf po) rsz ds src (loc_add B po) inplace]"
    unfolding s' rs_chunk_entries_def Let_def rr S' by simp
  have C: "(if inplace then tmp_buf else send_buf) = (if inplace then B else send_buf)" using B by auto
  show "use_prev \<Longrightarrow> ops s' = ops s @
       (if idx + chunk_idx = 0 then with_barrier [Send (loc_add S so) ssz ds dst, Recv (loc_add B ro) rsz ds src]
        else [(Send (loc_add S so) ssz ds dst, False), (Recv (loc_add B ro) rsz ds src, False),
              (ReduceLocal (loc_add (if inplace then B else send_buf) po) psz (loc_add recv_buf po) ds, True)]) @
       (if idx = comm_size - 2 \<and> chunk_idx = chunk_count - 1
        then [(ReduceLocal (loc_add (if inplace then B else send_buf) ro) rsz (loc_add recv_buf ro) ds, True)] else [])"
    unfolding s' rs_chunk_entries_def Let_def rr S' B [symmetric] C by simp
  show "next_buf s' = next_buf s"
    unfolding s' rs_chunk_entries_def Let_def rr S' by simp
qed

lemma rs_last_iff:
  assumes "Suc i < n" and "c < cc"
  shows "Suc (i * cc + c) = (n - 1) * cc \<longleftrightarrow> i = n - 2 \<and> c = cc - 1"
proof -
  define n' where "n' = n - 2"
  then have n: "n = Suc (Suc n')" using assms(1) by simp
  define d where "d = cc - 1"
  have d: "d < cc" "cc = Suc d" using assms(2) by (auto simp: d_def)
  have "i * cc + c = n' * cc + d \<longleftrightarrow> i = n' \<and> c = d"
    unfolding pos_eq [OF assms(2)] using pos_div_mod [OF d(1), of n'] by simp
  moreover have "Suc (i * cc + c) = (n - 1) * cc \<longleftrightarrow> i * cc + c = n' * cc + d"
  proof -
    have "(n - 1) * cc = Suc (n' * cc + d)" using n d(2) by (simp only: diff_Suc_1 mult_Suc)
    then show ?thesis by simp
  qed
  ultimately show ?thesis by (simp only: d_def n'_def)
qed

text \<open>The entries of chunk \<open>t\<close>, written out.\<close>

lemma rs_phase_eq:
  fixes sb rb :: "rank \<Rightarrow> loc" and tb :: "rank \<Rightarrow> nat" and cnt ds :: nat
  assumes r: "r < n" and i: "Suc i < n" and c: "c < cc"
  defines "t \<equiv> i * cc + c" and "J \<equiv> sblk n r i" and "J' \<equiv> sblk n r (Suc i)"
    and "S \<equiv> (if i = 0 \<or> sb r = rb r then sb r else rb r)" and "B \<equiv> (if sb r = rb r then (tb r, 0) else rb r)"
  shows "cc = 1 \<Longrightarrow> rs_phase sb rb tb cnt ds n cc r t =
      with_barrier [Send (loc_add S (rs_off cnt ds n cc J c)) (rs_size cnt n cc J c) ds ((r + 1) mod n),
        RecvReduce (loc_add (sb r) (rs_off cnt ds n cc J' c)) (rs_size cnt n cc J' c) ds (left_of n r)
          (loc_add B (rs_off cnt ds n cc J' c)) (sb r = rb r)]"
    and "1 < cc \<Longrightarrow> rs_phase sb rb tb cnt ds n cc r t =
       (if i + c = 0 then
          with_barrier [Send (loc_add S (rs_off cnt ds n cc J c)) (rs_size cnt n cc J c) ds ((r + 1) mod n),
            Recv (loc_add B (rs_off cnt ds n cc J' c)) (rs_size cnt n cc J' c) ds (left_of n r)]
        else
          (let P = sblk n r (Suc ((t - 1) div cc)); d = (t - 1) mod cc in
          [(Send (loc_add S (rs_off cnt ds n cc J c)) (rs_size cnt n cc J c) ds ((r + 1) mod n), False),
           (Recv (loc_add B (rs_off cnt ds n cc J' c)) (rs_size cnt n cc J' c) ds (left_of n r), False),
           (ReduceLocal (loc_add (if sb r = rb r then B else sb r) (rs_off cnt ds n cc P d)) (rs_size cnt n cc P d)
              (loc_add (rb r) (rs_off cnt ds n cc P d)) ds, True)])) @
       (if i = n - 2 \<and> c = cc - 1
        then [(ReduceLocal (loc_add (if sb r = rb r then B else sb r) (rs_off cnt ds n cc J' c)) (rs_size cnt n cc J' c)
              (loc_add (rb r) (rs_off cnt ds n cc J' c)) ds, True)] else [])"
proof -
  have dm: "t div cc = i" "t mod cc = c" using pos_div_mod [OF c] by (auto simp: t_def)
  let ?lb = "rs_lb sb cnt ds n cc" and ?cb = "rs_cb sb rb tb cnt ds n cc" and ?C = "rs_size cnt n cc"
  have S: "(if i = 0 \<or> rs_inpl sb rb r then ?lb else ?cb) r J c = loc_add S (rs_off cnt ds n cc J c)"
    by (auto simp: rs_lb_def rs_cb_def S_def rs_inpl_def)
  have in': "(if rs_inpl sb rb r then ?cb else ?lb) r x y = loc_add (if sb r = rb r then B else sb r) (rs_off cnt ds n cc x y)"
    "(if rs_inpl sb rb r then ?lb else ?cb) r x y = loc_add (rb r) (rs_off cnt ds n cc x y)"
    "?cb r x y = loc_add B (rs_off cnt ds n cc x y)" "?lb r x y = loc_add (sb r) (rs_off cnt ds n cc x y)" for x y
    by (auto simp: rs_lb_def rs_cb_def B_def rs_inpl_def)
  define X where "X = Send (loc_add S (rs_off cnt ds n cc J c)) (?C J c) ds ((r + 1) mod n)"
  define Y where "Y = Recv (loc_add B (rs_off cnt ds n cc J' c)) (?C J' c) ds (left_of n r)"
  define Z where "Z = RecvReduce (loc_add (sb r) (rs_off cnt ds n cc J' c)) (?C J' c) ds (left_of n r)
          (loc_add B (rs_off cnt ds n cc J' c)) (sb r = rb r)"
  define R where "R = (\<lambda>P d. ReduceLocal (loc_add (if sb r = rb r then B else sb r) (rs_off cnt ds n cc P d)) (?C P d)
              (loc_add (rb r) (rs_off cnt ds n cc P d)) ds)"
  have rn: "(r < n) = True" using r by simp
  have comm: "rr_comm ?lb ?cb (rs_inpl sb rb) ?C ds n cc t r = [X, if cc = 1 then Z else Y]"
    unfolding rr_comm_def Let_def dm J_def [symmetric] J'_def [symmetric] S in' X_def Y_def Z_def rn if_True
    unfolding rs_inpl_def ..
  have loc: "rr_local ?lb ?cb (rs_inpl sb rb) ?C ds n cc u r =
      (if cc \<noteq> 1 \<and> 0 < u then [R (sblk n r (Suc ((u - 1) div cc))) ((u - 1) mod cc)] else [])" for u
    unfolding rr_local_def Let_def in' R_def rn simp_thms ..
  have t0: "0 < t \<longleftrightarrow> i + c \<noteq> 0" using c by (auto simp: t_def)
  have last: "Suc t = (n - 1) * cc \<longleftrightarrow> i = n - 2 \<and> c = cc - 1" unfolding t_def by (rule rs_last_iff [OF i c])
  have loc_last: "rr_local ?lb ?cb (rs_inpl sb rb) ?C ds n cc (Suc t) r = (if cc \<noteq> 1 then [R J' c] else [])"
    unfolding loc by (simp add: dm J'_def)
  show "rs_phase sb rb tb cnt ds n cc r t =
      with_barrier [Send (loc_add S (rs_off cnt ds n cc J c)) (rs_size cnt n cc J c) ds ((r + 1) mod n),
        RecvReduce (loc_add (sb r) (rs_off cnt ds n cc J' c)) (rs_size cnt n cc J' c) ds (left_of n r)
          (loc_add B (rs_off cnt ds n cc J' c)) (sb r = rb r)]" if cc: "cc = 1"
  proof -
    have "rs_phase sb rb tb cnt ds n cc r t = with_barrier [X, Z]"
      unfolding rr_comm_E_def rr_local_E_def comm loc_last unfolding loc using cc by (simp only: simp_thms if_True if_False with_barrier_simps append_Nil2 if_cancel)
    then show ?thesis unfolding X_def Z_def .
  qed
  show "rs_phase sb rb tb cnt ds n cc r t =
       (if i + c = 0 then
          with_barrier [Send (loc_add S (rs_off cnt ds n cc J c)) (rs_size cnt n cc J c) ds ((r + 1) mod n),
            Recv (loc_add B (rs_off cnt ds n cc J' c)) (rs_size cnt n cc J' c) ds (left_of n r)]
        else
          (let P = sblk n r (Suc ((t - 1) div cc)); d = (t - 1) mod cc in
          [(Send (loc_add S (rs_off cnt ds n cc J c)) (rs_size cnt n cc J c) ds ((r + 1) mod n), False),
           (Recv (loc_add B (rs_off cnt ds n cc J' c)) (rs_size cnt n cc J' c) ds (left_of n r), False),
           (ReduceLocal (loc_add (if sb r = rb r then B else sb r) (rs_off cnt ds n cc P d)) (rs_size cnt n cc P d)
              (loc_add (rb r) (rs_off cnt ds n cc P d)) ds, True)])) @
       (if i = n - 2 \<and> c = cc - 1
        then [(ReduceLocal (loc_add (if sb r = rb r then B else sb r) (rs_off cnt ds n cc J' c)) (rs_size cnt n cc J' c)
              (loc_add (rb r) (rs_off cnt ds n cc J' c)) ds, True)] else [])" if cc: "1 < cc"
  proof -
    have cc': "(cc = 1) = False" using cc by simp
    have tz: "(t = 0) = (i + c = 0)" using t0 by auto
    have "rs_phase sb rb tb cnt ds n cc r t =
        (if i + c = 0 then with_barrier [X, Y]
         else [(X, False), (Y, False), (R (sblk n r (Suc ((t - 1) div cc))) ((t - 1) mod cc), True)]) @
        (if i = n - 2 \<and> c = cc - 1 then [(R J' c, True)] else [])"
      unfolding rr_comm_E_def rr_local_E_def comm loc_last unfolding loc cc' last t0 tz simp_thms if_False if_True with_barrier_simps
      by (cases "i + c = 0") (simp_all only: simp_thms if_False if_True with_barrier_simps list.map append.simps append_Nil2)
    then show ?thesis unfolding X_def Y_def R_def Let_def .
  qed
qed

lemma rs_chunk_body_step:
  assumes r: "r < n" and i: "Suc i < n" and c: "c < cc"
    and carry: "rs_carry cnt ds n cc r (i * cc + c) es nb st"
    and tmp: "tmp = (if sb r = rb r then (tb r, 0) else null_buf)" and ne: "sb r = rb r \<longrightarrow> rb r \<noteq> (tb r, 0)"
    and args: "ssz = rs_block_size cnt n (sblk n r i)" "rsz = rs_block_size cnt n (sblk n r (Suc i))"
      "so = cnt div n * sblk n r i * ds" "ro = cnt div n * sblk n r (Suc i) * ds"
  shows "rs_carry cnt ds n cc r (Suc (i * cc + c)) (es @ rs_phase sb rb tb cnt ds n cc r (i * cc + c)) nb
    (rs_chunk_body (sb r) (rb r) tmp (sb r = rb r) cc ds n ((n + r - 1) mod n) ((n + r + 1) mod n) i ssz rsz so ro c st)"
proof -
  define t where "t = i * cc + c"
  have dm: "t div cc = i" "t mod cc = c" using pos_div_mod [OF c] by (auto simp: t_def)
  have t0: "t = 0 \<longleftrightarrow> i + c = 0" using c by (auto simp: t_def)
  have peers: "(n + r - 1) mod n = left_of n r" "(n + r + 1) mod n = (r + 1) mod n"
    by (simp add: add.commute, metis add.assoc mod_add_self1)
  obtain psz po s where st: "st = (psz, po, s)" by (cases st)
  have cs: "(if c = cc - 1 then ssz div cc + ssz mod cc else ssz div cc) = rs_size cnt n cc (sblk n r i) c"
    "(if c = cc - 1 then rsz div cc + rsz mod cc else rsz div cc) = rs_size cnt n cc (sblk n r (Suc i)) c"
    "so + ssz div cc * c * ds = rs_off cnt ds n cc (sblk n r i) c"
    "ro + rsz div cc * c * ds = rs_off cnt ds n cc (sblk n r (Suc i)) c"
    by (simp_all add: rs_size_def rs_off_def args Let_def)
  let ?body = "rs_chunk_body (sb r) (rb r) tmp (sb r = rb r) cc ds n ((n + r - 1) mod n) ((n + r + 1) mod n) i ssz rsz so ro c st"
  define s' where "s' = snd (snd ?body)"
  define S B where "S = (if i = 0 \<or> sb r = rb r then sb r else rb r)" and "B = (if sb r = rb r then (tb r, 0) else rb r)"
  have B': "B = (if sb r = rb r then tmp else rb r)" by (simp add: B_def tmp)
  have ne': "sb r = rb r \<longrightarrow> rb r \<noteq> tmp" using ne tmp by simp
  let ?psz = "if 1 < cc then psz else rs_size cnt n cc (sblk n r (Suc i)) c"
  let ?po = "if 1 < cc then po else rs_off cnt ds n cc (sblk n r (Suc i)) c"
  have s': "s' = rs_chunk_entries (sb r) (rb r) tmp (sb r = rb r) (1 < cc) i c cc n (left_of n r) ((r + 1) mod n) ds
      (rs_size cnt n cc (sblk n r i) c) (rs_off cnt ds n cc (sblk n r i) c)
      (rs_size cnt n cc (sblk n r (Suc i)) c) (rs_off cnt ds n cc (sblk n r (Suc i)) c) ?psz ?po s"
    unfolding s'_def rs_chunk_body_def Let_def cs peers st by simp
  note ops = rs_chunk_entries_ops [OF refl ne' S_def B' s']
  have prev: "0 < t \<Longrightarrow> psz = rs_size cnt n cc (sblk n r (Suc ((t - 1) div cc))) ((t - 1) mod cc) \<and>
      po = rs_off cnt ds n cc (sblk n r (Suc ((t - 1) div cc))) ((t - 1) mod cc)"
    using carry by (simp add: rs_carry_def st t_def)
  have "ops s' = ops s @ rs_phase sb rb tb cnt ds n cc r t"
  proof (cases "1 < cc")
    case False
    then have one: "cc = 1" using c by auto
    have "ops s' = ops s @ with_barrier [Send (loc_add S (rs_off cnt ds n cc (sblk n r i) c)) (rs_size cnt n cc (sblk n r i) c) ds ((r + 1) mod n),
        RecvReduce (loc_add (sb r) (rs_off cnt ds n cc (sblk n r (Suc i)) c)) (rs_size cnt n cc (sblk n r (Suc i)) c) ds (left_of n r)
          (loc_add B (rs_off cnt ds n cc (sblk n r (Suc i)) c)) (sb r = rb r)]"
      using ops(1) False by (simp only: if_False simp_thms)
    then show ?thesis
      unfolding t_def S_def B_def rs_phase_eq(1) [OF r i c one] .
  next
    case True
    show ?thesis
    proof (cases "i + c = 0")
      case z: True
      show ?thesis
        using ops(2) [OF True] unfolding t_def rs_phase_eq(2) [OF r i c True] S_def [symmetric] B_def [symmetric]
        by (simp only: z simp_thms if_True append.assoc)
    next
      case nz: False
      with t0 prev have "psz = rs_size cnt n cc (sblk n r (Suc ((t - 1) div cc))) ((t - 1) mod cc)"
        "po = rs_off cnt ds n cc (sblk n r (Suc ((t - 1) div cc))) ((t - 1) mod cc)" by auto
      then show ?thesis
        using ops(2) [OF True] unfolding t_def rs_phase_eq(2) [OF r i c True] S_def [symmetric] B_def [symmetric]
        by (simp only: nz True simp_thms if_True if_False append.assoc Let_def)
    qed
  qed
  moreover have "fst ?body = rs_size cnt n cc (sblk n r (Suc i)) c" "fst (snd ?body) = rs_off cnt ds n cc (sblk n r (Suc i)) c"
    by (simp_all add: rs_chunk_body_def Let_def flip: cs)
  moreover have "ops s = es" "next_buf s = nb" using carry by (simp_all add: rs_carry_def st)
  ultimately show ?thesis
    using ops(3) unfolding rs_carry_def s'_def [symmetric] t_def [symmetric] by (simp add: dm)
qed

lemma rs_chunks_fold:
  assumes r: "r < n" and i: "Suc i < n"
    and tmp: "tmp = (if sb r = rb r then (tb r, 0) else null_buf)" and ne: "sb r = rb r \<longrightarrow> rb r \<noteq> (tb r, 0)"
    and carry: "rs_carry cnt ds n cc r (i * cc) (es @ concat (map (rs_phase sb rb tb cnt ds n cc r) [0..<i * cc])) nb st"
  defines "body \<equiv> rs_chunk_body (sb r) (rb r) tmp (sb r = rb r) cc ds n ((n + r - 1) mod n) ((n + r + 1) mod n) i
     (rs_block_size cnt n (sblk n r i)) (rs_block_size cnt n (sblk n r (Suc i)))
     (cnt div n * sblk n r i * ds) (cnt div n * sblk n r (Suc i) * ds)"
  shows "k \<le> cc \<Longrightarrow> rs_carry cnt ds n cc r (i * cc + k)
    (es @ concat (map (rs_phase sb rb tb cnt ds n cc r) [0..<i * cc + k])) nb (fold body [0..<k] st)"
proof (induction k)
  case 0
  from carry show ?case by simp
next
  case (Suc k)
  then have k: "k < cc" and "rs_carry cnt ds n cc r (i * cc + k)
    (es @ concat (map (rs_phase sb rb tb cnt ds n cc r) [0..<i * cc + k])) nb (fold body [0..<k] st)" by auto
  from rs_chunk_body_step [where sb = sb and rb = rb and tb = tb, OF r i k this(2) tmp ne refl refl refl refl]
  have "rs_carry cnt ds n cc r (Suc (i * cc + k)) ((es @ concat (map (rs_phase sb rb tb cnt ds n cc r) [0..<i * cc + k])) @
      rs_phase sb rb tb cnt ds n cc r (i * cc + k)) nb (body k (fold body [0..<k] st))"
    unfolding body_def .
  then show ?case by simp
qed

lemma rs_blocks_fold:
  fixes cc cnt ds :: nat
  assumes r: "r < n" and n: "1 < n" and ops: "ops s = es" "next_buf s = nb"
    and tmp: "tmp = (if sb r = rb r then (tb r, 0) else null_buf)" and ne: "sb r = rb r \<longrightarrow> rb r \<noteq> (tb r, 0)"
  defines "body \<equiv> rs_block_body (sb r) (rb r) tmp (sb r = rb r) cc cnt ds n ((n + r - 1) mod n) ((n + r + 1) mod n)"
  shows "k \<le> n - 1 \<Longrightarrow>
    (let st = fold body [0..<k] ((r + n - 1) mod n, 0, 0, s) in
      fst st = sblk n r k \<and>
      rs_carry cnt ds n cc r (k * cc) (es @ concat (map (rs_phase sb rb tb cnt ds n cc r) [0..<k * cc])) nb (snd st))"
proof (induction k)
  case 0
  with ops show ?case by (simp add: sblk_def rs_carry_def)
next
  case (Suc k)
  define st where "st = fold body [0..<k] ((r + n - 1) mod n, 0, 0, s)"
  from Suc have k: "Suc k < n" and st: "fst st = sblk n r k"
    and carry: "rs_carry cnt ds n cc r (k * cc) (es @ concat (map (rs_phase sb rb tb cnt ds n cc r) [0..<k * cc])) nb (snd st)"
    by (auto simp: st_def Let_def)
  have nx: "(n + sblk n r k - 1) mod n = sblk n r (Suc k)"
  proof -
    have "(n + sblk n r k - 1) mod n = ((r + n - 1 - k) mod n + (n - 1)) mod n" using n by (simp add: add.commute sblk_def)
    also have "\<dots> = (r + n - 1 - k + (n - 1)) mod n" by (rule mod_add_left_eq)
    also have "r + n - 1 - k + (n - 1) = (r + n - 1 - Suc k) + n" using k by simp
    finally show ?thesis by (simp add: sblk_def)
  qed
  have b: "body k st = (sblk n r (Suc k), fold (rs_chunk_body (sb r) (rb r) tmp (sb r = rb r) cc ds n ((n + r - 1) mod n) ((n + r + 1) mod n) k
     (rs_block_size cnt n (sblk n r k)) (rs_block_size cnt n (sblk n r (Suc k)))
     (cnt div n * sblk n r k * ds) (cnt div n * sblk n r (Suc k) * ds)) [0..<cc] (snd st))"
    unfolding body_def rs_block_body_def Let_def st nx ..
  have "fold body [0..<Suc k] ((r + n - 1) mod n, 0, 0, s) = body k st" by (simp add: st_def)
  moreover have "rs_carry cnt ds n cc r (k * cc + cc) (es @ concat (map (rs_phase sb rb tb cnt ds n cc r) [0..<k * cc + cc])) nb (snd (body k st))"
    unfolding b snd_conv by (rule rs_chunks_fold [where sb = sb and rb = rb and tb = tb, OF r k tmp ne carry order_refl])
  ultimately show ?case using b by (simp add: Let_def add.commute del: upt_Suc)
qed

lemma rs_phases_entries:
  assumes "1 < n" and "0 < cc"
  shows "concat (map (rs_phase sb rb tb cnt ds n cc r) [0..<(n - 1) * cc]) = round_entries (rs_rounds sb rb tb cnt ds n cc) r"
proof -
  define T where "T = (n - 1) * cc - 1"
  have T: "(n - 1) * cc = Suc T" using assms by (simp add: T_def)
  have "concat (map (\<lambda>t. g t @ h t @ (if Suc t = Suc T then h (Suc t) else [])) [0..<Suc T]) =
      concat (map (\<lambda>t. g t @ h t) [0..<Suc T]) @ h (Suc T)" for g h :: "nat \<Rightarrow> (sched_op \<times> bool) list"
  proof -
    have "map (\<lambda>t. g t @ h t @ (if Suc t = Suc T then h (Suc t) else [])) [0..<T] = map (\<lambda>t. g t @ h t) [0..<T]" by auto
    from arg_cong [OF this, of concat] show ?thesis by simp
  qed
  then show ?thesis unfolding rs_rounds_def rr_entries T .
qed

lemma rs_block_build:
  assumes r: "r < n" and n: "1 < n" and ok: "buf_ok (sb r)" "buf_ok (rb r)" and fresh: "fst (rb r) < next_buf s"
    and cc: "cc = rs_chunk_count ec em cnt ds n" and tb: "tb r = next_buf s"
  obtains s' where "ccl_coll_build_reduce_scatter_block ec em (sb r) (rb r) cnt ds n r s = Inr s'"
    "ops s' = ops s @ round_entries (rs_rounds sb rb tb cnt ds n cc) r" "next_buf s \<le> next_buf s'"
proof -
  define tmp where "tmp = (if sb r = rb r then (tb r, 0) else null_buf)"
  define s1 where "s1 = (if sb r = rb r then s\<lparr>next_buf := Suc (next_buf s)\<rparr> else s)"
  have cc0: "0 < cc" by (simp add: cc rs_chunk_count_pos)
  have alloc: "(if sb r = rb r then alloc_buffer s else (null_buf, s)) = (tmp, s1)"
    by (simp add: alloc_buffer_def tmp_def s1_def tb)
  have ne: "sb r = rb r \<longrightarrow> rb r \<noteq> (tb r, 0)" using fresh tb by auto
  define st where "st = fold (rs_block_body (sb r) (rb r) tmp (sb r = rb r) cc cnt ds n ((n + r - 1) mod n) ((n + r + 1) mod n))
      [0..<n - 1] ((r + n - 1) mod n, 0, 0, s1)"
  have "rs_carry cnt ds n cc r ((n - 1) * cc) (ops s1 @ concat (map (rs_phase sb rb tb cnt ds n cc r) [0..<(n - 1) * cc])) (next_buf s1) (snd st)"
    using rs_blocks_fold [where sb = sb and rb = rb and tb = tb, OF r n refl refl tmp_def ne order_refl, of cc cnt ds] by (simp only: st_def Let_def)
  then have "ops (snd (snd (snd st))) = ops s @ round_entries (rs_rounds sb rb tb cnt ds n cc) r" "next_buf (snd (snd (snd st))) = next_buf s1"
    unfolding rs_carry_def rs_phases_entries [OF n cc0] by (auto simp: s1_def)
  moreover have "ccl_coll_build_reduce_scatter_block ec em (sb r) (rb r) cnt ds n r s = Inr (snd (snd (snd st)))"
    using ok n unfolding ccl_coll_build_reduce_scatter_block_def Let_def alloc cc [symmetric] st_def by simp
  ultimately show thesis using that by (auto simp: s1_def)
qed

section \<open>Chunks do not overlap and cover the blocks\<close>

lemma rs_block_le:
  assumes "j < n"
  shows "cnt div n * j + rs_block_size cnt n j \<le> cnt"
proof (cases "j = n - 1")
  case True
  with assms have "Suc j = n" by simp
  then have "cnt div n * j + cnt div n = cnt div n * n" by (metis add.commute mult_Suc_right)
  moreover have "cnt div n * n + cnt mod n = cnt" by (rule div_mult_mod_eq)
  moreover have "rs_block_size cnt n j = cnt div n + cnt mod n" using True by (simp only: rs_block_size_def Let_def simp_thms if_True)
  ultimately show ?thesis by linarith
next
  case False
  have "cnt div n * Suc j \<le> cnt div n * n" using assms by (intro mult_le_mono2) simp
  moreover have "cnt div n * n + cnt mod n = cnt" by (rule div_mult_mod_eq)
  moreover have "rs_block_size cnt n j = cnt div n" using False by (simp only: rs_block_size_def Let_def if_False)
  ultimately show ?thesis unfolding mult_Suc_right by linarith
qed

lemma rs_block_next: "i < j \<Longrightarrow> j < n \<Longrightarrow> cnt div n * i + rs_block_size cnt n i \<le> cnt div n * j"
proof -
  assume "i < j" "j < n"
  then have "rs_block_size cnt n i = cnt div n" by (simp add: rs_block_size_def Let_def)
  moreover have "cnt div n * Suc i \<le> cnt div n * j" using \<open>i < j\<close> by (intro mult_le_mono2) simp
  ultimately show ?thesis by simp
qed

lemma rs_chunk_le:
  assumes "c < cc"
  shows "rs_block_size cnt n j div cc * c + rs_size cnt n cc j c \<le> rs_block_size cnt n j"
proof -
  define b where "b = rs_block_size cnt n j"
  have "b div cc * Suc c \<le> b div cc * cc" using assms by (intro mult_le_mono2) simp
  then have le: "b div cc * c + b div cc \<le> b div cc * cc" by (simp only: mult_Suc_right add.commute)
  have b: "b div cc * cc + b mod cc = b" by (rule div_mult_mod_eq)
  show ?thesis
  proof (cases "c = cc - 1")
    case True
    then have "rs_size cnt n cc j c = b div cc + b mod cc" by (simp only: rs_size_def Let_def b_def simp_thms if_True)
    with le b show ?thesis unfolding b_def [symmetric] by linarith
  next
    case False
    then have "rs_size cnt n cc j c = b div cc" by (simp only: rs_size_def Let_def b_def if_False)
    with le b show ?thesis unfolding b_def [symmetric] by linarith
  qed
qed

lemma rs_chunk_next: "c < d \<Longrightarrow> d < cc \<Longrightarrow>
  rs_block_size cnt n j div cc * c + rs_size cnt n cc j c \<le> rs_block_size cnt n j div cc * d"
proof -
  assume "c < d" "d < cc"
  then have "rs_size cnt n cc j c = rs_block_size cnt n j div cc" by (simp add: rs_size_def Let_def)
  moreover have "rs_block_size cnt n j div cc * Suc c \<le> rs_block_size cnt n j div cc * d"
    using \<open>c < d\<close> by (intro mult_le_mono2) simp
  ultimately show ?thesis by simp
qed

lemma rs_off_elems: "rs_off cnt ds n cc j c = (cnt div n * j + rs_block_size cnt n j div cc * c) * ds"
  by (simp add: rs_off_def algebra_simps)

lemma rs_off_in: "j < n \<Longrightarrow> c < cc \<Longrightarrow> rs_off cnt ds n cc j c + rs_size cnt n cc j c * ds \<le> cnt * ds"
proof -
  assume "j < n" "c < cc"
  then have "cnt div n * j + rs_block_size cnt n j div cc * c + rs_size cnt n cc j c \<le> cnt"
    using rs_block_le [of j n cnt] rs_chunk_le [of c cc cnt n j] by linarith
  then show ?thesis unfolding rs_off_elems add_mult_distrib [symmetric] by (rule mult_le_mono1)
qed

lemma rs_off_apart:
  assumes "j < n" and "c < cc" and "j' < n" and "c' < cc" and "(j, c) \<noteq> (j', c')"
  shows "rs_off cnt ds n cc j c + rs_size cnt n cc j c * ds \<le> rs_off cnt ds n cc j' c' \<or>
         rs_off cnt ds n cc j' c' + rs_size cnt n cc j' c' * ds \<le> rs_off cnt ds n cc j c"
proof -
  have *: "rs_off cnt ds n cc i a + rs_size cnt n cc i a * ds \<le> rs_off cnt ds n cc i' a'"
    if "i < i' \<or> i = i' \<and> a < a'" "i' < n" "a < cc" "a' < cc" for i a i' a'
  proof -
    have "cnt div n * i + rs_block_size cnt n i div cc * a + rs_size cnt n cc i a \<le>
        cnt div n * i' + rs_block_size cnt n i' div cc * a'"
      using that rs_block_next [of i i' n cnt] rs_chunk_le [of a cc cnt n i] rs_chunk_next [of a a' cc cnt n i] by auto
    then show ?thesis unfolding rs_off_elems add_mult_distrib [symmetric] by (rule mult_le_mono1)
  qed
  from assms(5) consider "j < j' \<or> j = j' \<and> c < c'" | "j' < j \<or> j' = j \<and> c' < c" by force
  then show ?thesis using * assms(1-4) by cases blast+
qed

lemma rs_chunk_of:
  assumes "e < rs_block_size cnt n j" and "0 < cc"
  obtains c e' where "c < cc" "e' < rs_size cnt n cc j c" "e = rs_block_size cnt n j div cc * c + e'"
proof -
  define b where "b = rs_block_size cnt n j"
  define q where "q = b div cc"
  have bq: "q * cc + b mod cc = b" by (simp add: q_def)
  show thesis
  proof (cases "e < q * (cc - 1)")
    case True
    then have q: "0 < q" by (auto intro: gr0I)
    have c: "e div q < cc - 1" using True q by (simp add: less_mult_imp_div_less mult.commute)
    have "e = q * (e div q) + e mod q" by simp
    moreover have "e mod q < rs_size cnt n cc j (e div q)"
      using c q by (simp add: rs_size_def Let_def b_def [symmetric] q_def [symmetric])
    ultimately show thesis using that [of "e div q" "e mod q"] c by (simp add: b_def q_def)
  next
    case False
    have "q * Suc (cc - 1) = q * cc" using assms(2) by simp
    then have "q * (cc - 1) + q = q * cc" by simp
    then have "e - q * (cc - 1) < q + b mod cc" using False assms(1) bq by (simp add: b_def [symmetric])
    moreover have "rs_size cnt n cc j (cc - 1) = q + b mod cc" by (simp add: rs_size_def Let_def b_def q_def)
    ultimately show thesis using that [of "cc - 1" "e - q * (cc - 1)"] False assms(2) by (simp add: b_def q_def)
  qed
qed

text \<open>
  The buffers of a rank: send and receive buffer are the same, or apart; a temporary buffer that
  was allocated later is apart from both.
\<close>

definition rs_placed :: "loc \<Rightarrow> loc \<Rightarrow> nat \<Rightarrow> bool" where
  "rs_placed sb rb bytes \<longleftrightarrow> sb = rb \<or> rng_disj (sb, bytes) (rb, bytes)"

lemma rng_disj_sub:
  assumes "rng_disj (a, N) (b, N)" and "o1 + k1 \<le> N" and "o2 + k2 \<le> N"
  shows "rng_disj (loc_add a o1, k1) (loc_add b o2, k2)"
  using assms by (auto simp: rng_disj_def loc_add_def)

lemma rng_disj_shift: "o1 + k1 \<le> o2 \<or> o2 + k2 \<le> o1 \<Longrightarrow> rng_disj (loc_add a o1, k1) (loc_add a o2, k2)"
  by (auto simp: rng_disj_def loc_add_def)

lemma rs_apart:
  assumes "\<And>r. r < n \<Longrightarrow> rs_placed (sb r) (rb r) (cnt * ds)" and "\<And>r. r < n \<Longrightarrow> fst (rb r) \<noteq> tb r"
  shows "chunks_apart (rs_lb sb cnt ds n cc) (rs_cb sb rb tb cnt ds n cc) (rs_size cnt n cc) ds n cc"
  unfolding chunks_apart_def
proof (intro allI impI conjI)
  fix r j c j' c' assume r: "r < n" and j: "j < n" "c < cc" "j' < n" "c' < cc"
  have "rng_disj (sb r, cnt * ds) (if sb r = rb r then (tb r, 0) else rb r, cnt * ds)"
    using assms [OF r] by (auto simp: rs_placed_def rng_disj_def)
  from rng_disj_sub [OF this rs_off_in [OF j(1,2)] rs_off_in [OF j(3,4)]]
  show "rng_disj (rs_lb sb cnt ds n cc r j c, rs_size cnt n cc j c * ds) (rs_cb sb rb tb cnt ds n cc r j' c', rs_size cnt n cc j' c' * ds)"
    unfolding rs_lb_def rs_cb_def .
  assume "(j, c) \<noteq> (j', c')"
  note a = rs_off_apart [OF j this]
  show "rng_disj (rs_lb sb cnt ds n cc r j c, rs_size cnt n cc j c * ds) (rs_lb sb cnt ds n cc r j' c', rs_size cnt n cc j' c' * ds)"
    unfolding rs_lb_def by (rule rng_disj_shift [OF a])
  show "rng_disj (rs_cb sb rb tb cnt ds n cc r j c, rs_size cnt n cc j c * ds) (rs_cb sb rb tb cnt ds n cc r j' c', rs_size cnt n cc j' c' * ds)"
    unfolding rs_cb_def by (rule rng_disj_shift [OF a])
qed

section \<open>The block is correct\<close>

text \<open>With one rank the data is copied.\<close>

definition rs_blk_rounds ::
    "(rank \<Rightarrow> loc) \<Rightarrow> (rank \<Rightarrow> loc) \<Rightarrow> (rank \<Rightarrow> nat) \<Rightarrow> nat \<Rightarrow> nat \<Rightarrow> nat \<Rightarrow> nat \<Rightarrow> round list" where
  "rs_blk_rounds sb rb tb cnt ds n cc =
     (if n = 1 then [\<lambda>r. if r < 1 \<and> sb r \<noteq> rb r then [(Copy (sb r) (rb r) cnt ds, True)] else []]
      else rs_rounds sb rb tb cnt ds n cc)"

text \<open>Every rank has its block of the reduction over all ranks.\<close>

definition rs_result ::
    "('v \<Rightarrow> 'v \<Rightarrow> 'v) \<Rightarrow> (rank \<Rightarrow> loc) \<Rightarrow> (rank \<Rightarrow> loc) \<Rightarrow> nat \<Rightarrow> nat \<Rightarrow> nat \<Rightarrow> (rank \<Rightarrow> 'v mem) \<Rightarrow> (rank \<Rightarrow> 'v mem) \<Rightarrow> bool" where
  "rs_result f sb rb cnt ds n M M' \<longleftrightarrow>
     (\<forall>r < n. read_cells (M' r) (loc_add (rb r) (cnt div n * r * ds)) (rs_block_size cnt n r) ds =
        take (rs_block_size cnt n r) (drop (cnt div n * r)
          (red_elems f cnt (\<lambda>q. read_cells (M q) (sb q) cnt ds) [0..<n])))"

declare loc_add_add [simp]

lemma loc_add_0 [simp]: "loc_add l 0 = l"
  by (simp add: loc_add_def)

lemma rs_rounds_result:
  assumes f: "abel_semigroup f" and ds: "0 < ds" and n: "1 < n" and cc: "0 < cc"
    and placed: "\<And>r. r < n \<Longrightarrow> rs_placed (sb r) (rb r) (cnt * ds)" and tb: "\<And>r. r < n \<Longrightarrow> fst (rb r) \<noteq> tb r"
  shows "rs_result f sb rb cnt ds n M (run_rounds f (rs_rounds sb rb tb cnt ds n cc) M)"
  unfolding rs_result_def
proof (intro allI impI)
  fix r assume r: "r < n"
  let ?lb = "rs_lb sb cnt ds n cc" and ?cb = "rs_cb sb rb tb cnt ds n cc" and ?C = "rs_size cnt n cc"
  define D where "D j c q = read_cells (M q) (?lb q j c) (?C j c) ds" for j c q
  let ?M' = "run_rounds f (rs_rounds sb rb tb cnt ds n cc) M"
  let ?b = "rs_block_size cnt n r" and ?o = "cnt div n * r"
  have "chunks_apart ?lb ?cb ?C ds n cc" by (rule rs_apart) (use placed tb in auto)
  from rounds_tripleD [OF rr_rounds_triple [where D = D and inpl = "rs_inpl sb rb", OF f ds this _ n cc], of M]
  have res: "read_cells (?M' r) ((if rs_inpl sb rb r then ?lb else ?cb) r r c) (?C r c) ds = red_elems f (?C r c) (D r c) [0..<n]"
    if "c < cc" for c
    using r that by (simp add: D_def rr_init_def rs_rounds_def)
  have loc: "(if rs_inpl sb rb r then ?lb else ?cb) r r c = loc_add (rb r) (rs_off cnt ds n cc r c)" for c
    by (auto simp: rs_lb_def rs_cb_def rs_inpl_def)
  have le: "?o + ?b \<le> cnt" by (rule rs_block_le [OF r])
  show "read_cells (?M' r) (loc_add (rb r) (?o * ds)) ?b ds =
      take ?b (drop ?o (red_elems f cnt (\<lambda>q. read_cells (M q) (sb q) cnt ds) [0..<n]))"
  proof (rule nth_equalityI)
    fix e assume "e < length (read_cells (?M' r) (loc_add (rb r) (?o * ds)) ?b ds)"
    then have e: "e < ?b" by simp
    from rs_chunk_of [OF e cc] obtain c e' where c: "c < cc" "e' < ?C r c" "e = ?b div cc * c + e'" .
    have off: "rs_off cnt ds n cc r c + e' * ds = (?o + e) * ds" by (simp add: rs_off_elems c(3) algebra_simps)
    have "read_cells (?M' r) (loc_add (rb r) (?o * ds)) ?b ds ! e = ?M' r (loc_add (rb r) ((?o + e) * ds))"
      using e by (simp add: algebra_simps)
    also have "\<dots> = read_cells (?M' r) (loc_add (rb r) (rs_off cnt ds n cc r c)) (?C r c) ds ! e'"
      using c(2) off by simp
    also have "\<dots> = red f (map (\<lambda>q. D r c q ! e') [0..<n])"
      using res [OF c(1)] c(2) unfolding loc by (simp add: red_elems_def)
    also have "\<dots> = red f (map (\<lambda>q. M q (loc_add (sb q) ((?o + e) * ds))) [0..<n])"
      using c(2) off by (simp add: D_def rs_lb_def)
    also have "\<dots> = take ?b (drop ?o (red_elems f cnt (\<lambda>q. read_cells (M q) (sb q) cnt ds) [0..<n])) ! e"
      using e le by (simp add: red_elems_def)
    finally show "read_cells (?M' r) (loc_add (rb r) (?o * ds)) ?b ds ! e = \<dots>" .
  qed (use le in simp)
qed

lemma rs_blk_result:
  assumes f: "abel_semigroup f" and ds: "0 < ds" and n: "0 < n" and cc: "0 < cc"
    and placed: "\<And>r. r < n \<Longrightarrow> rs_placed (sb r) (rb r) (cnt * ds)" and tb: "\<And>r. r < n \<Longrightarrow> fst (rb r) \<noteq> tb r"
  shows "rs_result f sb rb cnt ds n M (run_rounds f (rs_blk_rounds sb rb tb cnt ds n cc) M)"
proof (cases "n = 1")
  case True
  have "red_elems f cnt (\<lambda>q. read_cells (M q) (sb q) cnt ds) [0] = read_cells (M 0) (sb 0) cnt ds"
    using red_elems_single [of "\<lambda>q. read_cells (M q) (sb q) cnt ds" 0 cnt f] by simp
  moreover have "rs_block_size cnt 1 0 = cnt" by (simp add: rs_block_size_def)
  ultimately show ?thesis
    using True ds by (auto simp: rs_result_def rs_blk_rounds_def round_mem_def round_seg_def)
next
  case False
  with rs_rounds_result [OF f ds _ cc placed tb] n show ?thesis by (simp add: rs_blk_rounds_def)
qed

lemma rs_blk_good: "good_rounds n (rs_blk_rounds sb rb tb cnt ds n cc)"
  using rr_rounds_good
  by (auto simp: rs_blk_rounds_def rs_rounds_def is_round_def local_round_def round_seg_def is_local_def one_phase_def)

lemma rs_blk_frame:
  assumes ds: "0 < ds" and a: "\<not> in_rng (rb r, cnt * ds) a" "fst a \<noteq> tb r" and r: "r < n"
  shows "run_rounds f (rs_blk_rounds sb rb tb cnt ds n cc) M r a = M r a"
proof (cases "n = 1")
  case True
  show ?thesis
    by (rule run_rounds_frame [OF rs_blk_good])
      (use True ds a r in \<open>auto simp: rs_blk_rounds_def seg_avoids_def round_seg_def op_size_ok_def\<close>)
next
  case False
  have "\<not> rr_region (rs_lb sb cnt ds n cc) (rs_cb sb rb tb cnt ds n cc) (rs_inpl sb rb) (rs_size cnt n cc) ds n cc r a"
  proof
    assume "rr_region (rs_lb sb cnt ds n cc) (rs_cb sb rb tb cnt ds n cc) (rs_inpl sb rb) (rs_size cnt n cc) ds n cc r a"
    then obtain j c where jc: "j < n" "c < cc" "in_rng (loc_add (rb r) (rs_off cnt ds n cc j c), rs_size cnt n cc j c * ds) a \<or>
        in_rng (loc_add (tb r, 0) (rs_off cnt ds n cc j c), rs_size cnt n cc j c * ds) a"
      by (auto simp: rr_region_def rs_lb_def rs_cb_def rs_inpl_def split: if_splits)
    with rs_off_in [OF jc(1,2), of cnt ds] a show False by (auto simp: in_rng_def loc_add_def)
  qed
  from rr_frame [OF ds r this] False show ?thesis by (simp add: rs_blk_rounds_def rs_rounds_def)
qed

lemma rs_blk_safe:
  assumes ds: "0 < ds" and r: "r < n"
    and placed: "\<And>r. r < n \<Longrightarrow> rs_placed (sb r) (rb r) (cnt * ds)" and tb: "\<And>r. r < n \<Longrightarrow> fst (rb r) \<noteq> tb r"
  shows "safe_entries (round_entries (rs_blk_rounds sb rb tb cnt ds n cc) r)"
    and "barrier_set (round_entries (rs_blk_rounds sb rb tb cnt ds n cc) r)"
proof -
  have ap: "chunks_apart (rs_lb sb cnt ds n cc) (rs_cb sb rb tb cnt ds n cc) (rs_size cnt n cc) ds n cc"
    by (rule rs_apart) (use placed tb in auto)
  show "safe_entries (round_entries (rs_blk_rounds sb rb tb cnt ds n cc) r)"
    using rr_safe(1) [OF ds ap r] ds by (auto simp: rs_blk_rounds_def rs_rounds_def safe_entries_def safe_phase_def op_size_ok_def)
  show "barrier_set (round_entries (rs_blk_rounds sb rb tb cnt ds n cc) r)"
    using rr_safe(2) [OF ds ap r] by (auto simp: rs_blk_rounds_def rs_rounds_def barrier_set_def)
qed

lemma rs_blk_build:
  assumes r: "r < n" and ok: "buf_ok (sb r)" "buf_ok (rb r)" and fresh: "fst (rb r) < next_buf s"
    and cc: "cc = rs_chunk_count ec em cnt ds n" and tb: "tb r = next_buf s"
  obtains s' where "ccl_coll_build_reduce_scatter_block ec em (sb r) (rb r) cnt ds n r s = Inr s'"
    "ops s' = ops s @ round_entries (rs_blk_rounds sb rb tb cnt ds n cc) r" "next_buf s \<le> next_buf s'"
proof (cases "n = 1")
  case True
  with that r ok show thesis
    by (auto simp: ccl_coll_build_reduce_scatter_block_def Let_def rs_blk_rounds_def split: if_splits)
next
  case False
  with r have n: "1 < n" by simp
  from rs_block_build [where sb = sb and rb = rb and tb = tb, OF r n ok fresh cc tb] obtain s' where
    "ccl_coll_build_reduce_scatter_block ec em (sb r) (rb r) cnt ds n r s = Inr s'"
    "ops s' = ops s @ round_entries (rs_rounds sb rb tb cnt ds n cc) r" "next_buf s \<le> next_buf s'" .
  with that False show thesis by (simp add: rs_blk_rounds_def)
qed

section \<open>The ring reduce-scatter is correct\<close>

definition ring_reduce_scatter_entries ::
    "nat \<Rightarrow> nat \<Rightarrow> (rank \<Rightarrow> loc) \<Rightarrow> (rank \<Rightarrow> loc) \<Rightarrow> nat \<Rightarrow> nat \<Rightarrow> nat \<Rightarrow> nat \<Rightarrow> rank \<Rightarrow> (sched_op \<times> bool) list" where
  "ring_reduce_scatter_entries ec em sb rb rc ds n nb r =
     ops (projr (ccl_coll_build_ring_reduce_scatter ec em (sb r) (rb r) rc ds n r (new_builder nb)))"

text \<open>
  What a reduce-scatter promises: rank \<open>r\<close> has the \<open>r\<close>-th block of the reduction over all ranks in its
  receive buffer, and of the memory allocated before the call nothing else changes.
\<close>

definition reduce_scatter_result ::
    "('v \<Rightarrow> 'v \<Rightarrow> 'v) \<Rightarrow> (rank \<Rightarrow> loc) \<Rightarrow> (rank \<Rightarrow> loc) \<Rightarrow> nat \<Rightarrow> nat \<Rightarrow> nat \<Rightarrow> nat \<Rightarrow> (rank \<Rightarrow> 'v mem) \<Rightarrow> (rank \<Rightarrow> 'v mem) \<Rightarrow> bool" where
  "reduce_scatter_result f sb rb rc ds n nb M M' \<longleftrightarrow>
     (\<forall>r < n. read_cells (M' r) (rb r) rc ds =
        take rc (drop (r * rc) (red_elems f (rc * n) (\<lambda>q. read_cells (M q) (sb q) (rc * n) ds) [0..<n]))) \<and>
     (\<forall>r a. n \<le> r \<or> fst a < nb \<and> \<not> in_rng (rb r, rc * ds) a \<longrightarrow> M' r a = M r a)"

definition ring_rs_copy :: "(rank \<Rightarrow> loc) \<Rightarrow> nat \<Rightarrow> nat \<Rightarrow> nat \<Rightarrow> nat \<Rightarrow> round" where
  "ring_rs_copy rb rc ds n nb r =
     (if r < n then [(Copy (loc_add (nb, 0) (r * rc * ds)) (rb r) rc ds, False)] else [])"

abbreviation ring_rs_rounds ::
    "(rank \<Rightarrow> loc) \<Rightarrow> (rank \<Rightarrow> loc) \<Rightarrow> nat \<Rightarrow> nat \<Rightarrow> nat \<Rightarrow> nat \<Rightarrow> nat \<Rightarrow> round list" where
  "ring_rs_rounds sb rb rc ds n nb cc \<equiv>
     rs_blk_rounds sb (\<lambda>_. (nb, 0)) (\<lambda>_. Suc nb) (rc * n) ds n cc @ [ring_rs_copy rb rc ds n nb]"

lemma ring_reduce_scatter_build:
  assumes "0 < rc" and "r < n" and "buf_ok (sb r)" and "buf_ok (rb r)" and "0 < nb"
  shows "\<exists>s'. ccl_coll_build_ring_reduce_scatter ec em (sb r) (rb r) rc ds n r (new_builder nb) = Inr s' \<and>
    ops s' = round_entries (ring_rs_rounds sb rb rc ds n nb (rs_chunk_count ec em (rc * n) ds n)) r"
proof -
  let ?s = "\<lparr>ops = [], next_buf = Suc nb\<rparr>"
  have ok: "buf_ok (nb, 0)" using assms(5) by (simp add: buf_ok_def)
  obtain s' where s': "ccl_coll_build_reduce_scatter_block ec em (sb r) (nb, 0) (rc * n) ds n r ?s = Inr s'"
    "ops s' = ops ?s @ round_entries (rs_blk_rounds sb (\<lambda>_. (nb, 0)) (\<lambda>_. Suc nb) (rc * n) ds n (rs_chunk_count ec em (rc * n) ds n)) r"
    by (rule rs_blk_build [where sb = sb and rb = "\<lambda>_. (nb, 0)" and tb = "\<lambda>_. Suc nb" and s = ?s, OF assms(2,3) _ _ refl]) (use ok in auto)
  have "ccl_coll_build_ring_reduce_scatter ec em (sb r) (rb r) rc ds n r (new_builder nb) =
      Inr (create (Copy (loc_add (nb, 0) (r * rc * ds)) (rb r) rc ds) s')"
    using assms(1,3,4) by (simp add: ccl_coll_build_ring_reduce_scatter_def alloc_buffer_def new_builder_def s'(1))
  then show ?thesis using s'(2) assms(2) by (simp add: ring_rs_copy_def)
qed

lemma ring_rs_result:
  assumes f: "abel_semigroup f" and ds: "0 < ds" and n: "0 < n" and cc: "0 < cc" and sb: "\<And>r. r < n \<Longrightarrow> fst (sb r) < nb"
  shows "reduce_scatter_result f sb rb rc ds n nb M (run_rounds f (ring_rs_rounds sb rb rc ds n nb cc) M)"
proof -
  let ?rb = "\<lambda>_. (nb, 0)" and ?tb = "\<lambda>_. Suc nb"
  define M1 where "M1 = run_rounds f (rs_blk_rounds sb ?rb ?tb (rc * n) ds n cc) M"
  have M2: "run_rounds f (ring_rs_rounds sb rb rc ds n nb cc) M r =
      (if r < n then write_cells (M1 r) (rb r) ds (read_cells (M1 r) (loc_add (nb, 0) (r * rc * ds)) rc ds) else M1 r)" for r
    by (simp add: M1_def round_mem_def round_seg_def ring_rs_copy_def)
  have "rs_result f sb ?rb (rc * n) ds n M M1"
    unfolding M1_def by (rule rs_blk_result [OF f ds n cc]) (use sb in \<open>auto simp: rs_placed_def rng_disj_def\<close>)
  moreover have "rs_block_size (rc * n) n r = rc" for r using n by (simp add: rs_block_size_def Let_def)
  moreover have "rc * n div n = rc" using n by simp
  ultimately have res: "read_cells (M1 r) (loc_add (nb, 0) (r * rc * ds)) rc ds =
      take rc (drop (r * rc) (red_elems f (rc * n) (\<lambda>q. read_cells (M q) (sb q) (rc * n) ds) [0..<n]))" if "r < n" for r
    using that by (simp add: rs_result_def mult.commute)
  have fr: "M1 r a = M r a" if "n \<le> r \<or> fst a < nb" for r a
  proof (cases "n \<le> r")
    case True
    then show ?thesis unfolding M1_def by (simp add: run_rounds_out [OF rs_blk_good])
  next
    case False
    with that show ?thesis
      unfolding M1_def by (intro rs_blk_frame [OF ds]) (auto simp: in_rng_def)
  qed
  have out: "write_cells (M1 r) (rb r) ds (read_cells (M1 r) l rc ds) a = M1 r a" if "\<not> in_rng (rb r, rc * ds) a" for r a l
    by (rule write_cells_outside [OF ds that]) simp
  show ?thesis
    unfolding reduce_scatter_result_def M2
  proof (intro conjI allI impI)
    fix r assume "r < n"
    then show "read_cells (if r < n then write_cells (M1 r) (rb r) ds (read_cells (M1 r) (loc_add (nb, 0) (r * rc * ds)) rc ds) else M1 r) (rb r) rc ds =
        take rc (drop (r * rc) (red_elems f (rc * n) (\<lambda>q. read_cells (M q) (sb q) (rc * n) ds) [0..<n]))"
      unfolding res [OF \<open>r < n\<close>, symmetric] by (simp only: if_True read_write_same [OF ds length_read_cells])
  next
    fix r a assume a: "n \<le> r \<or> fst a < nb \<and> \<not> in_rng (rb r, rc * ds) a"
    then have "M1 r a = M r a" using fr by blast
    with a out [of r a "loc_add (nb, 0) (r * rc * ds)"] show "(if r < n then write_cells (M1 r) (rb r) ds (read_cells (M1 r) (loc_add (nb, 0) (r * rc * ds)) rc ds) else M1 r) a = M r a"
      by auto
  qed
qed

text \<open>
  C3: the ring reduce-scatter reduces and scatters: for every associative and commutative
  reduction, every count and every setting of the chunk parameters, whatever the placement of the
  buffers, the builder succeeds on every rank, and in every interleaving every rank ends with its
  block of the reduction over all ranks in its receive buffer, and nothing else allocated before
  the call has changed.
\<close>

theorem ring_reduce_scatter_correct:
  assumes "fifo_transport T" and "abel_semigroup f" and "0 < n" and "0 < ds" and "0 < rc" and "0 < nb"
    and bufs: "\<forall>r < n. buf_ok (sb r) \<and> buf_ok (rb r) \<and> fst (sb r) < nb"
  shows "(\<forall>r < n. \<exists>s. ccl_coll_build_ring_reduce_scatter ec em (sb r) (rb r) rc ds n r (new_builder nb) = Inr s) \<and>
    coll_correct T f (coll_start T n (ring_reduce_scatter_entries ec em sb rb rc ds n nb) M)
      (reduce_scatter_result f sb rb rc ds n nb M)"
proof
  let ?cc = "rs_chunk_count ec em (rc * n) ds n"
  let ?rl = "ring_rs_rounds sb rb rc ds n nb ?cc"
  have b: "\<exists>s'. ccl_coll_build_ring_reduce_scatter ec em (sb r) (rb r) rc ds n r (new_builder nb) = Inr s' \<and>
      ops s' = round_entries ?rl r" if "r < n" for r
    by (rule ring_reduce_scatter_build [OF assms(5) that _ _ assms(6)]) (use bufs that in auto)
  then show "\<forall>r < n. \<exists>s. ccl_coll_build_ring_reduce_scatter ec em (sb r) (rb r) rc ds n r (new_builder nb) = Inr s" by blast
  have es: "ring_reduce_scatter_entries ec em sb rb rc ds n nb r = round_entries ?rl r" if "r < n" for r
    using b [OF that] by (auto simp: ring_reduce_scatter_entries_def)
  show "coll_correct T f (coll_start T n (ring_reduce_scatter_entries ec em sb rb rc ds n nb) M)
      (reduce_scatter_result f sb rb rc ds n nb M)"
  proof (rule fifo_transport.round_list_correct [OF assms(1) _ es])
    show "good_rounds n ?rl"
      using rs_blk_good by (auto simp: is_round_def local_round_def round_seg_def ring_rs_copy_def is_local_def one_phase_def)
    show "reduce_scatter_result f sb rb rc ds n nb M (run_rounds f ?rl M)"
      by (rule ring_rs_result [OF assms(2,4,3) rs_chunk_count_pos]) (use bufs in auto)
    fix r assume r: "r < n"
    have pl: "rs_placed (sb r) (nb, 0) (rc * n * ds)" if "r < n" for r using bufs that by (auto simp: rs_placed_def rng_disj_def)
    have "safe_entries (round_entries (rs_blk_rounds sb (\<lambda>_. (nb, 0)) (\<lambda>_. Suc nb) (rc * n) ds n ?cc) r @
        map (\<lambda>x. (x, False)) [Copy (loc_add (nb, 0) (r * rc * ds)) (rb r) rc ds])"
      by (rule safe_entries_locals_end [OF rs_blk_safe [OF assms(4) r]])
        (use pl assms(4) in \<open>auto simp: is_local_def op_size_ok_def\<close>)
    then show "safe_entries (ring_reduce_scatter_entries ec em sb rb rc ds n nb r)"
      unfolding es [OF r] using r by (simp add: ring_rs_copy_def)
  qed
qed

lemma ring_reduce_scatter_correct_witness:
  "(\<exists>s. ccl_coll_build_ring_reduce_scatter 2 8 (1, 0) (2, 0) 3 4 3 1 (new_builder 3) = Inr s) \<and>
   coll_correct queue_transport (+) (coll_start queue_transport 3
     (ring_reduce_scatter_entries 2 8 (\<lambda>_. (1, 0)) (\<lambda>_. (2, 0)) 3 4 3 3) (\<lambda>r a. of_nat r :: 32 word))
     (reduce_scatter_result (+) (\<lambda>_. (1, 0)) (\<lambda>_. (2, 0)) 3 4 3 3 (\<lambda>r a. of_nat r))"
  using ring_reduce_scatter_correct [OF queues.fifo_transport_axioms word_add_abel, of 3 4 3 3 "\<lambda>_. (1, 0)" "\<lambda>_. (2, 0)" 2 8 "\<lambda>r a. of_nat r"]
  by (auto simp: buf_ok_def dest!: spec [of _ 1])

section \<open>The naive reduce-scatter is correct\<close>

definition naive_reduce_scatter_entries ::
    "bool \<Rightarrow> (rank \<Rightarrow> loc) \<Rightarrow> (rank \<Rightarrow> loc) \<Rightarrow> nat \<Rightarrow> nat \<Rightarrow> nat \<Rightarrow> nat \<Rightarrow> rank \<Rightarrow> (sched_op \<times> bool) list" where
  "naive_reduce_scatter_entries check sb rb rc ds n nb r =
     ops (projr (ccl_coll_build_naive_reduce_scatter check (sb r) (rb r) rc ds n r (new_builder nb)))"

text \<open>The receive buffer is in place, or apart from the send buffer.\<close>

definition nrs_placed :: "loc \<Rightarrow> loc \<Rightarrow> nat \<Rightarrow> nat \<Rightarrow> nat \<Rightarrow> rank \<Rightarrow> bool" where
  "nrs_placed sb rb rc ds n r \<longleftrightarrow>
     rb = loc_add sb (r * rc * ds) \<or> rng_disj (sb, rc * n * ds) (rb, rc * ds)"

definition nrs_copy :: "(rank \<Rightarrow> loc) \<Rightarrow> (rank \<Rightarrow> loc) \<Rightarrow> nat \<Rightarrow> nat \<Rightarrow> nat \<Rightarrow> rank \<Rightarrow> sched_op list" where
  "nrs_copy sb rb rc ds n r =
     (if r < n \<and> rb r \<noteq> loc_add (sb r) (r * rc * ds) then [Copy (loc_add (sb r) (r * rc * ds)) (rb r) rc ds] else [])"

definition nrs_comm :: "(rank \<Rightarrow> loc) \<Rightarrow> nat \<Rightarrow> nat \<Rightarrow> nat \<Rightarrow> nat \<Rightarrow> nat \<Rightarrow> rank \<Rightarrow> sched_op list" where
  "nrs_comm sb rc ds n nb idx r =
     (if r < n then [Send (loc_add (sb r) ((r + idx) mod n * rc * ds)) rc ds ((r + idx) mod n),
                     Recv (nb, 0) rc ds ((r + n - idx) mod n)] else [])"

definition nrs_red :: "(rank \<Rightarrow> loc) \<Rightarrow> nat \<Rightarrow> nat \<Rightarrow> nat \<Rightarrow> nat \<Rightarrow> rank \<Rightarrow> sched_op list" where
  "nrs_red rb rc ds n nb r = (if r < n then [ReduceLocal (nb, 0) rc (rb r) ds] else [])"

abbreviation unflagged :: "(rank \<Rightarrow> sched_op list) \<Rightarrow> round" where
  "unflagged seg r \<equiv> map (\<lambda>x. (x, False)) (seg r)"

abbreviation flagged :: "(rank \<Rightarrow> sched_op list) \<Rightarrow> round" where
  "flagged seg r \<equiv> with_barrier (seg r)"

lemma round_seg_unflagged [simp]: "round_seg (unflagged seg) = seg"
  by (simp add: round_seg_def fun_eq_iff comp_def)

lemma round_seg_flagged [simp]: "round_seg (flagged seg) = seg"
  by (simp add: round_seg_def fun_eq_iff with_barrier_ops)

definition nrs_rounds :: "(rank \<Rightarrow> loc) \<Rightarrow> (rank \<Rightarrow> loc) \<Rightarrow> nat \<Rightarrow> nat \<Rightarrow> nat \<Rightarrow> nat \<Rightarrow> round list" where
  "nrs_rounds sb rb rc ds n nb =
     [unflagged (nrs_copy sb rb rc ds n)] @
     concat (map (\<lambda>idx. [flagged (nrs_comm sb rc ds n nb idx), unflagged (nrs_red rb rc ds n nb)]) [1..<n])"

lemma nrs_build:
  assumes "0 < rc" and "0 < ds" and "r < n" and "buf_ok (sb r)" and "buf_ok (rb r)" and "nrs_placed (sb r) (rb r) rc ds n r"
  shows "\<exists>s'. ccl_coll_build_naive_reduce_scatter check (sb r) (rb r) rc ds n r (new_builder nb) = Inr s' \<and>
    ops s' = round_entries (nrs_rounds sb rb rc ds n nb) r"
proof -
  have pos: "0 < rc * ds" using assms(1,2) by simp
  have sz: "rc * n * ds = rc * ds * n" by (simp add: ac_simps)
  have "\<not> (fst (rb r) = fst (sb r) \<and> snd (sb r) \<le> snd (rb r) \<and> snd (rb r) < snd (sb r) + rc * ds * n)"
    if "rb r \<noteq> loc_add (sb r) (r * rc * ds)"
  proof -
    define k where "k = rc * ds"
    from pos have "0 < k" by (simp add: k_def)
    with assms(6) that assms(3) show ?thesis unfolding nrs_placed_def rng_disj_def sz k_def [symmetric] by auto
  qed
  then have inp: "is_reduce_scatter_inplace check (sb r) (rb r) rc ds r n = Inr (rb r = loc_add (sb r) (r * rc * ds))"
    unfolding is_reduce_scatter_inplace_def Let_def mult.assoc [of r rc ds, symmetric] by auto
  have body: "ops (naive_reduce_scatter_body (sb r) (rb r) (nb, 0) rc ds n r idx s) =
      ops s @ flagged (nrs_comm sb rc ds n nb idx) r @ unflagged (nrs_red rb rc ds n nb) r" for idx s
    using assms(3) by (simp add: naive_reduce_scatter_body_def Let_def nrs_comm_def nrs_red_def add.commute)
  have "ops (fold (naive_reduce_scatter_body (sb r) (rb r) (nb, 0) rc ds n r) xs s) =
      ops s @ round_entries (concat (map (\<lambda>idx. [flagged (nrs_comm sb rc ds n nb idx), unflagged (nrs_red rb rc ds n nb)]) xs)) r" for xs s
    by (induction xs arbitrary: s) (simp_all add: body)
  note loop = this
  define B where "B \<longleftrightarrow> rb r = loc_add (sb r) (r * rc * ds)"
  have cp: "nrs_copy sb rb rc ds n r = (if B then [] else [Copy (loc_add (sb r) (r * rc * ds)) (rb r) rc ds])"
    using assms(3) by (simp only: nrs_copy_def B_def simp_thms if_not_P if_P if_cancel split: if_split) simp
  show ?thesis
    using assms(1,4,5) inp [folded B_def] loop cp
    by (cases B) (simp_all add: ccl_coll_build_naive_reduce_scatter_def alloc_buffer_def nrs_rounds_def new_builder_def)
qed

lemma nrs_comm_round:
  assumes "1 \<le> idx" and "idx < n"
  shows "comm_round n (nrs_comm sb rc ds n nb idx)"
proof (rule comm_roundI)
  fix s d
  have iff: "s < n \<and> d = (s + idx) mod n \<longleftrightarrow> d < n \<and> s = (d + n - idx) mod n"
    using mod_shift_iff [of s n d idx] assms by (metis less_imp_le_nat mod_less_divisor order_less_le_trans zero_le not_gr_zero not_less_zero)
  show "sends_to (nrs_comm sb rc ds n nb idx) s d =
      (if s < n \<and> d = (s + idx) mod n then [Send (loc_add (sb s) (d * rc * ds)) rc ds d] else [])"
    by (auto simp: sends_to_def nrs_comm_def)
  show "recvs_from (nrs_comm sb rc ds n nb idx) d s =
      (if s < n \<and> d = (s + idx) mod n then [Recv (nb, 0) rc ds s] else [])"
    unfolding iff by (auto simp: recvs_from_def nrs_comm_def)
qed (auto simp: nrs_comm_def is_local_def msg_fits_def)

lemma nrs_comm_mem:
  assumes "1 \<le> idx" and "idx < n" and "r < n"
  shows "round_mem f (nrs_comm sb rc ds n nb idx) M r =
    write_cells (M r) (nb, 0) ds
      (read_cells (M ((r + n - idx) mod n)) (loc_add (sb ((r + n - idx) mod n)) (r * rc * ds)) rc ds)"
proof -
  let ?s = "(r + n - idx) mod n"
  have "(?s + idx) mod n = r" "?s < n" using mod_shift [of r n idx] assms by auto
  then have "inbox (nrs_comm sb rc ds n nb idx) M ?s r = read_cells (M ?s) (loc_add (sb ?s) (r * rc * ds)) rc ds"
    by (simp add: inbox_def sends_to_def nrs_comm_def)
  with assms(3) show ?thesis by (simp add: round_mem_def nrs_comm_def recv_vals_def)
qed

lemma nrs_good: "good_rounds n (nrs_rounds sb rb rc ds n nb)"
proof -
  have "is_round n (nrs_copy sb rb rc ds n)" "is_round n (nrs_red rb rc ds n nb)"
    by (auto simp: is_round_def local_round_def nrs_copy_def nrs_red_def is_local_def)
  moreover have "is_round n (nrs_comm sb rc ds n nb idx)" if "1 \<le> idx" "idx < n" for idx
    using nrs_comm_round [OF that] by (simp add: is_round_def)
  moreover have "one_phase (map (\<lambda>x. (x, False)) xs)" for xs by (auto simp: one_phase_def dest: in_set_butlastD)
  ultimately show ?thesis
    using with_barrier_E(1) by (auto simp: good_rounds_def nrs_rounds_def)
qed

lemma nrs_safe:
  assumes "0 < ds" and "r < n" and "fst (sb r) < nb"
  shows "safe_entries (round_entries (nrs_rounds sb rb rc ds n nb) r)"
proof -
  have loc: "safe_entries es \<Longrightarrow> safe_entries (unflagged (nrs_red rb rc ds n nb) r @ es)"
    "safe_entries es \<Longrightarrow> safe_entries (unflagged (nrs_copy sb rb rc ds n) r @ es)" for es
    by (rule safe_entries_locals; use assms(1) in \<open>auto simp: nrs_red_def nrs_copy_def one_phase_def is_local_def op_size_ok_def\<close>)+
  have comm: "safe_phase (nrs_comm sb rc ds n nb idx r)" for idx
    using assms by (auto simp: nrs_comm_def safe_phase_def op_size_ok_def ops_disj_def rngs_disj_def rng_disj_def loc_add_def)
  have "safe_entries (round_entries (concat (map (\<lambda>idx. [flagged (nrs_comm sb rc ds n nb idx), unflagged (nrs_red rb rc ds n nb)]) xs)) r)" for xs
  proof (induction xs)
    case (Cons idx xs)
    have "safe_entries (flagged (nrs_comm sb rc ds n nb idx) r @ unflagged (nrs_red rb rc ds n nb) r @
        round_entries (concat (map (\<lambda>idx. [flagged (nrs_comm sb rc ds n nb idx), unflagged (nrs_red rb rc ds n nb)]) xs)) r)"
      by (rule safe_entries_barrier [OF with_barrier_E _ loc(1) [OF Cons]]) (use comm in \<open>simp add: with_barrier_ops\<close>)
    then show ?case by simp
  qed simp
  from loc(2) [OF this] show ?thesis by (simp add: nrs_rounds_def)
qed

definition nrs_inv ::
    "('v \<Rightarrow> 'v \<Rightarrow> 'v) \<Rightarrow> (rank \<Rightarrow> loc) \<Rightarrow> (rank \<Rightarrow> loc) \<Rightarrow> nat \<Rightarrow> nat \<Rightarrow> nat \<Rightarrow> (rank \<Rightarrow> nat \<Rightarrow> 'v list) \<Rightarrow> nat \<Rightarrow> (rank \<Rightarrow> 'v mem) \<Rightarrow> bool" where
  "nrs_inv f sb rb rc ds n X idx M \<longleftrightarrow>
     (\<forall>r < n. read_cells (M r) (rb r) rc ds = red_elems f rc (\<lambda>q. X q r) (rks n r (idx - 1)) \<and>
              (\<forall>d < n. d \<noteq> r \<longrightarrow> read_cells (M r) (loc_add (sb r) (d * rc * ds)) rc ds = X r d))"

lemma nrs_block_disj:
  assumes "r < n" and "d < n" and "d \<noteq> r" and "nrs_placed (sb r) (rb r) rc ds n r"
  shows "rng_disj (rb r, rc * ds) (loc_add (sb r) (d * rc * ds), rc * ds)"
proof -
  have blk: "k * rc * ds + rc * ds \<le> m * rc * ds" if "k < m" for k m
  proof -
    have "Suc k * (rc * ds) \<le> m * (rc * ds)" using that by (intro mult_le_mono1) simp
    then show ?thesis by (simp add: mult.assoc)
  qed
  have n: "d * rc * ds + rc * ds \<le> rc * n * ds" using blk [OF assms(2)] by (simp add: ac_simps)
  show ?thesis
  proof (cases "rb r = loc_add (sb r) (r * rc * ds)")
    case True
    from assms(3) consider "d < r" | "r < d" by linarith
    then show ?thesis by cases (use True blk [of d r] blk [of r d] in \<open>auto intro!: rng_disj_shift\<close>)
  next
    case False
    with assms(4) n show ?thesis by (auto simp: nrs_placed_def rng_disj_def loc_add_def)
  qed
qed

lemma nrs_step:
  assumes f: "abel_semigroup f" and ds: "0 < ds" and idx: "1 \<le> idx" "idx < n"
    and placed: "\<And>r. r < n \<Longrightarrow> nrs_placed (sb r) (rb r) rc ds n r" and nb: "\<And>r. r < n \<Longrightarrow> fst (sb r) < nb \<and> fst (rb r) < nb"
    and inv: "nrs_inv f sb rb rc ds n X idx M" and X: "\<And>q r. length (X q r) = rc"
  shows "nrs_inv f sb rb rc ds n X (Suc idx) (round_mem f (nrs_red rb rc ds n nb) (round_mem f (nrs_comm sb rc ds n nb idx) M))"
  unfolding nrs_inv_def
proof (intro allI impI)
  fix r assume r: "r < n"
  define s where "s = (r + n - idx) mod n"
  define M1 where "M1 = round_mem f (nrs_comm sb rc ds n nb idx) M"
  let ?M = "round_mem f (nrs_red rb rc ds n nb) M1"
  have s: "s < n" "r \<noteq> s" using r idx mod_shift [of r n idx] shift_inj [of idx n 0 s] by (auto simp: s_def)
  have M1: "M1 r = write_cells (M r) (nb, 0) ds (X s r)"
    using inv s r unfolding M1_def nrs_comm_mem [OF idx r] by (simp add: nrs_inv_def flip: s_def)
  have M2: "?M r = reduce_cells f (M1 r) (nb, 0) rc (rb r) ds" using r by (simp add: round_mem_def nrs_red_def)
  have keep: "read_cells (M1 r) l rc ds = read_cells (M r) l rc ds" if "fst l < nb" for l
    unfolding M1 by (rule read_write_other) (use that ds in \<open>auto simp: rng_disj_def\<close>)
  have tmp: "read_cells (M1 r) (nb, 0) rc ds = X s r" unfolding M1 by (rule read_write_same [OF ds X])
  let ?Y = "\<lambda>q. X q r"
  have own: "X s r = red_elems f rc ?Y [s]" using red_elems_single [of ?Y s rc f] X by simp
  have rk: "rks n r (Suc idx - 1) = rks n r (idx - 1) @ [s]" using idx by (cases idx) (simp_all add: rks_def s_def)
  have "read_cells (?M r) (rb r) rc ds = map2 f (X s r) (red_elems f rc ?Y (rks n r (idx - 1)))"
    using inv r keep [of "rb r"] nb [OF r] unfolding M2 reduce_cells_read [OF ds] tmp by (simp add: nrs_inv_def)
  also have "\<dots> = red_elems f rc ?Y ([s] @ rks n r (idx - 1))"
    unfolding own by (rule abel_semigroup.red_elems_append [OF f]) simp_all
  also have "\<dots> = red_elems f rc ?Y (rks n r (Suc idx - 1))"
    unfolding rk by (rule abel_semigroup.red_elems_perm [OF f]) simp
  finally have acc: "read_cells (?M r) (rb r) rc ds = red_elems f rc ?Y (rks n r (Suc idx - 1))" .
  have "read_cells (?M r) (loc_add (sb r) (d * rc * ds)) rc ds = X r d" if "d < n" "d \<noteq> r" for d
  proof -
    have "read_cells (?M r) (loc_add (sb r) (d * rc * ds)) rc ds = read_cells (M1 r) (loc_add (sb r) (d * rc * ds)) rc ds"
      unfolding M2 by (rule reduce_cells_other [OF ds nrs_block_disj [where sb = sb and rb = rb, OF r that placed [OF r]]])
    also have "\<dots> = read_cells (M r) (loc_add (sb r) (d * rc * ds)) rc ds" using nb [OF r] by (intro keep) (simp add: loc_add_def)
    also have "\<dots> = X r d" using inv r that by (simp add: nrs_inv_def)
    finally show ?thesis .
  qed
  with acc show "read_cells (?M r) (rb r) rc ds = red_elems f rc ?Y (rks n r (Suc idx - 1)) \<and>
      (\<forall>d < n. d \<noteq> r \<longrightarrow> read_cells (?M r) (loc_add (sb r) (d * rc * ds)) rc ds = X r d)" by blast
qed

lemma nrs_init:
  assumes ds: "0 < ds" and placed: "\<And>r. r < n \<Longrightarrow> nrs_placed (sb r) (rb r) rc ds n r"
  shows "nrs_inv f sb rb rc ds n (\<lambda>q d. read_cells (M q) (loc_add (sb q) (d * rc * ds)) rc ds) 1
    (round_mem f (nrs_copy sb rb rc ds n) M)"
  unfolding nrs_inv_def
proof (intro allI impI)
  fix r assume r: "r < n"
  let ?X = "\<lambda>q d. read_cells (M q) (loc_add (sb q) (d * rc * ds)) rc ds"
  let ?M = "round_mem f (nrs_copy sb rb rc ds n) M"
  have mem: "?M r = (if rb r = loc_add (sb r) (r * rc * ds) then M r else write_cells (M r) (rb r) ds (?X r r))"
    using r by (simp add: round_mem_def nrs_copy_def)
  have "read_cells (?M r) (rb r) rc ds = ?X r r" unfolding mem by (simp add: read_write_same [OF ds])
  moreover have "red_elems f rc (\<lambda>q. ?X q r) (rks n r (1 - 1)) = ?X r r"
    using r red_elems_single [of "\<lambda>q. ?X q r" r rc f] by (simp add: rks_0)
  moreover have "read_cells (?M r) (loc_add (sb r) (d * rc * ds)) rc ds = ?X r d" if "d < n" "d \<noteq> r" for d
    unfolding mem using read_write_other [of "rb r" "?X r r" ds] nrs_block_disj [where sb = sb and rb = rb, OF r that placed [OF r]] ds by simp
  ultimately show "read_cells (?M r) (rb r) rc ds = red_elems f rc (\<lambda>q. ?X q r) (rks n r (1 - 1)) \<and>
      (\<forall>d < n. d \<noteq> r \<longrightarrow> read_cells (?M r) (loc_add (sb r) (d * rc * ds)) rc ds = ?X r d)" by simp
qed

lemma nrs_result:
  assumes f: "abel_semigroup f" and ds: "0 < ds" and n: "0 < n"
    and placed: "\<And>r. r < n \<Longrightarrow> nrs_placed (sb r) (rb r) rc ds n r" and nb: "\<And>r. r < n \<Longrightarrow> fst (sb r) < nb \<and> fst (rb r) < nb"
  shows "reduce_scatter_result f sb rb rc ds n nb M (run_rounds f (nrs_rounds sb rb rc ds n nb) M)"
proof -
  let ?X = "\<lambda>q d. read_cells (M q) (loc_add (sb q) (d * rc * ds)) rc ds"
  let ?rl = "concat (map (\<lambda>idx. [flagged (nrs_comm sb rc ds n nb idx), unflagged (nrs_red rb rc ds n nb)]) [1..<n])"
  let ?M' = "run_rounds f (nrs_rounds sb rb rc ds n nb) M"
  have "rounds_triple f (nrs_inv f sb rb rc ds n ?X 1) ?rl (nrs_inv f sb rb rc ds n ?X n)"
  proof (rule rounds_triple_concat)
    fix k assume k: "1 \<le> k" "k < n"
    show "rounds_triple f (nrs_inv f sb rb rc ds n ?X k) [flagged (nrs_comm sb rc ds n nb k), unflagged (nrs_red rb rc ds n nb)]
        (nrs_inv f sb rb rc ds n ?X (Suc k))"
    proof (rule rounds_tripleI)
      fix M1 assume "nrs_inv f sb rb rc ds n ?X k M1"
      from nrs_step [OF f ds k placed nb this]
      show "nrs_inv f sb rb rc ds n ?X (Suc k) (run_rounds f [flagged (nrs_comm sb rc ds n nb k), unflagged (nrs_red rb rc ds n nb)] M1)"
        by simp
    qed
  qed (use n in simp)
  then have "nrs_inv f sb rb rc ds n ?X n (run_rounds f ?rl (round_mem f (nrs_copy sb rb rc ds n) M))"
    by (rule rounds_tripleD) (rule nrs_init [OF ds placed])
  then have inv: "nrs_inv f sb rb rc ds n ?X n ?M'"
    unfolding nrs_rounds_def run_rounds_append run_rounds_Cons run_rounds_Nil round_seg_unflagged .
  have res: "read_cells (?M' r) (rb r) rc ds =
      take rc (drop (r * rc) (red_elems f (rc * n) (\<lambda>q. read_cells (M q) (sb q) (rc * n) ds) [0..<n]))" if r: "r < n" for r
  proof -
    have "Suc r * rc \<le> n * rc" using r by (intro mult_le_mono1) simp
    then have le: "r * rc + rc \<le> rc * n" by (simp add: mult.commute)
    have "read_cells (?M' r) (rb r) rc ds = red_elems f rc (\<lambda>q. ?X q r) [0..<n]"
      using inv r abel_semigroup.red_elems_perm [OF f rks_all [OF r]] by (simp add: nrs_inv_def)
    also have "\<dots> = take rc (drop (r * rc) (red_elems f (rc * n) (\<lambda>q. read_cells (M q) (sb q) (rc * n) ds) [0..<n]))"
    proof (rule nth_equalityI)
      fix e assume "e < length (red_elems f rc (\<lambda>q. ?X q r) [0..<n])"
      then have e: "e < rc" by simp
      have "r * rc * ds + e * ds = (r * rc + e) * ds" by (simp add: add_mult_distrib)
      with e have "red_elems f rc (\<lambda>q. ?X q r) [0..<n] ! e = red f (map (\<lambda>q. M q (loc_add (sb q) ((r * rc + e) * ds))) [0..<n])"
        by (simp add: red_elems_def)
      moreover define R where "R = red_elems f (rc * n) (\<lambda>q. read_cells (M q) (sb q) (rc * n) ds) [0..<n]"
      moreover have i: "r * rc + e < rc * n" "r * rc \<le> length R" using e le by (simp_all only: R_def length_red_elems)
      then have "take rc (drop (r * rc) R) ! e = R ! (r * rc + e)" using e by (simp only: nth_take nth_drop)
      ultimately show "red_elems f rc (\<lambda>q. ?X q r) [0..<n] ! e =
          take rc (drop (r * rc) (red_elems f (rc * n) (\<lambda>q. read_cells (M q) (sb q) (rc * n) ds) [0..<n])) ! e"
        using i(1) by (simp add: red_elems_def)
    qed (use le in simp)
    finally show ?thesis .
  qed
  have fr: "?M' r a = M r a" if "n \<le> r \<or> fst a < nb \<and> \<not> in_rng (rb r, rc * ds) a" for r a
  proof (cases "n \<le> r")
    case True
    then show ?thesis by (simp add: run_rounds_out [OF nrs_good])
  next
    case False
    with that have a: "fst a < nb" "\<not> in_rng (rb r, rc * ds) a" by auto
    have "\<not> in_rng ((nb, 0), k) a" for k using a(1) by (simp add: in_rng_def)
    with a(2) ds have "seg_avoids (nrs_copy sb rb rc ds n r) a" "seg_avoids (nrs_red rb rc ds n nb r) a"
      "seg_avoids (nrs_comm sb rc ds n nb idx r) a" for idx
      by (auto simp: seg_avoids_def nrs_comm_def nrs_copy_def nrs_red_def op_size_ok_def)
    then have "seg_avoids (round_seg E r) a" if "E \<in> set (nrs_rounds sb rb rc ds n nb)" for E
      using that unfolding nrs_rounds_def by (auto simp: round_seg_def comp_def with_barrier_ops)
    then show ?thesis by (rule run_rounds_frame [OF nrs_good])
  qed
  show ?thesis
    unfolding reduce_scatter_result_def
    by (intro conjI allI impI; (rule res | rule fr); assumption)
qed

text \<open>
  C24: the naive reduce-scatter, in place or not, gives the same result.
\<close>

theorem naive_reduce_scatter_correct:
  assumes "fifo_transport T" and "abel_semigroup f" and "0 < n" and "0 < ds" and "0 < rc"
    and bufs: "\<forall>r < n. buf_ok (sb r) \<and> buf_ok (rb r) \<and> fst (sb r) < nb \<and> fst (rb r) < nb \<and> nrs_placed (sb r) (rb r) rc ds n r"
  shows "(\<forall>r < n. \<exists>s. ccl_coll_build_naive_reduce_scatter check (sb r) (rb r) rc ds n r (new_builder nb) = Inr s) \<and>
    coll_correct T f (coll_start T n (naive_reduce_scatter_entries check sb rb rc ds n nb) M)
      (reduce_scatter_result f sb rb rc ds n nb M)"
proof
  have b: "\<exists>s'. ccl_coll_build_naive_reduce_scatter check (sb r) (rb r) rc ds n r (new_builder nb) = Inr s' \<and>
      ops s' = round_entries (nrs_rounds sb rb rc ds n nb) r" if "r < n" for r
    by (rule nrs_build [OF assms(5,4) that]) (use bufs that in auto)
  then show "\<forall>r < n. \<exists>s. ccl_coll_build_naive_reduce_scatter check (sb r) (rb r) rc ds n r (new_builder nb) = Inr s" by blast
  have es: "naive_reduce_scatter_entries check sb rb rc ds n nb r = round_entries (nrs_rounds sb rb rc ds n nb) r" if "r < n" for r
    using b [OF that] by (auto simp: naive_reduce_scatter_entries_def)
  show "coll_correct T f (coll_start T n (naive_reduce_scatter_entries check sb rb rc ds n nb) M)
      (reduce_scatter_result f sb rb rc ds n nb M)"
  proof (rule fifo_transport.round_list_correct [OF assms(1) nrs_good es])
    show "reduce_scatter_result f sb rb rc ds n nb M (run_rounds f (nrs_rounds sb rb rc ds n nb) M)"
      by (rule nrs_result [OF assms(2,4,3)]) (use bufs in auto)
    fix r assume r: "r < n"
    show "safe_entries (naive_reduce_scatter_entries check sb rb rc ds n nb r)"
      unfolding es [OF r] by (rule nrs_safe [OF assms(4) r]) (use bufs r in auto)
  qed auto
qed

lemma naive_reduce_scatter_correct_witness:
  "(\<exists>s. ccl_coll_build_naive_reduce_scatter True (1, 0) (1, 12) 3 4 3 1 (new_builder 3) = Inr s) \<and>
   coll_correct queue_transport (+) (coll_start queue_transport 3
     (naive_reduce_scatter_entries True (\<lambda>_. (1, 0)) (\<lambda>r. (1, r * 12)) 3 4 3 3) (\<lambda>r a. of_nat r :: 32 word))
     (reduce_scatter_result (+) (\<lambda>_. (1, 0)) (\<lambda>r. (1, r * 12)) 3 4 3 3 (\<lambda>r a. of_nat r))"
  using naive_reduce_scatter_correct [OF queues.fifo_transport_axioms word_add_abel, of 3 4 3 "\<lambda>_. (1, 0)" "\<lambda>r. (1, r * 12)" 3 True "\<lambda>r a. of_nat r"]
  by (auto simp: buf_ok_def nrs_placed_def loc_add_def dest!: spec [of _ 1])

end
