(* ===== verification/CollAllreduceRing.thy ===== *)
theory CollAllreduceRing
  imports CollReduceScatter CollAllgatherv
begin

text \<open>
  The ring allreduce (\<^verbatim>\<open>ccl_coll_build_ring_allreduce\<close> of
  \<^verbatim>\<open>src/src/coll/algorithms/allreduce/allreduce.cpp\<close>): the chunked reduce-scatter ring followed by the
  allgatherv ring on the reduced blocks.
\<close>

section \<open>The builder\<close>

definition ar_recv_counts :: "nat \<Rightarrow> nat \<Rightarrow> nat list" where
  "ar_recv_counts cnt comm_size =
     (let main_block_count = cnt div comm_size;
          last_block_count = main_block_count + cnt mod comm_size;
          recv_counts = replicate comm_size main_block_count
      in if cnt mod comm_size \<noteq> 0 then recv_counts[comm_size - 1 := last_block_count] else recv_counts)"

definition ccl_coll_build_ring_allreduce ::
    "bool \<Rightarrow> nat \<Rightarrow> nat \<Rightarrow> loc \<Rightarrow> loc \<Rightarrow> nat \<Rightarrow> nat \<Rightarrow> nat \<Rightarrow> rank \<Rightarrow> builder \<Rightarrow> builder result" where
  "ccl_coll_build_ring_allreduce check env_chunks env_min send_buf recv_buf cnt dtype_size comm_size rank s =
     (if cnt = 0 then Inr s
      else throw_if_not (buf_ok send_buf \<and> buf_ok recv_buf) ''incorrect values''
        (rbind (ccl_coll_build_reduce_scatter_block env_chunks env_min send_buf recv_buf cnt dtype_size comm_size rank s)
          (\<lambda>s. let s = barrier_here s;
                   main_block_count = cnt div comm_size;
                   recv_counts = ar_recv_counts cnt comm_size
               in rbind (ccl_coll_build_ring_allgatherv check
                           (Some (loc_add recv_buf (rank * main_block_count * dtype_size))) (recv_counts ! rank)
                           recv_buf recv_counts dtype_size comm_size rank s)
                    (\<lambda>s. Inr (barrier_here s)))))"

section \<open>The blocks\<close>

lemma length_ar_recv_counts [simp]: "length (ar_recv_counts cnt n) = n"
  by (simp add: ar_recv_counts_def Let_def)

lemma nth_ar_recv_counts: "j < n \<Longrightarrow> ar_recv_counts cnt n ! j = rs_block_size cnt n j"
  by (auto simp: ar_recv_counts_def rs_block_size_def Let_def nth_list_update)

lemma ar_blk_off: "j < n \<Longrightarrow> blk_off ds (ar_recv_counts cnt n) j = j * (cnt div n) * ds"
proof -
  assume "j < n"
  then have "take j (ar_recv_counts cnt n) = replicate j (cnt div n)"
    by (intro nth_equalityI) (auto simp: nth_ar_recv_counts rs_block_size_def Let_def)
  then show ?thesis by (simp add: blk_off_def sum_list_replicate)
qed

lemma ar_loc: "j < n \<Longrightarrow> ag_loc rb ds (ar_recv_counts cnt n) r j = loc_add (rb r) (cnt div n * j * ds)"
  by (simp add: ar_blk_off mult.commute)

text \<open>The blocks cover the buffer.\<close>

lemma rs_block_of:
  assumes "e < cnt" and "0 < n"
  obtains j e' where "j < n" "e' < rs_block_size cnt n j" "e = cnt div n * j + e'"
proof -
  define q where "q = cnt div n"
  have cn: "q * n + cnt mod n = cnt" by (simp add: q_def)
  show thesis
  proof (cases "e < q * (n - 1)")
    case True
    then have q: "0 < q" by (auto intro: gr0I)
    have c: "e div q < n - 1" using True q by (simp add: less_mult_imp_div_less mult.commute)
    then have "e mod q < rs_block_size cnt n (e div q)"
      using q by (simp add: rs_block_size_def Let_def q_def [symmetric])
    then show thesis using that [of "e div q" "e mod q"] c by (simp add: q_def)
  next
    case False
    have "q * Suc (n - 1) = q * n" using assms(2) by simp
    then have "q * (n - 1) + q = q * n" by simp
    then have "e - q * (n - 1) < q + cnt mod n" using False assms(1) cn by simp
    moreover have "rs_block_size cnt n (n - 1) = q + cnt mod n" by (simp add: rs_block_size_def Let_def q_def)
    ultimately show thesis using that [of "n - 1" "e - q * (n - 1)"] False assms(2) by (simp add: q_def)
  qed
qed

section \<open>The entries\<close>

definition ring_ag_list :: "(rank \<Rightarrow> loc) \<Rightarrow> nat list \<Rightarrow> nat \<Rightarrow> nat \<Rightarrow> round list" where
  "ring_ag_list rb cs ds n = map (\<lambda>i. flagged (ring_seg (ag_loc rb ds cs) ((!) cs) ds n i)) [0..<n - 1]"

definition ring_ar_rounds ::
    "(rank \<Rightarrow> loc) \<Rightarrow> (rank \<Rightarrow> loc) \<Rightarrow> nat \<Rightarrow> nat \<Rightarrow> nat \<Rightarrow> nat \<Rightarrow> nat \<Rightarrow> round list" where
  "ring_ar_rounds sb rb cnt ds n nb cc =
     rs_blk_rounds sb rb (\<lambda>_. nb) cnt ds n cc @ ring_ag_list rb (ar_recv_counts cnt n) ds n"

lemma ring_ag_list_entries:
  "round_entries (ring_ag_list rb cs ds n) r =
     concat (map (\<lambda>i. with_barrier (ring_seg (ag_loc rb ds cs) ((!) cs) ds n i r)) [0..<n - 1])"
  by (simp add: ring_ag_list_def round_entries_def comp_def)

lemma ring_ag_list_good: "good_rounds n (ring_ag_list rb cs ds n)"
  using with_barrier_E(1) ring_comm_round by (auto simp: good_rounds_def ring_ag_list_def is_round_def)

lemma barrier_set_concat: "barrier_set es \<Longrightarrow> barrier_set (es @ concat (map (\<lambda>i. with_barrier (g i)) xs))"
proof (induction xs arbitrary: es)
  case (Cons x xs)
  from Cons.IH [OF barrier_set_with_barrier [OF Cons.prems, of "g x"]] show ?case by simp
qed simp

lemma ring_allreduce_build:
  assumes "0 < cnt" and r: "r < n" and ok: "buf_ok (sb r)" "buf_ok (rb r)" and fresh: "fst (rb r) < nb"
    and ds: "0 < ds" and placed: "\<And>r. r < n \<Longrightarrow> rs_placed (sb r) (rb r) (cnt * ds)" "\<And>r. r < n \<Longrightarrow> fst (rb r) < nb"
  shows "\<exists>s'. ccl_coll_build_ring_allreduce check ec em (sb r) (rb r) cnt ds n r (new_builder nb) = Inr s' \<and>
    ops s' = round_entries (ring_ar_rounds sb rb cnt ds n nb (rs_chunk_count ec em cnt ds n)) r"
proof -
  let ?cs = "ar_recv_counts cnt n" and ?cc = "rs_chunk_count ec em cnt ds n"
  let ?s = "new_builder nb"
  obtain s1 where s1: "ccl_coll_build_reduce_scatter_block ec em (sb r) (rb r) cnt ds n r ?s = Inr s1"
    "ops s1 = ops ?s @ round_entries (rs_blk_rounds sb rb (\<lambda>_. nb) cnt ds n ?cc) r"
    by (rule rs_blk_build [where sb = sb and rb = rb and tb = "\<lambda>_. nb" and s = ?s, OF r ok _ refl])
      (use fresh in \<open>auto simp: new_builder_def\<close>)
  have bs: "barrier_set (ops s1)"
    unfolding s1(2) using rs_blk_safe(2) [where sb = sb and rb = rb and tb = "\<lambda>_. nb", OF ds r placed(1)] placed(2)
    by (fastforce simp: new_builder_def)
  then have o1: "ops (barrier_here s1) = ops s1" by (rule ops_barrier_set)
  let ?sb = "\<lambda>r. Some (loc_add (rb r) (r * (cnt div n) * ds))"
  have off: "blk_off ds ?cs r = r * (cnt div n) * ds" by (rule ar_blk_off [OF r])
  then have pl: "ag_placed (?sb r) (rb r) ds ?cs r" by (simp add: ag_placed_def)
  have no: "ag_copy (?sb r) (rb r) ds ?cs r = []" using off by (simp add: ag_copy_def ag_inplace_def)
  obtain s2 where s2: "ccl_coll_build_ring_allgatherv check (?sb r) (?cs ! r) (rb r) ?cs ds n r (barrier_here s1) = Inr s2"
    "ops s2 = ops s1 @ concat (map (\<lambda>i. with_barrier (ring_seg (ag_loc rb ds ?cs) ((!) ?cs) ds n i r)) [0..<n - 1])"
    using ring_allgatherv_ops [where sb = ?sb and rb = rb and s = "barrier_here s1" and check = check and ds = ds,
        OF length_ar_recv_counts r pl] bs unfolding o1 no by auto
  have "ops (barrier_here s2) = ops s2"
    by (rule ops_barrier_set) (unfold s2(2), rule barrier_set_concat [OF bs])
  then show ?thesis
    using assms(1) ok s1 s2
    by (simp add: ccl_coll_build_ring_allreduce_def Let_def ring_ar_rounds_def ring_ag_list_entries new_builder_def)
qed

section \<open>The result\<close>

text \<open>
  What an allreduce promises: every rank has the reduction over all ranks in its receive buffer, and
  of the memory allocated before the call nothing else changes.
\<close>

definition allreduce_result ::
    "('v \<Rightarrow> 'v \<Rightarrow> 'v) \<Rightarrow> (rank \<Rightarrow> loc) \<Rightarrow> (rank \<Rightarrow> loc) \<Rightarrow> nat \<Rightarrow> nat \<Rightarrow> nat \<Rightarrow> nat \<Rightarrow> (rank \<Rightarrow> 'v mem) \<Rightarrow> (rank \<Rightarrow> 'v mem) \<Rightarrow> bool" where
  "allreduce_result f sb rb cnt ds n nb M M' \<longleftrightarrow>
     (\<forall>r < n. read_cells (M' r) (rb r) cnt ds = red_elems f cnt (\<lambda>q. read_cells (M q) (sb q) cnt ds) [0..<n]) \<and>
     (\<forall>r a. n \<le> r \<or> fst a < nb \<and> \<not> in_rng (rb r, cnt * ds) a \<longrightarrow> M' r a = M r a)"

lemma ring_ag_list_triple:
  assumes "length cs = n" and "0 < ds" and "0 < n"
  shows "rounds_triple f (ring_has (ag_loc rb ds cs) ((!) cs) ds n D 0) (ring_ag_list rb cs ds n)
    (ring_has (ag_loc rb ds cs) ((!) cs) ds n D (n - 1))"
proof -
  have "rounds_triple f (ring_has (ag_loc rb ds cs) ((!) cs) ds n D 0)
      (concat (map (\<lambda>i. [flagged (ring_seg (ag_loc rb ds cs) ((!) cs) ds n i)]) [0..<n - 1]))
      (ring_has (ag_loc rb ds cs) ((!) cs) ds n D (n - 1))"
  proof (rule rounds_triple_concat [where I = "ring_has (ag_loc rb ds cs) ((!) cs) ds n D"])
    fix k assume "k < n - 1"
    then have k: "Suc k < n" by simp
    show "rounds_triple f (ring_has (ag_loc rb ds cs) ((!) cs) ds n D k) [flagged (ring_seg (ag_loc rb ds cs) ((!) cs) ds n k)]
        (ring_has (ag_loc rb ds cs) ((!) cs) ds n D (Suc k))"
      by (rule rounds_tripleI) (simp add: ring_has_step [OF assms(2) k ag_blocks_disj [OF assms(1)]])
  qed simp
  moreover have "concat (map (\<lambda>i. [g i]) xs) = map g xs" for g :: "nat \<Rightarrow> round" and xs by (induction xs) auto
  ultimately show ?thesis by (simp add: ring_ag_list_def)
qed

lemma ring_ag_list_frame:
  assumes "0 < ds" and "r < n" and "\<forall>j < n. \<not> in_rng (ag_loc rb ds cs r j, cs ! j * ds) a"
  shows "run_rounds f (ring_ag_list rb cs ds n) M r a = M r a"
proof (rule run_rounds_frame [OF ring_ag_list_good])
  fix E assume "E \<in> set (ring_ag_list rb cs ds n)"
  then obtain i where "round_seg E r = ring_seg (ag_loc rb ds cs) ((!) cs) ds n i r"
    by (auto simp: ring_ag_list_def round_seg_def with_barrier_ops)
  moreover have "(r + n - Suc i) mod n < n" using assms(2) by simp
  ultimately show "seg_avoids (round_seg E r) a"
    using assms by (auto simp: seg_avoids_def ring_seg_def Let_def op_size_ok_def)
qed

lemma ring_ar_result:
  assumes f: "abel_semigroup f" and ds: "0 < ds" and n: "0 < n" and cc: "0 < cc"
    and placed: "\<And>r. r < n \<Longrightarrow> rs_placed (sb r) (rb r) (cnt * ds)" and nb: "\<And>r. r < n \<Longrightarrow> fst (rb r) < nb"
  shows "allreduce_result f sb rb cnt ds n nb M (run_rounds f (ring_ar_rounds sb rb cnt ds n nb cc) M)"
proof -
  let ?cs = "ar_recv_counts cnt n"
  define R where "R = red_elems f cnt (\<lambda>q. read_cells (M q) (sb q) cnt ds) [0..<n]"
  define D where "D j = take (rs_block_size cnt n j) (drop (cnt div n * j) R)" for j
  define M1 where "M1 = run_rounds f (rs_blk_rounds sb rb (\<lambda>_. nb) cnt ds n cc) M"
  define M2 where "M2 = run_rounds f (ring_ag_list rb ?cs ds n) M1"
  have M2: "run_rounds f (ring_ar_rounds sb rb cnt ds n nb cc) M = M2" by (simp add: ring_ar_rounds_def M1_def M2_def)
  have tb: "fst (rb r) \<noteq> nb" if "r < n" for r using nb [OF that] by simp
  have "rs_result f sb rb cnt ds n M M1" unfolding M1_def by (rule rs_blk_result [OF f ds n cc placed tb])
  then have "ring_has (ag_loc rb ds ?cs) ((!) ?cs) ds n D 0 M1"
    by (auto simp: ring_has_def has_block_def rs_result_def ar_loc nth_ar_recv_counts D_def R_def)
  then have "ring_has (ag_loc rb ds ?cs) ((!) ?cs) ds n D (n - 1) M2"
    unfolding M2_def by (rule rounds_tripleD [OF ring_ag_list_triple [OF length_ar_recv_counts ds n]])
  from ring_has_all [OF this] have blk: "read_cells (M2 r) (loc_add (rb r) (cnt div n * j * ds)) (rs_block_size cnt n j) ds = D j"
    if "r < n" "j < n" for r j using that by (simp add: has_block_def ar_loc nth_ar_recv_counts)
  have res: "read_cells (M2 r) (rb r) cnt ds = R" if r: "r < n" for r
  proof (rule nth_equalityI)
    fix e assume "e < length (read_cells (M2 r) (rb r) cnt ds)"
    then have e: "e < cnt" by simp
    from rs_block_of [OF e n] obtain j e' where j: "j < n" "e' < rs_block_size cnt n j" "e = cnt div n * j + e'" .
    have len: "cnt div n * j + e' < length R" using e j(3) by (simp add: R_def)
    have "read_cells (M2 r) (rb r) cnt ds ! e = M2 r (loc_add (rb r) (cnt div n * j * ds + e' * ds))"
      using e j(3) by (simp add: add_mult_distrib)
    also have "\<dots> = D j ! e'" using blk [OF r j(1)] j(2) by (metis loc_add_add nth_read_cells)
    also have "\<dots> = R ! e" using len j(2,3) by (simp add: D_def)
    finally show "read_cells (M2 r) (rb r) cnt ds ! e = R ! e" .
  qed (simp add: R_def)
  have fr: "M2 r a = M r a" if a: "n \<le> r \<or> fst a < nb \<and> \<not> in_rng (rb r, cnt * ds) a" for r a
  proof (cases "n \<le> r")
    case True
    then show ?thesis by (simp add: M2_def M1_def run_rounds_out [OF ring_ag_list_good] run_rounds_out [OF rs_blk_good])
  next
    case False
    with a have a: "fst a \<noteq> nb" "\<not> in_rng (rb r, cnt * ds) a" and r: "r < n" by auto
    have "\<not> in_rng (ag_loc rb ds ?cs r j, ?cs ! j * ds) a" if "j < n" for j
    proof -
      have "(cnt div n * j + rs_block_size cnt n j) * ds \<le> cnt * ds" by (rule mult_le_mono1 [OF rs_block_le [OF that]])
      with a(2) show ?thesis
        unfolding ar_loc [OF that] nth_ar_recv_counts [OF that] by (auto simp: in_rng_def loc_add_def add_mult_distrib)
    qed
    then have "M2 r a = M1 r a" unfolding M2_def using ring_ag_list_frame [OF ds r] by blast
    also have "\<dots> = M r a" unfolding M1_def by (rule rs_blk_frame [where rb = rb and tb = "\<lambda>_. nb", OF ds a(2,1) r])
    finally show ?thesis .
  qed
  show ?thesis
    unfolding M2 allreduce_result_def R_def [symmetric]
    by (intro conjI allI impI; (rule res | rule fr); assumption)
qed

definition ring_allreduce_entries ::
    "bool \<Rightarrow> nat \<Rightarrow> nat \<Rightarrow> (rank \<Rightarrow> loc) \<Rightarrow> (rank \<Rightarrow> loc) \<Rightarrow> nat \<Rightarrow> nat \<Rightarrow> nat \<Rightarrow> nat \<Rightarrow> rank \<Rightarrow> (sched_op \<times> bool) list" where
  "ring_allreduce_entries check ec em sb rb cnt ds n nb r =
     ops (projr (ccl_coll_build_ring_allreduce check ec em (sb r) (rb r) cnt ds n r (new_builder nb)))"

text \<open>
  C1: the ring allreduce reduces: for every associative and commutative reduction, every count
  (also smaller than the number of ranks) and every setting of the chunk parameters, with send and
  receive buffer the same or apart, the builder succeeds, and in every interleaving every rank ends
  with the reduction over all ranks in its receive buffer and nothing else has changed.
\<close>

theorem ring_allreduce_correct:
  assumes "fifo_transport T" and "abel_semigroup f" and "0 < n" and "0 < ds" and "0 < cnt"
    and bufs: "\<forall>r < n. buf_ok (sb r) \<and> buf_ok (rb r) \<and> fst (rb r) < nb \<and> rs_placed (sb r) (rb r) (cnt * ds)"
  shows "(\<forall>r < n. \<exists>s. ccl_coll_build_ring_allreduce check ec em (sb r) (rb r) cnt ds n r (new_builder nb) = Inr s) \<and>
    coll_correct T f (coll_start T n (ring_allreduce_entries check ec em sb rb cnt ds n nb) M)
      (allreduce_result f sb rb cnt ds n nb M)"
proof
  let ?es = "ring_allreduce_entries check ec em sb rb cnt ds n nb"
  let ?rl = "ring_ar_rounds sb rb cnt ds n nb (rs_chunk_count ec em cnt ds n)"
  have pl: "rs_placed (sb r) (rb r) (cnt * ds)" "fst (rb r) < nb" "fst (rb r) \<noteq> nb" if "r < n" for r using bufs that by auto
  have b: "\<exists>s'. ccl_coll_build_ring_allreduce check ec em (sb r) (rb r) cnt ds n r (new_builder nb) = Inr s' \<and>
      ops s' = round_entries ?rl r" if "r < n" for r
    by (rule ring_allreduce_build [OF assms(5) that _ _ _ assms(4)]) (use bufs that in auto)
  then show "\<forall>r < n. \<exists>s. ccl_coll_build_ring_allreduce check ec em (sb r) (rb r) cnt ds n r (new_builder nb) = Inr s" by blast
  have es: "?es r = round_entries ?rl r" if "r < n" for r using b [OF that] by (auto simp: ring_allreduce_entries_def)
  show "coll_correct T f (coll_start T n ?es M) (allreduce_result f sb rb cnt ds n nb M)"
  proof (rule fifo_transport.round_list_correct [OF assms(1) _ es])
    show "good_rounds n ?rl" by (simp add: ring_ar_rounds_def rs_blk_good ring_ag_list_good)
    show "allreduce_result f sb rb cnt ds n nb M (run_rounds f ?rl M)"
      by (rule ring_ar_result [OF assms(2,4,3) rs_chunk_count_pos pl(1,2)])
    fix r assume r: "r < n"
    have "safe_entries (concat (map (\<lambda>i. with_barrier (ring_seg (ag_loc rb ds (ar_recv_counts cnt n)) ((!) (ar_recv_counts cnt n)) ds n i r)) [0..<n - 1]))"
      by (rule safe_entries_concat)
        (use with_barrier_phase with_barrier_ops ring_safe [OF assms(4) _ ag_blocks_disj [OF length_ar_recv_counts] r] in auto)
    with rs_blk_safe [where sb = sb and rb = rb and tb = "\<lambda>_. nb", OF assms(4) r pl(1,3)] show "safe_entries (?es r)"
      unfolding es [OF r] by (simp add: ring_ar_rounds_def ring_ag_list_entries safe_entries_append)
  qed
qed

lemma ring_allreduce_correct_witness:
  "(\<exists>s. ccl_coll_build_ring_allreduce True 2 8 (1, 0) (1, 0) 7 4 3 1 (new_builder 2) = Inr s) \<and>
   coll_correct queue_transport (+) (coll_start queue_transport 3
     (ring_allreduce_entries True 2 8 (\<lambda>_. (1, 0)) (\<lambda>_. (1, 0)) 7 4 3 2) (\<lambda>r a. of_nat r :: 32 word))
     (allreduce_result (+) (\<lambda>_. (1, 0)) (\<lambda>_. (1, 0)) 7 4 3 2 (\<lambda>r a. of_nat r))"
  using ring_allreduce_correct [OF queues.fifo_transport_axioms word_add_abel,
      of 3 4 7 "\<lambda>_. (1, 0)" "\<lambda>_. (1, 0)" 2 True 2 8 "\<lambda>r a. of_nat r"]
  by (auto simp: buf_ok_def rs_placed_def dest!: spec [of _ 1])

end
