(* ===== verification/CollAllreduceRD.thy ===== *)
theory CollAllreduceRD
  imports CollAllreduceRing Utils
begin

text \<open>
  The recursive doubling allreduce (\<^verbatim>\<open>ccl_coll_build_recursive_doubling_allreduce\<close> of
  \<^verbatim>\<open>src/src/coll/algorithms/allreduce/allreduce.cpp\<close>), for any number of ranks: when it is not a power of
  two, the even ranks among the first \<open>2 * rem\<close> hand their data to their odd neighbour, wait, and
  get the result back.
\<close>

section \<open>The builder\<close>

text \<open>\<^verbatim>\<open>comm->pof2()\<close>, computed from the size when the communicator is set up.\<close>

definition comm_pof2 :: "nat \<Rightarrow> nat" where
  "comm_pof2 comm_size = unat (pof2 (of_nat comm_size))"

definition rd_real :: "nat \<Rightarrow> nat \<Rightarrow> rank" where
  "rd_real rem newdst = (if newdst < rem then newdst * 2 + 1 else newdst + rem)"

text \<open>\<open>None\<close> is the invalid new rank (\<open>-1\<close>).\<close>

definition rd_newrank :: "nat \<Rightarrow> rank \<Rightarrow> nat option" where
  "rd_newrank rem rank =
     (if rank < 2 * rem then (if even rank then None else Some (rank div 2)) else Some (rank - rem))"

definition rd_prepare :: "loc \<Rightarrow> loc \<Rightarrow> nat \<Rightarrow> nat \<Rightarrow> nat \<Rightarrow> rank \<Rightarrow> builder \<Rightarrow> builder" where
  "rd_prepare recv_buf tmp_buf cnt ds rem rank s =
     (if rank < 2 * rem then
        if even rank then barrier_here (create (Send recv_buf cnt ds (rank + 1)) s)
        else
          let s = barrier_here (create (Recv tmp_buf cnt ds (rank - 1)) s)
          in barrier_here (create (ReduceLocal tmp_buf cnt recv_buf ds) s)
      else s)"

function rd_loop :: "loc \<Rightarrow> loc \<Rightarrow> nat \<Rightarrow> nat \<Rightarrow> nat \<Rightarrow> nat \<Rightarrow> nat \<Rightarrow> nat \<Rightarrow> builder \<Rightarrow> builder" where
  "rd_loop recv_buf tmp_buf cnt ds p2 rem newrank msk s =
     (if 0 < msk \<and> msk < p2 then
        let newdst = xor newrank msk;
            dst = rd_real rem newdst;
            s = create (Recv tmp_buf cnt ds dst) s;
            s = barrier_here (create (Send recv_buf cnt ds dst) s);
            s = barrier_here (create (ReduceLocal tmp_buf cnt recv_buf ds) s)
        in rd_loop recv_buf tmp_buf cnt ds p2 rem newrank (push_bit 1 msk) s
      else s)"
  by pat_completeness auto
termination
  by (relation "measure (\<lambda>(_, _, _, _, p2, _, _, msk, _). p2 - msk)") auto

declare rd_loop.simps [simp del]

definition rd_finish :: "loc \<Rightarrow> nat \<Rightarrow> nat \<Rightarrow> nat \<Rightarrow> rank \<Rightarrow> builder \<Rightarrow> builder" where
  "rd_finish recv_buf cnt ds rem rank s =
     (if rank < 2 * rem then
        barrier_here (if odd rank then create (Send recv_buf cnt ds (rank - 1)) s
                      else create (Recv recv_buf cnt ds (rank + 1)) s)
      else s)"

definition ccl_coll_build_recursive_doubling_allreduce ::
    "loc \<Rightarrow> loc \<Rightarrow> nat \<Rightarrow> nat \<Rightarrow> nat \<Rightarrow> rank \<Rightarrow> builder \<Rightarrow> builder" where
  "ccl_coll_build_recursive_doubling_allreduce send_buf recv_buf cnt ds comm_size rank s =
     (if cnt = 0 then s
      else
        let (tmp_buf, s) = alloc_buffer s;
            s = (if send_buf \<noteq> recv_buf then barrier_here (create (Copy send_buf recv_buf cnt ds) s) else s)
        in if comm_size = 1 then s
           else
             let p2 = comm_pof2 comm_size;
                 rem = comm_size - p2;
                 s = rd_prepare recv_buf tmp_buf cnt ds rem rank s;
                 s = (case rd_newrank rem rank of
                        None \<Rightarrow> s
                      | Some newrank \<Rightarrow> rd_loop recv_buf tmp_buf cnt ds p2 rem newrank 1 s)
             in rd_finish recv_buf cnt ds rem rank s)"

section \<open>New ranks\<close>

lemma comm_pof2_eq:
  assumes "0 < n" and "n < 2 ^ 63"
  obtains K where "comm_pof2 n = 2 ^ K" "2 ^ K \<le> n" "n < 2 ^ Suc K"
proof -
  have u: "unat (of_nat n :: size_t) = n" using assms(2) by (simp add: unat_of_nat take_bit_nat_eq_self)
  then have "0 < (of_nat n :: size_t)" using assms(1) by (simp add: word_less_nat_alt)
  from pof2_eq [OF this] u that show thesis by (auto simp: comm_pof2_def)
qed

lemma rd_real_new: "rem \<le> P \<Longrightarrow> p < P \<Longrightarrow> rd_real rem p < P + rem \<and> rd_newrank rem (rd_real rem p) = Some p"
  by (auto simp: rd_real_def rd_newrank_def)

lemma rd_new_real: "r < P + rem \<Longrightarrow> rem \<le> P \<Longrightarrow> rd_newrank rem r = Some p \<Longrightarrow> p < P \<and> rd_real rem p = r"
  by (auto simp: rd_real_def rd_newrank_def split: if_splits) presburger+

section \<open>The groups of ranks whose data a rank has\<close>

definition rd_group :: "nat \<Rightarrow> nat \<Rightarrow> rank list" where
  "rd_group rem p = (if p < rem then [2 * p, 2 * p + 1] else [p + rem])"

definition rd_have :: "nat \<Rightarrow> nat \<Rightarrow> nat \<Rightarrow> rank list" where
  "rd_have rem k p = concat (map (rd_group rem) [p div 2 ^ k * 2 ^ k..<p div 2 ^ k * 2 ^ k + 2 ^ k])"

lemma odd_block: "odd (p div 2 ^ k) \<Longrightarrow> 2 ^ k \<le> p \<and> p div 2 ^ k = Suc ((p - 2 ^ k) div 2 ^ k)" for p k :: nat
proof -
  assume "odd (p div 2 ^ k)"
  then have "2 ^ k \<le> p" by (metis div_less even_zero not_le)
  then show ?thesis by (simp add: le_div_geq)
qed

lemma xor_bit: "xor p (2 ^ k) = (if even (p div 2 ^ k) then p + 2 ^ k else p - 2 ^ k)" for p k :: nat
proof -
  have e: "xor q (2 ^ k) = q + 2 ^ k" if "even (q div 2 ^ k)" for q :: nat
  proof -
    have "xor q (2 ^ k) = flip_bit k q" by (simp add: flip_bit_eq_xor push_bit_eq_mult)
    also have "\<dots> = q + 2 ^ k" using that by (simp add: flip_bit_eq_if set_bit_eq bit_iff_odd)
    finally show ?thesis .
  qed
  show ?thesis
  proof (cases "even (p div 2 ^ k)")
    case False
    define q where "q = p - 2 ^ k"
    from odd_block [OF False] False have q: "p = q + 2 ^ k" "even (q div 2 ^ k)" by (auto simp: q_def)
    then have "xor p (2 ^ k) = xor (xor q (2 ^ k)) (2 ^ k)" using e by simp
    also have "\<dots> = q" by (simp add: xor.assoc)
    finally show ?thesis using False by (simp add: q_def)
  qed (simp add: e)
qed

lemma xor_block:
  fixes p k :: nat
  shows "xor p (2 ^ k) div 2 ^ k = (if even (p div 2 ^ k) then p div 2 ^ k + 1 else p div 2 ^ k - 1)"
    and "xor (xor p (2 ^ k)) (2 ^ k) = p" and "p < 2 ^ K \<Longrightarrow> k < K \<Longrightarrow> xor p (2 ^ k) < 2 ^ K"
    and "xor p (2 ^ k) \<noteq> p"
proof -
  show "xor p (2 ^ k) div 2 ^ k = (if even (p div 2 ^ k) then p div 2 ^ k + 1 else p div 2 ^ k - 1)"
  proof (cases "even (p div 2 ^ k)")
    case True
    have "(p + 2 ^ k) div 2 ^ k = p div 2 ^ k + 1" by (rule div_add_self2) simp
    with True show ?thesis by (simp only: xor_bit if_True)
  next
    case False
    with odd_block [OF False] show ?thesis by (simp only: xor_bit if_False diff_Suc_1)
  qed
  show "xor (xor p (2 ^ k)) (2 ^ k) = p" by (simp add: xor.assoc)
  show "xor p (2 ^ k) \<noteq> p"
  proof
    assume "xor p (2 ^ k) = p"
    then have "xor p (xor p (2 ^ k)) = xor p p" by simp
    then have "(2::nat) ^ k = 0" unfolding xor.assoc [symmetric] xor_self_eq xor.left_neutral .
    then show False by simp
  qed
  assume "p < 2 ^ K" "k < K"
  have "take_bit K (xor p (2 ^ k)) = xor (take_bit K p) (take_bit K (2 ^ k))" by (simp add: take_bit_xor)
  also have "\<dots> = xor p (2 ^ k)" using \<open>p < 2 ^ K\<close> \<open>k < K\<close> by (simp add: take_bit_nat_eq_self)
  finally show "xor p (2 ^ k) < 2 ^ K" by (metis take_bit_nat_less_exp)
qed

lemma rd_have_step: "mset (rd_have rem (Suc k) p) = mset (rd_have rem k p) + mset (rd_have rem k (xor p (2 ^ k)))"
proof -
  define b where "b = p div 2 ^ k"
  let ?l = "\<lambda>b. concat (map (rd_group rem) [b * 2 ^ k..<b * 2 ^ k + 2 ^ k])"
  have h: "rd_have rem k q = ?l (q div 2 ^ k)" for q by (simp add: rd_have_def)
  have pb: "p div 2 ^ Suc k = b div 2" by (simp only: b_def power_Suc2 div_mult2_eq)
  have split: "[c * 2 ^ Suc k..<c * 2 ^ Suc k + 2 ^ Suc k] =
      [2 * c * 2 ^ k..<2 * c * 2 ^ k + 2 ^ k] @ [(2 * c + 1) * 2 ^ k..<(2 * c + 1) * 2 ^ k + 2 ^ k]" for c :: nat
    using upt_add_eq_append [of "2 * c * 2 ^ k" "2 * c * 2 ^ k + 2 ^ k" "2 ^ k"] by (simp add: algebra_simps)
  have "rd_have rem (Suc k) p = ?l (2 * (b div 2)) @ ?l (2 * (b div 2) + 1)"
    unfolding rd_have_def pb split by simp
  moreover have "even b \<Longrightarrow> 2 * (b div 2) = b" "odd b \<Longrightarrow> 2 * (b div 2) + 1 = b" "odd b \<Longrightarrow> 2 * (b div 2) = b - 1" by presburger+
  ultimately show ?thesis
    unfolding h xor_block(1) b_def [symmetric] by (cases "even b") (auto simp: add.commute)
qed

lemma rd_have_0: "rd_have rem 0 p = rd_group rem p"
  by (simp add: rd_have_def)

lemma rd_have_ne [simp]: "rd_have rem k p \<noteq> []"
proof -
  have "p div 2 ^ k * 2 ^ k < p div 2 ^ k * 2 ^ k + 2 ^ k" by simp
  then show ?thesis by (auto simp: rd_have_def upt_conv_Cons rd_group_def)
qed

lemma rd_groups_below: "p \<le> rem \<Longrightarrow> mset (concat (map (rd_group rem) [0..<p])) = mset [0..<2 * p]"
  by (induction p) (auto simp: rd_group_def)

lemma rd_have_all:
  assumes "p < 2 ^ K" and "rem \<le> 2 ^ K"
  shows "mset (rd_have rem K p) = mset [0..<2 ^ K + rem]"
proof -
  have "mset (concat (map (rd_group rem) [0..<q])) = mset [0..<q + rem]" if "rem \<le> q" for q
    using that
  proof (induction q rule: dec_induct)
    case base
    show ?case using rd_groups_below [of rem rem] by (simp add: mult_2)
  next
    case (step q)
    then show ?case by (simp add: rd_group_def)
  qed
  from this [OF assms(2)] show ?thesis using assms(1) by (simp add: rd_have_def)
qed

section \<open>The rounds\<close>

definition rd_copy :: "(rank \<Rightarrow> loc) \<Rightarrow> (rank \<Rightarrow> loc) \<Rightarrow> nat \<Rightarrow> nat \<Rightarrow> nat \<Rightarrow> rank \<Rightarrow> sched_op list" where
  "rd_copy sb rb cnt ds n r = (if r < n \<and> sb r \<noteq> rb r then [Copy (sb r) (rb r) cnt ds] else [])"

definition rd_pre :: "(rank \<Rightarrow> loc) \<Rightarrow> nat \<Rightarrow> nat \<Rightarrow> nat \<Rightarrow> nat \<Rightarrow> rank \<Rightarrow> sched_op list" where
  "rd_pre rb nb cnt ds rem r =
     (if r < 2 * rem then if even r then [Send (rb r) cnt ds (r + 1)] else [Recv (nb, 0) cnt ds (r - 1)] else [])"

definition rd_pre_red :: "(rank \<Rightarrow> loc) \<Rightarrow> nat \<Rightarrow> nat \<Rightarrow> nat \<Rightarrow> nat \<Rightarrow> rank \<Rightarrow> sched_op list" where
  "rd_pre_red rb nb cnt ds rem r = (if r < 2 * rem \<and> odd r then [ReduceLocal (nb, 0) cnt (rb r) ds] else [])"

definition rd_comm :: "(rank \<Rightarrow> loc) \<Rightarrow> nat \<Rightarrow> nat \<Rightarrow> nat \<Rightarrow> nat \<Rightarrow> nat \<Rightarrow> nat \<Rightarrow> rank \<Rightarrow> sched_op list" where
  "rd_comm rb nb cnt ds n rem k r =
     (case rd_newrank rem r of
        None \<Rightarrow> []
      | Some p \<Rightarrow>
          if r < n then [Recv (nb, 0) cnt ds (rd_real rem (xor p (2 ^ k))), Send (rb r) cnt ds (rd_real rem (xor p (2 ^ k)))]
          else [])"

definition rd_red :: "(rank \<Rightarrow> loc) \<Rightarrow> nat \<Rightarrow> nat \<Rightarrow> nat \<Rightarrow> nat \<Rightarrow> nat \<Rightarrow> rank \<Rightarrow> sched_op list" where
  "rd_red rb nb cnt ds n rem r =
     (if r < n \<and> rd_newrank rem r \<noteq> None then [ReduceLocal (nb, 0) cnt (rb r) ds] else [])"

definition rd_post :: "(rank \<Rightarrow> loc) \<Rightarrow> nat \<Rightarrow> nat \<Rightarrow> nat \<Rightarrow> rank \<Rightarrow> sched_op list" where
  "rd_post rb cnt ds rem r =
     (if r < 2 * rem then if odd r then [Send (rb r) cnt ds (r - 1)] else [Recv (rb r) cnt ds (r + 1)] else [])"

definition rd_segs ::
    "(rank \<Rightarrow> loc) \<Rightarrow> (rank \<Rightarrow> loc) \<Rightarrow> nat \<Rightarrow> nat \<Rightarrow> nat \<Rightarrow> nat \<Rightarrow> nat \<Rightarrow> nat \<Rightarrow> (rank \<Rightarrow> sched_op list) list" where
  "rd_segs sb rb nb cnt ds n K rem =
     rd_copy sb rb cnt ds n # rd_pre rb nb cnt ds rem # rd_pre_red rb nb cnt ds rem #
     concat (map (\<lambda>k. [rd_comm rb nb cnt ds n rem k, rd_red rb nb cnt ds n rem]) [0..<K]) @
     [rd_post rb cnt ds rem]"

definition rd_rounds ::
    "(rank \<Rightarrow> loc) \<Rightarrow> (rank \<Rightarrow> loc) \<Rightarrow> nat \<Rightarrow> nat \<Rightarrow> nat \<Rightarrow> nat \<Rightarrow> nat \<Rightarrow> nat \<Rightarrow> round list" where
  "rd_rounds sb rb nb cnt ds n K rem = map (\<lambda>seg. flagged seg) (rd_segs sb rb nb cnt ds n K rem)"

definition rd_peers :: "nat \<Rightarrow> nat \<Rightarrow> nat \<Rightarrow> rank \<Rightarrow> rank \<Rightarrow> bool" where
  "rd_peers n rem k s d \<longleftrightarrow>
     (case rd_newrank rem s of None \<Rightarrow> False | Some p \<Rightarrow> s < n \<and> d = rd_real rem (xor p (2 ^ k)))"

lemma rd_peers_sym:
  assumes "n = 2 ^ K + rem" and "rem \<le> 2 ^ K" and "k < K" and "rd_peers n rem k s d"
  shows "rd_peers n rem k d s"
proof -
  from assms(4) obtain p where p: "s < n" "rd_newrank rem s = Some p" "d = rd_real rem (xor p (2 ^ k))"
    by (auto simp: rd_peers_def split: option.splits)
  with rd_new_real [of s "2 ^ K" rem p] assms have P: "p < 2 ^ K" "rd_real rem p = s" by auto
  then have "xor p (2 ^ k) < 2 ^ K" using xor_block(3) assms(3) by blast
  from rd_real_new [OF assms(2) this] p(3) assms(1) P(2) show ?thesis
    by (simp add: rd_peers_def xor_block(2))
qed

lemma rd_comm_sends:
  "sends_to (rd_comm rb nb cnt ds n rem k) s d = (if rd_peers n rem k s d then [Send (rb s) cnt ds d] else [])"
proof (cases "rd_newrank rem s")
  case (Some p)
  then show ?thesis by (auto simp: sends_to_def rd_comm_def rd_peers_def)
qed (simp add: sends_to_def rd_comm_def rd_peers_def)

lemma rd_comm_recvs:
  "recvs_from (rd_comm rb nb cnt ds n rem k) d s = (if rd_peers n rem k d s then [Recv (nb, 0) cnt ds s] else [])"
proof (cases "rd_newrank rem d")
  case (Some p)
  then show ?thesis by (auto simp: recvs_from_def rd_comm_def rd_peers_def)
qed (simp add: recvs_from_def rd_comm_def rd_peers_def)

lemma rd_comm_round:
  assumes "n = 2 ^ K + rem" and "rem \<le> 2 ^ K" and "k < K"
  shows "comm_round n (rd_comm rb nb cnt ds n rem k)"
proof (rule comm_roundI [OF _ _ rd_comm_sends])
  fix s d
  have "rd_peers n rem k d s \<longleftrightarrow> rd_peers n rem k s d" using rd_peers_sym [OF assms] by blast
  then show "recvs_from (rd_comm rb nb cnt ds n rem k) d s = (if rd_peers n rem k s d then [Recv (nb, 0) cnt ds s] else [])"
    by (simp only: rd_comm_recvs)
qed (auto simp: rd_comm_def is_local_def msg_fits_def split: option.splits if_splits)

lemma rd_pre_round:
  assumes "2 * rem \<le> n"
  shows "comm_round n (rd_pre rb nb cnt ds rem)"
proof (rule comm_roundI)
  fix s d
  let ?P = "s < 2 * rem \<and> even s \<and> d = s + 1"
  have iff: "?P \<longleftrightarrow> d < 2 * rem \<and> odd d \<and> s = d - 1"
    by presburger
  show "sends_to (rd_pre rb nb cnt ds rem) s d = (if ?P then [Send (rb s) cnt ds d] else [])"
    by (auto simp: sends_to_def rd_pre_def)
  show "recvs_from (rd_pre rb nb cnt ds rem) d s = (if ?P then [Recv (nb, 0) cnt ds s] else [])"
    unfolding iff by (auto simp: recvs_from_def rd_pre_def)
qed (use assms in \<open>auto simp: rd_pre_def is_local_def msg_fits_def split: if_splits\<close>)

lemma rd_post_round:
  assumes "2 * rem \<le> n"
  shows "comm_round n (rd_post rb cnt ds rem)"
proof (rule comm_roundI)
  fix s d
  let ?P = "s < 2 * rem \<and> odd s \<and> d = s - 1"
  have iff: "?P \<longleftrightarrow> d < 2 * rem \<and> even d \<and> s = d + 1"
    by presburger
  show "sends_to (rd_post rb cnt ds rem) s d = (if ?P then [Send (rb s) cnt ds d] else [])"
    by (auto simp: sends_to_def rd_post_def)
  show "recvs_from (rd_post rb cnt ds rem) d s = (if ?P then [Recv (rb d) cnt ds s] else [])"
    unfolding iff by (auto simp: recvs_from_def rd_post_def)
qed (use assms in \<open>auto simp: rd_post_def is_local_def msg_fits_def split: if_splits\<close>)

lemma rd_good:
  assumes "n = 2 ^ K + rem" and "rem \<le> 2 ^ K"
  shows "good_rounds n (rd_rounds sb rb nb cnt ds n K rem)"
proof -
  have r2: "2 * rem \<le> n" using assms by simp
  have "is_round n seg" if "seg \<in> set (rd_segs sb rb nb cnt ds n K rem)" for seg
    using that rd_comm_round [OF assms] rd_pre_round [OF r2] rd_post_round [OF r2] r2
    by (auto simp: rd_segs_def is_round_def local_round_def rd_copy_def rd_pre_red_def rd_red_def is_local_def)
  then show ?thesis using with_barrier_E(1) by (auto simp: good_rounds_def rd_rounds_def)
qed

lemma rd_safe:
  assumes "0 < ds" and "fst (rb r) < nb"
  shows "safe_entries (round_entries (rd_rounds sb rb nb cnt ds n K rem) r)"
proof -
  have "safe_phase (rd_comm rb nb cnt ds n rem k r)" for k
    using assms by (cases "rd_newrank rem r")
      (auto simp: safe_phase_def rd_comm_def op_size_ok_def ops_disj_def rngs_disj_def rng_disj_def)
  moreover have "safe_phase (rd_copy sb rb cnt ds n r)" "safe_phase (rd_pre rb nb cnt ds rem r)"
    "safe_phase (rd_pre_red rb nb cnt ds rem r)" "safe_phase (rd_red rb nb cnt ds n rem r)" "safe_phase (rd_post rb cnt ds rem r)"
    using assms by (auto simp: safe_phase_def rd_copy_def rd_pre_def rd_pre_red_def rd_red_def rd_post_def op_size_ok_def)
  ultimately have "safe_phase (seg r)" if "seg \<in> set (rd_segs sb rb nb cnt ds n K rem)" for seg
    using that by (auto simp: rd_segs_def)
  then show ?thesis
    unfolding round_entries_def rd_rounds_def
    by (intro safe_entries_concat) (use with_barrier_phase in \<open>auto simp: with_barrier_ops\<close>)
qed

section \<open>The entries\<close>

lemma rd_loop_ops:
  assumes "rd_newrank rem r = Some p" and "r < n"
  shows "k \<le> K \<Longrightarrow> ops (rd_loop (rb r) (nb, 0) cnt ds (2 ^ K) rem p (2 ^ k) s) =
    ops s @ concat (map (\<lambda>k. flagged (rd_comm rb nb cnt ds n rem k) r @ flagged (rd_red rb nb cnt ds n rem) r) [k..<K])"
proof (induction "K - k" arbitrary: k s)
  case 0
  then show ?case by (simp add: rd_loop.simps)
next
  case (Suc d)
  then have k: "k < K" by simp
  let ?dst = "rd_real rem (xor p (2 ^ k))"
  let ?s = "barrier_here (create (ReduceLocal (nb, 0) cnt (rb r) ds)
    (barrier_here (create (Send (rb r) cnt ds ?dst) (create (Recv (nb, 0) cnt ds ?dst) s))))"
  have "rd_loop (rb r) (nb, 0) cnt ds (2 ^ K) rem p (2 ^ k) s = rd_loop (rb r) (nb, 0) cnt ds (2 ^ K) rem p (2 ^ Suc k) ?s"
    using k by (subst rd_loop.simps) (simp add: Let_def push_bit_eq_mult mult.commute)
  moreover have "ops (rd_loop (rb r) (nb, 0) cnt ds (2 ^ K) rem p (2 ^ Suc k) ?s) =
      ops ?s @ concat (map (\<lambda>k. flagged (rd_comm rb nb cnt ds n rem k) r @ flagged (rd_red rb nb cnt ds n rem) r) [Suc k..<K])"
    by (rule Suc.hyps(1)) (use Suc k in auto)
  ultimately show ?case using assms by (simp add: upt_conv_Cons [OF k] rd_comm_def rd_red_def)
qed

lemma rd_segs_entries:
  "round_entries (rd_rounds sb rb nb cnt ds n K rem) r =
     flagged (rd_copy sb rb cnt ds n) r @ flagged (rd_pre rb nb cnt ds rem) r @ flagged (rd_pre_red rb nb cnt ds rem) r @
     concat (map (\<lambda>k. flagged (rd_comm rb nb cnt ds n rem k) r @ flagged (rd_red rb nb cnt ds n rem) r) [0..<K]) @
     flagged (rd_post rb cnt ds rem) r"
proof -
  have "round_entries (map (\<lambda>seg. flagged seg) (concat (map (\<lambda>k. [g k, h]) xs))) r = concat (map (\<lambda>k. flagged (g k) r @ flagged h r) xs)"
    for g :: "nat \<Rightarrow> rank \<Rightarrow> sched_op list" and h and xs
    by (induction xs) auto
  then show ?thesis by (simp add: rd_rounds_def rd_segs_def)
qed

lemma rd_build:
  assumes "0 < cnt" and "r < n" and "n = 2 ^ K + rem" and "comm_pof2 n = 2 ^ K" and "n \<noteq> 1"
  shows "ops (ccl_coll_build_recursive_doubling_allreduce (sb r) (rb r) cnt ds n r (new_builder nb)) =
    round_entries (rd_rounds sb rb nb cnt ds n K rem) r"
proof -
  define s0 where "s0 = (if sb r \<noteq> rb r then barrier_here (create (Copy (sb r) (rb r) cnt ds) \<lparr>ops = [], next_buf = Suc nb\<rparr>)
      else \<lparr>ops = [], next_buf = Suc nb\<rparr>)"
  define s1 where "s1 = rd_prepare (rb r) (nb, 0) cnt ds rem r s0"
  define s2 where "s2 = (case rd_newrank rem r of None \<Rightarrow> s1 | Some p \<Rightarrow> rd_loop (rb r) (nb, 0) cnt ds (2 ^ K) rem p 1 s1)"
  have rem: "n - 2 ^ K = rem" using assms(3) by simp
  have b: "ccl_coll_build_recursive_doubling_allreduce (sb r) (rb r) cnt ds n r (new_builder nb) = rd_finish (rb r) cnt ds rem r s2"
    using assms(1,5) unfolding ccl_coll_build_recursive_doubling_allreduce_def Let_def alloc_buffer_def new_builder_def assms(4) rem
      s2_def s1_def s0_def by simp
  have o0: "ops s0 = flagged (rd_copy sb rb cnt ds n) r" using assms(2) by (simp add: s0_def rd_copy_def)
  have o1: "ops s1 = ops s0 @ flagged (rd_pre rb nb cnt ds rem) r @ flagged (rd_pre_red rb nb cnt ds rem) r"
    by (simp add: s1_def rd_prepare_def rd_pre_def rd_pre_red_def)
  have o2: "ops s2 = ops s1 @ concat (map (\<lambda>k. flagged (rd_comm rb nb cnt ds n rem k) r @ flagged (rd_red rb nb cnt ds n rem) r) [0..<K])"
  proof (cases "rd_newrank rem r")
    case None
    then show ?thesis by (simp add: s2_def rd_comm_def rd_red_def)
  next
    case (Some p)
    with rd_loop_ops [OF Some assms(2), of 0 K] show ?thesis by (simp add: s2_def)
  qed
  have "ops (rd_finish (rb r) cnt ds rem r s2) = ops s2 @ flagged (rd_post rb cnt ds rem) r"
    by (simp add: rd_finish_def rd_post_def)
  then show ?thesis unfolding b rd_segs_entries o2 o1 o0 by simp
qed

section \<open>The result\<close>

definition rd_inv ::
    "('v \<Rightarrow> 'v \<Rightarrow> 'v) \<Rightarrow> (rank \<Rightarrow> loc) \<Rightarrow> nat \<Rightarrow> nat \<Rightarrow> nat \<Rightarrow> nat \<Rightarrow> (rank \<Rightarrow> 'v list) \<Rightarrow> nat \<Rightarrow> (rank \<Rightarrow> 'v mem) \<Rightarrow> bool" where
  "rd_inv f rb cnt ds K rem X k M \<longleftrightarrow>
     (\<forall>p < 2 ^ K. read_cells (M (rd_real rem p)) (rb (rd_real rem p)) cnt ds = red_elems f cnt X (rd_have rem k p))"

text \<open>Receive into the temporary buffer and reduce: the effect on the receive buffer.\<close>

lemma recv_reduce_tmp:
  assumes "0 < ds" and "length vs = cnt" and "fst (rb::loc) < nb"
  shows "read_cells (reduce_cells f (write_cells m (nb, 0) ds vs) (nb, 0) cnt rb ds) rb cnt ds = map2 f vs (read_cells m rb cnt ds)"
proof -
  have "read_cells (write_cells m (nb, 0) ds vs) rb cnt ds = read_cells m rb cnt ds"
    by (rule read_write_other) (use assms in \<open>auto simp: rng_disj_def\<close>)
  then show ?thesis using assms by (simp add: reduce_cells_read)
qed

lemma rd_step:
  assumes f: "abel_semigroup f" and ds: "0 < ds" and n: "n = 2 ^ K + rem" "rem \<le> 2 ^ K" and k: "k < K"
    and nb: "\<And>r. r < n \<Longrightarrow> fst (rb r) < nb" and inv: "rd_inv f rb cnt ds K rem X k M"
  shows "rd_inv f rb cnt ds K rem X (Suc k) (round_mem f (rd_red rb nb cnt ds n rem) (round_mem f (rd_comm rb nb cnt ds n rem k) M))"
  unfolding rd_inv_def
proof (intro allI impI)
  fix p :: nat assume p: "p < 2 ^ K"
  define q where "q = xor p (2 ^ k)"
  define r s where "r = rd_real rem p" and "s = rd_real rem q"
  have q: "q < 2 ^ K" unfolding q_def by (rule xor_block(3) [OF p k])
  have r: "r < n" "rd_newrank rem r = Some p" and s: "s < n" "rd_newrank rem s = Some q"
    using rd_real_new [OF n(2) p] rd_real_new [OF n(2) q] n(1) by (auto simp: r_def s_def)
  have "rd_real rem (xor q (2 ^ k)) = r" by (simp add: q_def xor_block(2) r_def)
  with s have "rd_peers n rem k s r" by (simp add: rd_peers_def)
  then have inb: "inbox (rd_comm rb nb cnt ds n rem k) M s r = read_cells (M s) (rb s) cnt ds"
    by (simp add: inbox_def rd_comm_sends)
  have m: "round_mem f (rd_red rb nb cnt ds n rem) (round_mem f (rd_comm rb nb cnt ds n rem k) M) r =
      reduce_cells f (write_cells (M r) (nb, 0) ds (read_cells (M s) (rb s) cnt ds)) (nb, 0) cnt (rb r) ds"
    using r inb by (simp add: round_mem_def rd_red_def rd_comm_def recv_vals_def flip: q_def s_def)
  have "read_cells (reduce_cells f (write_cells (M r) (nb, 0) ds (read_cells (M s) (rb s) cnt ds)) (nb, 0) cnt (rb r) ds) (rb r) cnt ds =
      map2 f (read_cells (M s) (rb s) cnt ds) (read_cells (M r) (rb r) cnt ds)"
    by (rule recv_reduce_tmp [OF ds _ nb [OF r(1)]]) simp
  also have "\<dots> = map2 f (red_elems f cnt X (rd_have rem k q)) (red_elems f cnt X (rd_have rem k p))"
    using inv p q by (simp add: rd_inv_def r_def s_def)
  also have "\<dots> = red_elems f cnt X (rd_have rem k q @ rd_have rem k p)"
    by (rule abel_semigroup.red_elems_append [OF f]) simp_all
  also have "\<dots> = red_elems f cnt X (rd_have rem (Suc k) p)"
    by (rule abel_semigroup.red_elems_perm [OF f]) (simp add: rd_have_step q_def)
  finally show "read_cells (round_mem f (rd_red rb nb cnt ds n rem) (round_mem f (rd_comm rb nb cnt ds n rem k) M) (rd_real rem p))
      (rb (rd_real rem p)) cnt ds = red_elems f cnt X (rd_have rem (Suc k) p)"
    by (simp only: m flip: r_def)
qed

lemma rd_copy_mem:
  assumes "0 < ds" and "r < n"
  shows "read_cells (round_mem f (rd_copy sb rb cnt ds n) M r) (rb r) cnt ds = read_cells (M r) (sb r) cnt ds"
  using assms by (simp add: round_mem_def rd_copy_def)

lemma rd_pre_step:
  assumes f: "abel_semigroup f" and ds: "0 < ds" and n: "n = 2 ^ K + rem" "rem \<le> 2 ^ K"
    and nb: "\<And>r. r < n \<Longrightarrow> fst (rb r) < nb" and X: "\<And>r. r < n \<Longrightarrow> read_cells (M r) (rb r) cnt ds = X r" and len: "\<And>r. length (X r) = cnt"
  shows "rd_inv f rb cnt ds K rem X 0 (round_mem f (rd_pre_red rb nb cnt ds rem) (round_mem f (rd_pre rb nb cnt ds rem) M))"
  unfolding rd_inv_def
proof (intro allI impI)
  fix p :: nat assume p: "p < 2 ^ K"
  let ?M = "round_mem f (rd_pre_red rb nb cnt ds rem) (round_mem f (rd_pre rb nb cnt ds rem) M)"
  show "read_cells (?M (rd_real rem p)) (rb (rd_real rem p)) cnt ds = red_elems f cnt X (rd_have rem 0 p)"
  proof (cases "p < rem")
    case True
    define r where "r = 2 * p + 1"
    have r: "rd_real rem p = r" "r < n" "2 * p < n" using True n by (auto simp: rd_real_def r_def)
    have inb: "inbox (rd_pre rb nb cnt ds rem) M (2 * p) r = X (2 * p)"
      using True X [OF r(3)] by (simp add: inbox_def sends_to_def rd_pre_def r_def)
    then have m: "?M r = reduce_cells f (write_cells (M r) (nb, 0) ds (X (2 * p))) (nb, 0) cnt (rb r) ds"
      using True by (simp add: round_mem_def rd_pre_def rd_pre_red_def recv_vals_def r_def)
    have "read_cells (?M r) (rb r) cnt ds = map2 f (X (2 * p)) (X r)"
      unfolding m recv_reduce_tmp [OF ds len nb [OF r(2)]] X [OF r(2)] ..
    also have "\<dots> = map2 f (red_elems f cnt X [2 * p]) (red_elems f cnt X [r])"
      using red_elems_single [of X, OF len] by simp
    also have "\<dots> = red_elems f cnt X [2 * p, r]" by (simp add: abel_semigroup.red_elems_append [OF f])
    finally show ?thesis using True r by (simp add: rd_have_0 rd_group_def r_def)
  next
    case False
    then have r: "rd_real rem p = p + rem" "p + rem < n" "\<not> p + rem < 2 * rem" using n p by (auto simp: rd_real_def)
    then have "?M (p + rem) = M (p + rem)" by (simp add: round_mem_def rd_pre_def rd_pre_red_def)
    with r X [OF r(2)] False red_elems_single [of X "p + rem", OF len] show ?thesis
      by (simp add: rd_have_0 rd_group_def)
  qed
qed

lemma rd_post_step:
  assumes ds: "0 < ds" and n: "n = 2 ^ K + rem" "rem \<le> 2 ^ K" and r: "r < n" and len: "length R = cnt"
    and R: "\<And>p. p < 2 ^ K \<Longrightarrow> read_cells (M (rd_real rem p)) (rb (rd_real rem p)) cnt ds = R"
  shows "read_cells (round_mem f (rd_post rb cnt ds rem) M r) (rb r) cnt ds = R"
proof (cases "r < 2 * rem \<and> even r")
  case True
  then have p: "r div 2 < 2 ^ K" "rd_real rem (r div 2) = r + 1" "r + 1 < 2 * rem" "odd (r + 1)"
    using n by (auto simp: rd_real_def elim!: evenE)
  have "inbox (rd_post rb cnt ds rem) M (r + 1) r = R"
    using R [OF p(1)] p by (simp add: inbox_def sends_to_def rd_post_def)
  with True ds len show ?thesis by (simp add: round_mem_def rd_post_def recv_vals_def)
next
  case False
  obtain p where p: "rd_newrank rem r = Some p" using False that by (cases "r < 2 * rem") (auto simp: rd_newrank_def)
  from rd_new_real [of r "2 ^ K" rem p, OF _ n(2) p] r n have "p < 2 ^ K" "rd_real rem p = r" by auto
  moreover have "round_mem f (rd_post rb cnt ds rem) M r = M r" using False by (auto simp: round_mem_def rd_post_def)
  ultimately show ?thesis using R by auto
qed

lemma rd_frame:
  assumes ds: "0 < ds" and n: "n = 2 ^ K + rem" "rem \<le> 2 ^ K" and a: "fst a < nb" "\<not> in_rng (rb r, cnt * ds) a"
  shows "run_rounds f (rd_rounds sb rb nb cnt ds n K rem) M r a = M r a"
proof (rule run_rounds_frame [OF rd_good [OF n]])
  fix E assume "E \<in> set (rd_rounds sb rb nb cnt ds n K rem)"
  then obtain seg where seg: "seg \<in> set (rd_segs sb rb nb cnt ds n K rem)" "round_seg E = seg" by (auto simp: rd_rounds_def)
  have nb: "\<not> in_rng ((nb, 0), k) a" for k using a(1) by (simp add: in_rng_def)
  have "seg_avoids (rd_comm rb nb cnt ds n rem k r) a" for k
    using ds nb by (cases "rd_newrank rem r") (auto simp: seg_avoids_def rd_comm_def op_size_ok_def)
  moreover have "seg_avoids (rd_copy sb rb cnt ds n r) a" "seg_avoids (rd_pre rb nb cnt ds rem r) a"
    "seg_avoids (rd_pre_red rb nb cnt ds rem r) a" "seg_avoids (rd_red rb nb cnt ds n rem r) a" "seg_avoids (rd_post rb cnt ds rem r) a"
    using ds nb a(2) by (auto simp: seg_avoids_def rd_copy_def rd_pre_def rd_pre_red_def rd_red_def rd_post_def op_size_ok_def)
  ultimately show "seg_avoids (round_seg E r) a" using seg by (auto simp: rd_segs_def)
qed

lemma rd_result:
  assumes f: "abel_semigroup f" and ds: "0 < ds" and n: "n = 2 ^ K + rem" "rem \<le> 2 ^ K"
    and nb: "\<And>r. r < n \<Longrightarrow> fst (rb r) < nb"
  shows "allreduce_result f sb rb cnt ds n nb M (run_rounds f (rd_rounds sb rb nb cnt ds n K rem) M)"
proof -
  define X where "X q = read_cells (M q) (sb q) cnt ds" for q
  define R where "R = red_elems f cnt X [0..<n]"
  define M1 where "M1 = round_mem f (rd_copy sb rb cnt ds n) M"
  define M2 where "M2 = round_mem f (rd_pre_red rb nb cnt ds rem) (round_mem f (rd_pre rb nb cnt ds rem) M1)"
  define rl where "rl = concat (map (\<lambda>k. [flagged (rd_comm rb nb cnt ds n rem k), flagged (rd_red rb nb cnt ds n rem)]) [0..<K])"
  define M3 where "M3 = run_rounds f rl M2"
  let ?M' = "run_rounds f (rd_rounds sb rb nb cnt ds n K rem) M"
  have M': "?M' = round_mem f (rd_post rb cnt ds rem) M3"
    by (simp add: rd_rounds_def rd_segs_def M1_def M2_def M3_def rl_def map_concat comp_def)
  have "read_cells (M1 r) (rb r) cnt ds = X r" if "r < n" for r
    unfolding M1_def X_def by (rule rd_copy_mem [OF ds that])
  then have "rd_inv f rb cnt ds K rem X 0 M2"
    unfolding M2_def by (intro rd_pre_step [OF f ds n nb]) (simp_all add: X_def)
  moreover have "rounds_triple f (rd_inv f rb cnt ds K rem X 0) rl (rd_inv f rb cnt ds K rem X K)"
    unfolding rl_def
    by (rule rounds_triple_concat [where I = "rd_inv f rb cnt ds K rem X"])
      (use rd_step [OF f ds n _ nb] in \<open>auto simp: rounds_triple_def\<close>)
  ultimately have "rd_inv f rb cnt ds K rem X K M3" unfolding M3_def by (rule rounds_tripleD [rotated])
  then have "read_cells (M3 (rd_real rem p)) (rb (rd_real rem p)) cnt ds = R" if "p < 2 ^ K" for p
    using that abel_semigroup.red_elems_perm [OF f rd_have_all [OF that n(2)]] n(1) by (simp add: rd_inv_def R_def)
  then have res: "read_cells (?M' r) (rb r) cnt ds = R" if "r < n" for r
    unfolding M' by (intro rd_post_step [OF ds n that]) (simp_all add: R_def)
  have fr: "?M' r a = M r a" if a: "n \<le> r \<or> fst a < nb \<and> \<not> in_rng (rb r, cnt * ds) a" for r a
  proof (cases "n \<le> r")
    case True
    then show ?thesis by (simp add: run_rounds_out [OF rd_good [OF n]])
  next
    case False
    with a show ?thesis by (intro rd_frame [OF ds n]) auto
  qed
  show ?thesis
    unfolding allreduce_result_def X_def [symmetric] R_def [symmetric]
    by (intro conjI allI impI; (rule res | rule fr); assumption)
qed

definition rd_allreduce_entries ::
    "(rank \<Rightarrow> loc) \<Rightarrow> (rank \<Rightarrow> loc) \<Rightarrow> nat \<Rightarrow> nat \<Rightarrow> nat \<Rightarrow> nat \<Rightarrow> rank \<Rightarrow> (sched_op \<times> bool) list" where
  "rd_allreduce_entries sb rb cnt ds n nb r =
     ops (ccl_coll_build_recursive_doubling_allreduce (sb r) (rb r) cnt ds n r (new_builder nb))"

text \<open>
  C2: the recursive doubling allreduce reduces, for every number of ranks, not only powers of two:
  in every interleaving every rank ends with the reduction over all ranks in its receive buffer, and
  nothing else has changed.
\<close>

theorem recursive_doubling_allreduce_correct:
  assumes "fifo_transport T" and "abel_semigroup f" and "0 < n" and "n < 2 ^ 31" and "0 < ds" and "0 < cnt"
    and nb: "\<forall>r < n. fst (rb r) < nb \<and> rs_placed (sb r) (rb r) (cnt * ds)"
  shows "coll_correct T f (coll_start T n (rd_allreduce_entries sb rb cnt ds n nb) M) (allreduce_result f sb rb cnt ds n nb M)"
proof -
  have "n < 2 ^ 63" using assms(4) by simp
  from comm_pof2_eq [OF assms(3) this] obtain K where K: "comm_pof2 n = 2 ^ K" "2 ^ K \<le> n" "n < 2 ^ Suc K" .
  define rem where "rem = n - 2 ^ K"
  have n: "n = 2 ^ K + rem" "rem \<le> 2 ^ K" using K by (auto simp: rem_def)
  have es: "rd_allreduce_entries sb rb cnt ds n nb r = round_entries (rd_rounds sb rb nb cnt ds n K rem) r" if "r < n" for r
  proof (cases "n = 1")
    case True
    then have "K = 0" using K(2) one_less_power [of "2::nat" K] by (cases "0 < K") auto
    with True have K0: "K = 0" "rem = 0" by (simp_all add: rem_def)
    have "round_entries (rd_rounds sb rb nb cnt ds n K rem) r = flagged (rd_copy sb rb cnt ds n) r"
      unfolding rd_segs_entries K0 by (simp add: rd_pre_def rd_pre_red_def rd_post_def)
    with True that assms(6) show ?thesis
      by (simp add: rd_allreduce_entries_def ccl_coll_build_recursive_doubling_allreduce_def alloc_buffer_def new_builder_def rd_copy_def)
  next
    case False
    show ?thesis unfolding rd_allreduce_entries_def by (rule rd_build [OF assms(6) that n(1) K(1) False])
  qed
  show ?thesis
  proof (rule fifo_transport.round_list_correct [OF assms(1) rd_good [OF n] es])
    fix r assume "r < n"
    then show "safe_entries (rd_allreduce_entries sb rb cnt ds n nb r)" unfolding es [OF \<open>r < n\<close>] using nb by (intro rd_safe [OF assms(5)]) simp
  next
    show "allreduce_result f sb rb cnt ds n nb M (run_rounds f (rd_rounds sb rb nb cnt ds n K rem) M)"
      by (rule rd_result [OF assms(2,5) n]) (use nb in simp)
  qed
qed

lemma recursive_doubling_allreduce_correct_witness:
  "coll_correct queue_transport (+) (coll_start queue_transport 6
     (rd_allreduce_entries (\<lambda>_. (1, 0)) (\<lambda>_. (1, 0)) 7 4 6 2) (\<lambda>r a. of_nat r :: 32 word))
     (allreduce_result (+) (\<lambda>_. (1, 0)) (\<lambda>_. (1, 0)) 7 4 6 2 (\<lambda>r a. of_nat r))"
  by (rule recursive_doubling_allreduce_correct [OF queues.fifo_transport_axioms word_add_abel]) (simp_all add: rs_placed_def)

end
