(* ===== verification/BinTree.thy ===== *)
theory BinTree
  imports Prelude "HOL-Library.Word"
begin

text \<open>
  The trees of the double tree algorithms: \<^verbatim>\<open>src/src/common/utils/tree.hpp\<close>. A rank knows its own node of each tree: its
  parent and its two children, \<open>-1\<close> for none. The first tree has the odd ranks as leaves, the second one
  the even ranks; rank 0 is the root of both unless another root is asked for.

  The code computes in \<^verbatim>\<open>int\<close>. Numbers are exact here, which is what the code computes for fewer than
  \<open>2 ^ 30\<close> ranks: then the heights are at most 30, and below 30 except for the root, so that every shift and
  sum stays in the range of \<^verbatim>\<open>int\<close>.
\<close>

unbundle bit_operations_syntax

section \<open>Nodes\<close>

record ccl_bin_tree =
  bt_comm_size :: nat
  bt_rank :: nat
  bt_height :: nat
  bt_p :: int
  bt_l :: int
  bt_r :: int
  bt_is_main :: bool

function height_loop :: "bool \<Rightarrow> nat \<Rightarrow> nat \<Rightarrow> nat \<Rightarrow> nat" where
  "height_loop zero comm_size rank height =
     (if (rank AND 2 ^ height = 0) = zero \<and> 2 ^ height < comm_size
      then height_loop zero comm_size rank (Suc height) else height)"
  by auto
termination by (relation "measure (\<lambda>(zero, comm_size, rank, height). comm_size - 2 ^ height)") (auto intro: diff_less_mono2)

declare height_loop.simps [simp del]

definition calc_height :: "nat \<Rightarrow> nat \<Rightarrow> bool \<Rightarrow> nat" where
  "calc_height comm_size rank main_tree = height_loop (main_tree \<or> rank = 0) comm_size rank 0"

definition calc_parent :: "nat \<Rightarrow> nat \<Rightarrow> nat \<Rightarrow> int" where
  "calc_parent comm_size rank height =
     (let possible_parent_as_left = int rank + 2 ^ height
      in if rank AND 2 ^ (height + 1) \<noteq> 0 \<or> possible_parent_as_left > int comm_size - 1
         then let p = int rank - 2 ^ height in if p < 0 then 0 else p
         else possible_parent_as_left)"

definition calc_left :: "nat \<Rightarrow> nat \<Rightarrow> int" where
  "calc_left rank height = (let l = int rank - 2 ^ (height - 1) in if l \<le> 0 then -1 else l)"

text \<open>The loop starts with a positive height, so its first equation is not reached.\<close>

primrec right_loop :: "int \<Rightarrow> nat \<Rightarrow> nat \<Rightarrow> int" where
  "right_loop limit rank 0 = -1"
| "right_loop limit rank (Suc height_tmp) =
     (if height_tmp = 0 then -1
      else let r = int rank + 2 ^ (height_tmp - 1) in if r > limit then right_loop limit rank height_tmp else r)"

definition calc_right :: "nat \<Rightarrow> nat \<Rightarrow> nat \<Rightarrow> int" where
  "calc_right comm_size rank height =
     (let r = int rank + 2 ^ (height - 1); limit = int comm_size - 1
      in if r > limit then right_loop limit rank height else r)"

definition new_bin_tree :: "nat \<Rightarrow> nat \<Rightarrow> bool \<Rightarrow> ccl_bin_tree" where
  "new_bin_tree comm_size rank is_main =
     (let height = calc_height comm_size rank is_main;
          t = \<lparr>bt_comm_size = comm_size, bt_rank = rank, bt_height = height, bt_p = -1, bt_l = -1, bt_r = -1, bt_is_main = is_main\<rparr>
      in if rank = 0 then
           t\<lparr>bt_r := (if is_main then (if height > 0 then 2 ^ (height - 1) else -1)
                      else if comm_size = 2 ^ height then (if height > 0 then 2 ^ height - 1 else -1)
                      else (if height > 0 then 2 ^ (height - 1) - 1 else -1))\<rparr>
         else if height > 0 then
           t\<lparr>bt_p := calc_parent comm_size rank height, bt_l := calc_left rank height, bt_r := calc_right comm_size rank height\<rparr>
         else t\<lparr>bt_p := calc_parent comm_size rank height\<rparr>)"

section \<open>Another root\<close>

definition swap_if_any_of :: "int \<Rightarrow> int \<Rightarrow> int \<Rightarrow> int" where
  "swap_if_any_of val1 val2 node = (if node = val1 then val2 else if node = val2 then val1 else node)"

definition reset_connections :: "nat \<Rightarrow> ccl_bin_tree \<Rightarrow> ccl_bin_tree" where
  "reset_connections new_root t =
     t\<lparr>bt_p := swap_if_any_of 0 (int new_root) (bt_p t),
       bt_l := swap_if_any_of 0 (int new_root) (bt_l t),
       bt_r := swap_if_any_of 0 (int new_root) (bt_r t)\<rparr>"

definition copy_with_new_root :: "nat \<Rightarrow> ccl_bin_tree \<Rightarrow> ccl_bin_tree" where
  "copy_with_new_root new_root t =
     (let copy = (if bt_rank t = new_root \<or> bt_rank t = 0
                  then (new_bin_tree (bt_comm_size t) (if bt_rank t = 0 then new_root else 0) (bt_is_main t))
                         \<lparr>bt_rank := new_root\<rparr>
                  else t)
      in reset_connections new_root copy)"

record ccl_double_tree =
  T1 :: ccl_bin_tree
  T2 :: ccl_bin_tree

definition new_double_tree :: "nat \<Rightarrow> nat \<Rightarrow> ccl_double_tree" where
  "new_double_tree comm_size rank = \<lparr>T1 = new_bin_tree comm_size rank True, T2 = new_bin_tree comm_size rank False\<rparr>"

definition double_tree_with_new_root :: "nat \<Rightarrow> ccl_double_tree \<Rightarrow> ccl_double_tree" where
  "double_tree_with_new_root new_root t =
     \<lparr>T1 = copy_with_new_root new_root (T1 t), T2 = copy_with_new_root new_root (T2 t)\<rparr>"

text \<open>The tree of a collective with a root, as its callers in \<^verbatim>\<open>coll.cpp\<close> choose it.\<close>

definition dtree_for_root :: "nat \<Rightarrow> nat \<Rightarrow> nat \<Rightarrow> ccl_double_tree" where
  "dtree_for_root root comm_size rank =
     (if root = 0 then new_double_tree comm_size rank
      else double_tree_with_new_root root (new_double_tree comm_size rank))"

section \<open>Spanning trees\<close>

text \<open>
  What the nodes of the ranks make up: every rank but the root has a parent, of which it is the left or the right child
  and not both; children know their parent; and going from parent to parent leads to the root, in
  \<open>d r\<close> steps from rank \<open>r\<close>.
\<close>

definition spanning_tree :: "nat \<Rightarrow> nat \<Rightarrow> (nat \<Rightarrow> int) \<Rightarrow> (nat \<Rightarrow> int) \<Rightarrow> (nat \<Rightarrow> int) \<Rightarrow> (nat \<Rightarrow> nat) \<Rightarrow> bool" where
  "spanning_tree n root P L R d \<longleftrightarrow>
     root < n \<and> P root = -1 \<and> d root = 0 \<and>
     (\<forall>r < n. r \<noteq> root \<longrightarrow> (\<exists>p < n. P r = int p \<and> (L p = int r) \<noteq> (R p = int r) \<and> d r = Suc (d p))) \<and>
     (\<forall>r < n. L r = -1 \<or> (\<exists>c < n. L r = int c \<and> P c = int r)) \<and>
     (\<forall>r < n. R r = -1 \<or> (\<exists>c < n. R r = int c \<and> P c = int r))"

section \<open>The height of a node\<close>

lemma odd_part:
  assumes "0 < (s :: nat)"
  obtains h m where "s = 2 ^ h * (2 * m + 1)"
  using assms
proof (induction s arbitrary: thesis rule: less_induct)
  case (less s)
  show ?case
  proof (cases "even s")
    case True
    then obtain k where k: "s = 2 * k" by blast
    with less.prems(2) have "k < s" "0 < k" by auto
    then obtain h m where "k = 2 ^ h * (2 * m + 1)" using less.IH by blast
    with k less.prems(1) [of "Suc h" m] show ?thesis by simp
  next
    case False
    then obtain m where "s = 2 * m + 1" by (auto elim: oddE)
    with less.prems(1) [of 0 m] show ?thesis by simp
  qed
qed

lemma and_exp_bit: "(r AND 2 ^ j = 0) \<longleftrightarrow> even (r div 2 ^ j)" for r :: nat
  by (simp add: and_exp_eq_0_iff_not_bit bit_iff_odd)

lemma height_loop_up:
  assumes "j \<le> k" and "\<And>i. j \<le> i \<Longrightarrow> i < k \<Longrightarrow> even (r div 2 ^ i) = z \<and> 2 ^ i < n"
    and "even (r div 2 ^ k) \<noteq> z \<or> n \<le> 2 ^ k"
  shows "height_loop z n r j = k"
  using assms
proof (induction "k - j" arbitrary: j)
  case 0
  then have "j = k" by simp
  with 0 show ?case by (subst height_loop.simps) (auto simp: and_exp_bit)
next
  case (Suc x)
  then have "j < k" by simp
  with Suc.prems(2) [of j] have "even (r div 2 ^ j) = z" "2 ^ j < n" by auto
  moreover have "height_loop z n r (Suc j) = k" using Suc \<open>j < k\<close> by (intro Suc.hyps(1)) auto
  ultimately show ?case by (subst height_loop.simps) (auto simp: and_exp_bit)
qed

section \<open>Closed forms\<close>

text \<open>
  Both trees are one construction: with \<open>off = 0\<close> for the first and \<open>off = 1\<close> for the second, rank \<open>r\<close> sits at position
  \<open>r + off\<close> of a tree over the positions below \<open>n + off\<close>, and the height of a node is the number of trailing zeros
  of its position.
\<close>

lemma int_exp: "(2 :: int) ^ h = int (2 ^ h)"
  by simp

lemma int_exp_less:
  "int r - 2 ^ h < 0 \<longleftrightarrow> r < 2 ^ h"
  "int r - 2 ^ h \<le> 0 \<longleftrightarrow> r \<le> 2 ^ h"
  "int r + 2 ^ h > int n - 1 \<longleftrightarrow> n \<le> r + 2 ^ h"
  unfolding int_exp by linarith+

lemma div_off: "0 < q \<Longrightarrow> off \<le> 1 \<Longrightarrow> (2 ^ i * q - off) div 2 ^ i = q - off" for q off :: nat
proof (cases "off = 0")
  case False
  assume q: "0 < q" "off \<le> 1"
  have "2 ^ i * q - 1 = (2 ^ i - 1) + 2 ^ i * (q - 1)" using q(1) by (cases q) auto
  then have "(2 ^ i * q - 1) div 2 ^ i = (2 ^ i - 1) div 2 ^ i + (q - 1)"
    using div_mult_self2 [of "2 ^ i" "2 ^ i - 1" "q - 1"] by simp
  moreover have "off = 1" using False q(2) by simp
  ultimately show ?thesis by simp
qed simp

lemma position_div:
  fixes r :: nat
  assumes "r + off = 2 ^ h * (2 * m + 1)" and "off \<le> 1" and "i \<le> h"
  shows "r div 2 ^ i = 2 ^ (h - i) * (2 * m + 1) - off"
proof -
  have "2 ^ h = 2 ^ i * (2 :: nat) ^ (h - i)" using assms(3) by (simp flip: power_add)
  then have "r = 2 ^ i * (2 ^ (h - i) * (2 * m + 1)) - off" using assms(1) by (simp add: algebra_simps)
  then show ?thesis using div_off [of "2 ^ (h - i) * (2 * m + 1)" off i] assms(2) by simp
qed

lemma position_bit:
  fixes r :: nat
  assumes "r + off = 2 ^ h * (2 * m + 1)" and "off \<le> 1"
  shows "r div 2 ^ Suc h = m"
proof -
  have "r div 2 ^ h = 2 * m + 1 - off" using position_div [OF assms, of h] by simp
  then have "r div 2 ^ h div 2 = m" using assms(2) by (cases off) auto
  then show ?thesis unfolding power_Suc2 div_mult2_eq .
qed

lemma height_eq:
  assumes "r + off = 2 ^ h * (2 * m + 1)" and "off \<le> 1" and "0 < r" and "r < n"
  shows "calc_height n r (off = 0) = h"
  unfolding calc_height_def
proof (rule height_loop_up)
  have le: "2 ^ h \<le> r + off" using assms(1) by simp
  fix i assume i: "i < h"
  have "(2 :: nat) ^ i < 2 ^ h" using i by simp
  then have "2 ^ i < n" using le assms(2,4) by linarith
  moreover have "even (r div 2 ^ i) = (off = 0)"
    using position_div [OF assms(1,2), of i] i assms(2) by (cases off) auto
  ultimately show "even (r div 2 ^ i) = (off = 0 \<or> r = 0) \<and> 2 ^ i < n" using assms(3) by simp
next
  show "even (r div 2 ^ h) \<noteq> (off = 0 \<or> r = 0) \<or> n \<le> 2 ^ h"
    using position_div [OF assms(1,2), of h] assms(2,3) by (cases off) auto
qed simp

lemma parent_eq:
  assumes "r + off = 2 ^ h * (2 * m + 1)" and "off \<le> 1" and "0 < r" and "r < n"
  shows "bt_p (new_bin_tree n r (off = 0)) =
    (if odd m \<or> n + off \<le> r + off + 2 ^ h then int (r + off - 2 ^ h - off) else int (r + 2 ^ h))"
proof -
  have "bt_p (new_bin_tree n r (off = 0)) = calc_parent n r h"
    using assms(3) by (simp add: new_bin_tree_def Let_def height_eq [OF assms])
  moreover have "(r AND 2 ^ Suc h \<noteq> 0) = odd m" using position_bit [OF assms(1,2)] and_exp_bit [of r "Suc h"] by simp
  moreover have "int (r + off - 2 ^ h - off) = (if r < 2 ^ h then 0 else int r - 2 ^ h)"
    using assms(2) by (auto simp: of_nat_diff)
  ultimately show ?thesis by (auto simp: calc_parent_def Let_def int_exp_less)
qed

lemma left_eq:
  assumes "r + off = 2 ^ h * (2 * m + 1)" and "off \<le> 1" and "0 < r" and "r < n"
  shows "bt_l (new_bin_tree n r (off = 0)) = (if h = 0 \<or> r \<le> 2 ^ (h - 1) then -1 else int (r - 2 ^ (h - 1)))"
  using assms(3)
  by (auto simp: new_bin_tree_def Let_def height_eq [OF assms] calc_left_def of_nat_diff int_exp_less)

lemma left_le:
  assumes "r + off = 2 ^ h * (2 * m + 1)" and "off \<le> 1" and "0 < r" and "r < n"
  shows "bt_l (new_bin_tree n r (off = 0)) \<le> int r"
  using left_eq [OF assms] by simp

text \<open>The right child is at the greatest distance that stays below the limit.\<close>

definition farthest :: "nat \<Rightarrow> nat \<Rightarrow> nat \<Rightarrow> int \<Rightarrow> bool" where
  "farthest n r h c \<longleftrightarrow>
     (\<exists>t < h. c = int (r + 2 ^ t) \<and> r + 2 ^ t < n \<and> (\<forall>u. t < u \<and> u < h \<longrightarrow> n \<le> r + 2 ^ u)) \<or>
     c = -1 \<and> (\<forall>u < h. n \<le> r + 2 ^ u)"

lemma farthest_unique:
  assumes "farthest n r h c" and "t < h" and "r + 2 ^ t < n" and "\<forall>u. t < u \<and> u < h \<longrightarrow> n \<le> r + 2 ^ u"
  shows "c = int (r + 2 ^ t)"
proof -
  from assms(1-3) obtain t' where t': "t' < h" "c = int (r + 2 ^ t')" "r + 2 ^ t' < n" "\<forall>u. t' < u \<and> u < h \<longrightarrow> n \<le> r + 2 ^ u"
    unfolding farthest_def by fastforce
  have "\<not> t < t'" "\<not> t' < t" using t' assms(2-4) by (metis not_le)+
  then show ?thesis using t'(2) by simp
qed

lemma farthest_gt: "farthest n r h c \<Longrightarrow> c = -1 \<or> int r < c"
  by (auto simp: farthest_def)

lemma farthest_step: "n \<le> r + 2 ^ h \<Longrightarrow> farthest n r h c \<Longrightarrow> farthest n r (Suc h) c"
  unfolding farthest_def by (metis less_SucE less_SucI)

lemma farthest_here: "r + 2 ^ h < n \<Longrightarrow> farthest n r (Suc h) (int (r + 2 ^ h))"
  unfolding farthest_def by (intro disjI1 exI [of _ h]) auto

lemma right_loop_farthest: "farthest n r (h - 1) (right_loop (int n - 1) r h)"
proof (induction h)
  case (Suc h)
  show ?case
  proof (cases h)
    case (Suc k)
    show ?thesis
    proof (cases "n \<le> r + 2 ^ k")
      case True
      then have "right_loop (int n - 1) r (Suc h) = right_loop (int n - 1) r h"
        using Suc int_exp_less(3) [of n r k] by simp
      then show ?thesis using Suc.IH farthest_step [OF True] \<open>h = Suc k\<close> by simp
    next
      case False
      then have "right_loop (int n - 1) r (Suc h) = int (r + 2 ^ k)"
        using Suc int_exp_less(3) [of n r k] by simp
      then show ?thesis using farthest_here [of r k n] False Suc by simp
    qed
  qed (simp add: farthest_def)
qed (simp add: farthest_def)

lemma right_eq:
  assumes "r + off = 2 ^ h * (2 * m + 1)" and "off \<le> 1" and "0 < r" and "r < n"
  shows "farthest n r h (bt_r (new_bin_tree n r (off = 0)))"
proof (cases h)
  case 0
  then show ?thesis using assms(3) by (simp add: new_bin_tree_def Let_def height_eq [OF assms] farthest_def)
next
  case (Suc k)
  have eq: "bt_r (new_bin_tree n r (off = 0)) = calc_right n r h"
    using assms(3) Suc by (simp add: new_bin_tree_def Let_def height_eq [OF assms])
  show ?thesis
  proof (cases "n \<le> r + 2 ^ k")
    case True
    then have "calc_right n r h = right_loop (int n - 1) r h"
      using Suc int_exp_less(3) [of n r k] by (simp add: calc_right_def Let_def)
    then show ?thesis using eq right_loop_farthest [of n r h] farthest_step [OF True] Suc by simp
  next
    case False
    then have "calc_right n r h = int (r + 2 ^ k)"
      using Suc int_exp_less(3) [of n r k] by (simp add: calc_right_def Let_def)
    then show ?thesis using eq farthest_here [of r k n] False Suc by simp
  qed
qed

lemma root_height:
  assumes "2 ^ k < n" and "n \<le> 2 ^ Suc k"
  shows "calc_height n 0 main = Suc k"
  unfolding calc_height_def
proof (rule height_loop_up)
  fix i assume "i < Suc k"
  then have "(2 :: nat) ^ i \<le> 2 ^ k" by (simp add: less_Suc_eq_le)
  then have "2 ^ i < n" using assms(1) by (rule le_less_trans)
  then show "even ((0 :: nat) div 2 ^ i) = (main \<or> 0 = (0 :: nat)) \<and> 2 ^ i < n" by simp
qed (use assms(2) in auto)

lemma root_eq:
  assumes "2 ^ k < n + off" and "n + off \<le> 2 ^ Suc k" and "off \<le> 1" and "2 \<le> n"
  shows "bt_p (new_bin_tree n 0 (off = 0)) = -1" and "bt_l (new_bin_tree n 0 (off = 0)) = -1"
    and "bt_r (new_bin_tree n 0 (off = 0)) = int (2 ^ k - off)"
proof -
  show "bt_p (new_bin_tree n 0 (off = 0)) = -1" "bt_l (new_bin_tree n 0 (off = 0)) = -1"
    by (simp_all add: new_bin_tree_def Let_def)
  show "bt_r (new_bin_tree n 0 (off = 0)) = int (2 ^ k - off)"
  proof (cases "off = 0")
    case True
    then show ?thesis using root_height [of k n True] assms by (simp add: new_bin_tree_def Let_def)
  next
    case False
    then have o: "off = 1" using assms(3) by simp
    show ?thesis
    proof (cases "n = 2 ^ k")
      case True
      with assms(4) obtain j where j: "k = Suc j" by (cases k) auto
      have "calc_height n 0 False = k" using root_height [of j n False] True j by simp
      then show ?thesis using True o j by (simp add: new_bin_tree_def Let_def of_nat_diff)
    next
      case False
      then have "calc_height n 0 False = Suc k" using root_height [of k n False] assms(1,2) o by simp
      moreover have "n \<noteq> 2 ^ Suc k" using assms(2) o by simp
      ultimately show ?thesis using o by (simp add: new_bin_tree_def Let_def of_nat_diff)
    qed
  qed
qed

section \<open>The trees span the ranks\<close>

lemma left_child_parent:
  fixes off :: nat
  assumes "off \<le> 1" and "r < n"
  shows "bt_l (new_bin_tree n r (off = 0)) = -1 \<or>
    (\<exists>c < n. bt_l (new_bin_tree n r (off = 0)) = int c \<and> bt_p (new_bin_tree n c (off = 0)) = int r)"
proof (cases "r = 0")
  case True
  then show ?thesis by (simp add: new_bin_tree_def Let_def)
next
  case False
  then have r: "0 < r" by simp
  then obtain h m where s: "r + off = 2 ^ h * (2 * m + 1)" using odd_part [of "r + off"] by auto
  show ?thesis
  proof (cases "h = 0 \<or> r \<le> 2 ^ (h - 1)")
    case True
    then show ?thesis using left_eq [OF s assms(1) r assms(2)] by simp
  next
    case False
    then obtain k where k: "h = Suc k" "2 ^ k < r" by (cases h) auto
    have "r - 2 ^ k + off = 2 ^ k * (2 * (2 * m) + 1)" using s k by (simp add: algebra_simps)
    from parent_eq [OF this assms(1), of n] have "bt_p (new_bin_tree n (r - 2 ^ k) (off = 0)) = int r"
      using k(2) assms(2) by simp
    then show ?thesis using left_eq [OF s assms(1) r assms(2)] k assms(2) by (auto intro!: exI [of _ "r - 2 ^ k"])
  qed
qed

lemma exponent_of_ranks:
  assumes "2 \<le> (N :: nat)"
  obtains k where "2 ^ k < N" "N \<le> 2 ^ Suc k"
proof -
  define k where "k = (LEAST k. N \<le> 2 ^ Suc k)"
  have "N \<le> 2 ^ Suc N" using less_exp [of N] by (simp add: less_imp_le trans_le_add1 mult_2)
  then have le: "N \<le> 2 ^ Suc k" unfolding k_def by (rule LeastI)
  have "2 ^ k < N"
  proof (cases k)
    case (Suc j)
    then have "\<not> N \<le> 2 ^ Suc j" using not_less_Least [of j "\<lambda>k. N \<le> 2 ^ Suc k"] by (simp add: k_def)
    then show ?thesis using Suc by simp
  qed (use assms in simp)
  with le that show thesis by blast
qed

lemma right_child_parent:
  fixes off :: nat
  assumes "off \<le> 1" and "r < n"
  shows "bt_r (new_bin_tree n r (off = 0)) = -1 \<or>
    (\<exists>c < n. bt_r (new_bin_tree n r (off = 0)) = int c \<and> bt_p (new_bin_tree n c (off = 0)) = int r)"
proof (cases "r = 0")
  case True
  show ?thesis
  proof (cases "n = 1")
    case True
    then have "calc_height n 0 (off = 0) = 0" by (simp add: calc_height_def height_loop.simps)
    then show ?thesis using \<open>r = 0\<close> True by (simp add: new_bin_tree_def Let_def)
  next
    case False
    then have n: "2 \<le> n" using assms(2) by simp
    then have "2 \<le> n + off" by simp
    then obtain k where k: "2 ^ k < n + off" "n + off \<le> 2 ^ Suc k" by (rule exponent_of_ranks)
    let ?c = "2 ^ k - off"
    have c: "0 < ?c" "?c < n" "?c + off = 2 ^ k * (2 * 0 + 1)"
      using k n assms(1) by (cases k; cases off; simp)+
    from parent_eq [OF c(3) assms(1) c(1,2)] have "bt_p (new_bin_tree n ?c (off = 0)) = 0"
      using k(2) c(3) by auto
    then show ?thesis using root_eq(3) [OF k assms(1) n] c(2) True by auto
  qed
next
  case False
  then have r: "0 < r" by simp
  then obtain h m where s: "r + off = 2 ^ h * (2 * m + 1)" using odd_part [of "r + off"] by auto
  from right_eq [OF s assms(1) r assms(2)] consider
    "bt_r (new_bin_tree n r (off = 0)) = -1"
    | t where "t < h" "bt_r (new_bin_tree n r (off = 0)) = int (r + 2 ^ t)" "r + 2 ^ t < n"
        "\<forall>u. t < u \<and> u < h \<longrightarrow> n \<le> r + 2 ^ u"
    unfolding farthest_def by blast
  then show ?thesis
  proof cases
    case (2 t)
    define j where "j = h - Suc t"
    have h: "h = t + Suc j" using 2(1) by (simp add: j_def)
    have c: "r + 2 ^ t + off = 2 ^ t * (2 * (2 ^ j * (2 * m + 1)) + 1)"
      using s unfolding h by (simp add: power_add algebra_simps)
    have "odd (2 ^ j * (2 * m + 1)) \<or> n + off \<le> r + 2 ^ t + off + 2 ^ t"
    proof (cases j)
      case (Suc i)
      then show ?thesis using 2(4) [rule_format, of "Suc t"] h by simp
    qed simp
    with parent_eq [OF c assms(1) _ 2(3)] r have "bt_p (new_bin_tree n (r + 2 ^ t) (off = 0)) = int r" by auto
    then show ?thesis using 2 by blast
  qed simp
qed

text \<open>The parent of a node, and that its position has one more trailing zero.\<close>

lemma node_parent:
  fixes off :: nat
  assumes "off \<le> 1" and "0 < r" and "r < n" and "2 ^ j dvd r + off"
  shows "\<exists>p < n. bt_p (new_bin_tree n r (off = 0)) = int p \<and>
    (bt_l (new_bin_tree n p (off = 0)) = int r) \<noteq> (bt_r (new_bin_tree n p (off = 0)) = int r) \<and>
    (p = 0 \<or> 2 ^ Suc j dvd p + off)"
proof -
  let ?L = "\<lambda>r. bt_l (new_bin_tree n r (off = 0))" and ?R = "\<lambda>r. bt_r (new_bin_tree n r (off = 0))"
  from assms(2) obtain h m where s: "r + off = 2 ^ h * (2 * m + 1)" using odd_part [of "r + off"] by auto
  have "\<not> 2 ^ Suc h dvd r + off"
  proof
    assume "2 ^ Suc h dvd r + off"
    then have "2 dvd 2 * m + 1" unfolding s power_Suc2 by (simp only: nat_mult_dvd_cancel_disj) simp
    then show False by simp
  qed
  then have "j \<le> h" using assms(4) by (meson dvd_trans le_imp_power_dvd not_less_eq_eq)
  then have jh: "2 ^ Suc h dvd x \<Longrightarrow> 2 ^ Suc j dvd x" for x :: nat by (meson Suc_le_mono dvd_trans le_imp_power_dvd)
  note P = parent_eq [OF s assms(1-3)]
  show ?thesis
  proof (cases "odd m \<or> n + off \<le> r + off + 2 ^ h")
    case False
    then obtain a where a: "m = 2 * a" by blast
    let ?p = "r + 2 ^ h"
    have p: "?p + off = 2 ^ Suc h * (2 * a + 1)" "?p < n" "0 < ?p" using s False a assms(2) by simp_all
    have "?L ?p = int r" using left_eq [OF p(1) assms(1) p(3,2)] assms(2) by simp
    moreover have "?R ?p \<noteq> int r" using farthest_gt [OF right_eq [OF p(1) assms(1) p(3,2)]] by auto
    moreover have "2 ^ Suc h dvd ?p + off" unfolding p(1) by simp
    ultimately show ?thesis using P False p(2) jh by auto
  next
    case True
    show ?thesis
    proof (cases "m = 0")
      case True
      then have k: "2 ^ h < n + off" "n + off \<le> 2 ^ Suc h" "2 \<le> n"
        using \<open>odd m \<or> n + off \<le> r + off + 2 ^ h\<close> s assms(2,3) by simp_all
      have "2 ^ h - off = r" using s True by simp
      then have "?R 0 = int r" "?L 0 \<noteq> int r" using root_eq(2,3) [OF k(1,2) assms(1) k(3)] by simp_all
      then show ?thesis using P \<open>odd m \<or> n + off \<le> r + off + 2 ^ h\<close> s True assms(2,3) by auto
    next
      case False
      then obtain g a where g: "m = 2 ^ g * (2 * a + 1)" using odd_part [of m] by auto
      define p where "p = r - 2 ^ h"
      define y where "y = 2 * 2 ^ h * m"
      have "y + 2 ^ h = r + off" using s by (simp add: y_def)
      moreover have "2 * 2 ^ h \<le> y" using False mult_le_mono2 [of 1 m "2 * 2 ^ h"] by (simp add: y_def)
      moreover have "(1 :: nat) \<le> 2 ^ h" by simp
      ultimately have le: "2 ^ h < r" using assms(1) by linarith
      then have p: "p + off = 2 ^ (Suc h + g) * (2 * a + 1)" "0 < p" "p < n" "p + 2 ^ h = r"
        using s g assms(3) by (simp_all add: p_def power_add algebra_simps)
      have "n \<le> p + 2 ^ u" if "h < u" "u < Suc h + g" for u
      proof -
        have "even m" using that g by simp
        then have "n \<le> r + 2 ^ h" using True by simp
        also have "\<dots> = p + 2 ^ Suc h" using p(4) by simp
        also have "\<dots> \<le> p + 2 ^ u" using that(1) power_increasing [of "Suc h" u "2 :: nat"] by simp
        finally show ?thesis .
      qed
      then have "?R p = int (p + 2 ^ h)"
        using farthest_unique [OF right_eq [OF p(1) assms(1) p(2,3)], of h] p(4) assms(3) by simp
      moreover have "?L p \<noteq> int r" using left_le [OF p(1) assms(1) p(2,3)] p(4) by auto
      moreover have "2 ^ Suc h dvd p + off" unfolding p(1) by (simp add: power_add)
      moreover have "bt_p (new_bin_tree n r (off = 0)) = int p" using P True le by (simp add: p_def)
      ultimately show ?thesis using p(3,4) jh by auto
    qed
  qed
qed

lemma depth_exists:
  assumes "\<And>r. r < n \<Longrightarrow> \<exists>k. (par ^^ k) r = root" and "root < n"
  shows "\<exists>d :: nat \<Rightarrow> nat. d root = 0 \<and> (\<forall>r < n. r \<noteq> root \<longrightarrow> d r = Suc (d (par r)))"
proof (intro exI [of _ "\<lambda>r. LEAST k. (par ^^ k) r = root"] conjI allI impI)
  show "(LEAST k. (par ^^ k) root = root) = 0" by (rule Least_eq_0) simp
  fix r assume r: "r < n" "r \<noteq> root"
  then obtain k where "(par ^^ k) r = root" using assms(1) by blast
  then have "(LEAST k. (par ^^ k) r = root) = Suc (LEAST k. (par ^^ Suc k) r = root)"
    using r(2) by (intro Least_Suc) auto
  then show "(LEAST k. (par ^^ k) r = root) = Suc (LEAST k. (par ^^ k) (par r) = root)" by (simp add: funpow_swap1)
qed

lemma reaches_root:
  fixes off :: nat
  assumes "off \<le> 1" and "r < n" and "r = 0 \<or> 2 ^ j dvd r + off"
  shows "\<exists>k. ((\<lambda>r. nat (bt_p (new_bin_tree n r (off = 0)))) ^^ k) r = 0"
  using assms(2,3)
proof (induction "n + 1 - j" arbitrary: j r rule: less_induct)
  case less
  show ?case
  proof (cases "r = 0")
    case True
    then show ?thesis by (intro exI [of _ 0]) simp
  next
    case False
    then have d: "0 < r" "2 ^ j dvd r + off" using less.prems by auto
    from node_parent [OF assms(1) d(1) less.prems(1) d(2)] obtain p where
      p: "p < n" "bt_p (new_bin_tree n r (off = 0)) = int p" "p = 0 \<or> 2 ^ Suc j dvd p + off" by blast
    have "2 ^ j \<le> r + off" using d by (intro dvd_imp_le) auto
    then have "j < n + 1" using less_exp [of j] less.prems(1) assms(1) by linarith
    then have "n + 1 - Suc j < n + 1 - j" by simp
    from less.hyps [OF this p(1,3)] obtain k where
      "((\<lambda>r. nat (bt_p (new_bin_tree n r (off = 0)))) ^^ k) p = 0" by blast
    then show ?thesis using p(2) by (intro exI [of _ "Suc k"]) (simp add: funpow_Suc_right del: funpow.simps)
  qed
qed

lemma default_tree_spans:
  fixes off :: nat
  assumes "off \<le> 1" and "0 < n"
  shows "\<exists>d. spanning_tree n 0 (\<lambda>r. bt_p (new_bin_tree n r (off = 0))) (\<lambda>r. bt_l (new_bin_tree n r (off = 0)))
    (\<lambda>r. bt_r (new_bin_tree n r (off = 0))) d"
proof -
  let ?par = "\<lambda>r. nat (bt_p (new_bin_tree n r (off = 0)))"
  have "\<exists>k. (?par ^^ k) r = 0" if "r < n" for r using reaches_root [OF assms(1) that, of 0] by simp
  then obtain d where d: "d 0 = 0" "\<forall>r < n. r \<noteq> 0 \<longrightarrow> d r = Suc (d (?par r))"
    using depth_exists [of n ?par 0] assms(2) by blast
  have "\<exists>p < n. bt_p (new_bin_tree n r (off = 0)) = int p \<and>
      (bt_l (new_bin_tree n p (off = 0)) = int r) \<noteq> (bt_r (new_bin_tree n p (off = 0)) = int r) \<and> d r = Suc (d p)"
    if r: "r < n" "r \<noteq> 0" for r
    using node_parent [OF assms(1) _ r(1), of 0] r(2) d(2) [rule_format, OF r] by fastforce
  moreover have "bt_p (new_bin_tree n 0 (off = 0)) = -1" by (simp add: new_bin_tree_def Let_def)
  ultimately show ?thesis using d(1) assms(2) left_child_parent [OF assms(1)] right_child_parent [OF assms(1)]
    unfolding spanning_tree_def by blast
qed

lemma swap_tree_spans:
  assumes "spanning_tree n 0 P L R d" and "root < n"
    and sw: "\<And>x. \<sigma> x = swap_if_any_of 0 (int root) x"
    and P': "\<And>r. r < n \<Longrightarrow> P' r = \<sigma> (P (nat (\<sigma> (int r))))"
    and L': "\<And>r. r < n \<Longrightarrow> L' r = \<sigma> (L (nat (\<sigma> (int r))))"
    and R': "\<And>r. r < n \<Longrightarrow> R' r = \<sigma> (R (nat (\<sigma> (int r))))"
  shows "spanning_tree n root P' L' R' (\<lambda>r. d (nat (\<sigma> (int r))))"
proof -
  define s where "s r = nat (\<sigma> (int r))" for r
  have s: "s r = (if r = 0 then root else if r = root then 0 else r)" for r
    by (auto simp: s_def sw swap_if_any_of_def)
  have int_s: "\<sigma> (int r) = int (s r)" and m1: "\<sigma> (- 1) = - 1" and ss: "s (s r) = r" for r
    by (auto simp: s sw swap_if_any_of_def)
  have lt: "s r < n" if "r < n" for r using that assms(2) assms(1) by (auto simp: s spanning_tree_def)
  have eq: "\<sigma> x = int r \<longleftrightarrow> x = int (s r)" for x r by (auto simp: s sw swap_if_any_of_def split: if_splits)
  have sp: "\<exists>p < n. P' r = int p \<and> (L' p = int r) \<noteq> (R' p = int r) \<and> d (s r) = Suc (d (s p))" if r: "r < n" "r \<noteq> root" for r
  proof -
    have "s r \<noteq> 0" using r(2) by (auto simp: s)
    then obtain p where p: "p < n" "P (s r) = int p" "(L p = int (s r)) \<noteq> (R p = int (s r))" "d (s r) = Suc (d p)"
      using assms(1) lt [OF r(1)] unfolding spanning_tree_def by blast
    then show ?thesis using r(1) lt [OF p(1)]
      by (intro exI [of _ "s p"]) (simp add: P' L' R' int_s ss eq flip: s_def)
  qed
  have ch: "C' r = - 1 \<or> (\<exists>c < n. C' r = int c \<and> P' c = int r)"
    if a: "r < n" "C' r = \<sigma> (C (s r))" "C (s r) = - 1 \<or> (\<exists>c < n. C (s r) = int c \<and> P c = int (s r))" for C C' :: "nat \<Rightarrow> int" and r
  proof (cases "C (s r) = - 1")
    case False
    then obtain c where c: "c < n" "C (s r) = int c" "P c = int (s r)" using a(3) by blast
    then show ?thesis using a(2) lt [OF c(1)]
      by (intro disjI2 exI [of _ "s c"]) (simp add: P' int_s ss eq flip: s_def)
  qed (simp add: a(2) m1)
  have "P' root = - 1" "d (s root) = 0"
    using assms(1,2) by (auto simp: P' m1 s spanning_tree_def simp flip: s_def)
  moreover have "\<forall>r < n. L' r = - 1 \<or> (\<exists>c < n. L' r = int c \<and> P' c = int r)"
    using ch [of _ L' L] L' lt assms(1) by (simp add: spanning_tree_def flip: s_def)
  moreover have "\<forall>r < n. R' r = - 1 \<or> (\<exists>c < n. R' r = int c \<and> P' c = int r)"
    using ch [of _ R' R] R' lt assms(1) by (simp add: spanning_tree_def flip: s_def)
  ultimately show ?thesis using assms(2) sp unfolding spanning_tree_def s_def [symmetric] by blast
qed

lemma new_tree_fields [simp]:
  "bt_rank (new_bin_tree n r main) = r" "bt_comm_size (new_bin_tree n r main) = n" "bt_is_main (new_bin_tree n r main) = main"
  by (simp_all add: new_bin_tree_def Let_def)

lemma copy_connections:
  fixes main :: bool
  assumes "x = new_bin_tree n (nat (swap_if_any_of 0 (int root) (int r))) main"
  shows "bt_p (copy_with_new_root root (new_bin_tree n r main)) = swap_if_any_of 0 (int root) (bt_p x)"
    and "bt_l (copy_with_new_root root (new_bin_tree n r main)) = swap_if_any_of 0 (int root) (bt_l x)"
    and "bt_r (copy_with_new_root root (new_bin_tree n r main)) = swap_if_any_of 0 (int root) (bt_r x)"
  using assms by (auto simp: copy_with_new_root_def reset_connections_def Let_def swap_if_any_of_def)

lemma rooted_tree_spans:
  assumes "root < n"
  shows "\<exists>d. spanning_tree n root (\<lambda>r. bt_p (copy_with_new_root root (new_bin_tree n r main)))
    (\<lambda>r. bt_l (copy_with_new_root root (new_bin_tree n r main)))
    (\<lambda>r. bt_r (copy_with_new_root root (new_bin_tree n r main))) d"
proof -
  obtain d where
    "spanning_tree n 0 (\<lambda>r. bt_p (new_bin_tree n r main)) (\<lambda>r. bt_l (new_bin_tree n r main)) (\<lambda>r. bt_r (new_bin_tree n r main)) d"
    using default_tree_spans [of 0 n] default_tree_spans [of 1 n] assms by (cases main) auto
  note span = swap_tree_spans [OF this assms refl]
  show ?thesis by (rule exI, rule span) (rule copy_connections [OF refl])+
qed

lemma dtree_for_root_nodes:
  "T1 (dtree_for_root root n r) = copy_with_new_root root (new_bin_tree n r True)"
  "T2 (dtree_for_root root n r) = copy_with_new_root root (new_bin_tree n r False)"
proof -
  have "reset_connections 0 t = t" for t by (simp add: reset_connections_def swap_if_any_of_def)
  moreover have "new_bin_tree n 0 main\<lparr>bt_rank := 0\<rparr> = new_bin_tree n 0 main" for main by (simp add: new_bin_tree_def Let_def)
  ultimately have "copy_with_new_root 0 (new_bin_tree n r main) = new_bin_tree n r main" for main
    by (simp add: copy_with_new_root_def Let_def)
  then show "T1 (dtree_for_root root n r) = copy_with_new_root root (new_bin_tree n r True)"
    "T2 (dtree_for_root root n r) = copy_with_new_root root (new_bin_tree n r False)"
    by (simp_all add: dtree_for_root_def new_double_tree_def double_tree_with_new_root_def)
qed

lemma height_bound:
  assumes "r < n" and "n < 2 ^ 30"
  shows "bt_height (new_bin_tree n r main) \<le> 30" and "r \<noteq> 0 \<Longrightarrow> bt_height (new_bin_tree n r main) < 30"
proof -
  have eq: "bt_height (new_bin_tree n r main) = calc_height n r main" by (simp add: new_bin_tree_def Let_def)
  have pos: "calc_height n r main < 30" if "r \<noteq> 0"
  proof -
    define off :: nat where "off = (if main then 0 else 1)"
    have o: "off \<le> 1" "(off = 0) = main" by (simp_all add: off_def)
    obtain h m where s: "r + off = 2 ^ h * (2 * m + 1)" using odd_part [of "r + off"] \<open>r \<noteq> 0\<close> by auto
    have "2 ^ h \<le> r + off" unfolding s by simp
    then have "(2 :: nat) ^ h < 2 ^ 30" using assms o(1) by linarith
    then have "h < 30" by (rule power_less_imp_less_exp [rotated]) simp
    then show ?thesis using height_eq [OF s o(1) _ assms(1)] \<open>r \<noteq> 0\<close> o(2) by simp
  qed
  have root: "calc_height n 0 main \<le> 30"
  proof (cases "n = 1")
    case True
    then show ?thesis by (simp add: calc_height_def height_loop.simps)
  next
    case False
    then have "2 \<le> n" using assms(1) by simp
    then obtain k where k: "2 ^ k < n" "n \<le> 2 ^ Suc k" by (rule exponent_of_ranks)
    from k(1) assms(2) have "(2 :: nat) ^ k < 2 ^ 30" by (rule less_trans)
    then have "k < 30" by (rule power_less_imp_less_exp [rotated]) simp
    then show ?thesis using root_height [OF k] by simp
  qed
  show "bt_height (new_bin_tree n r main) \<le> 30" using pos root unfolding eq by (cases "r = 0") auto
  show "r \<noteq> 0 \<Longrightarrow> bt_height (new_bin_tree n r main) < 30" using pos unfolding eq by simp
qed

text \<open>
  C15: For every number of ranks below \<open>2 ^ 30\<close> the heights keep the shifts of the code in range, and for every root the nodes that the ranks compute on their own
  make up two trees: every rank but the root has one parent that has it as one child, children and parents
  agree, and every rank reaches the root. With the default root the odd ranks are leaves of the first tree
  and the even ranks but the root leaves of the second.
\<close>

theorem double_tree_spans:
  assumes "root < n" and "n < 2 ^ 30"
  shows "(\<forall>r main. r < n \<longrightarrow> bt_height (new_bin_tree n r main) \<le> 30 \<and> (r \<noteq> 0 \<longrightarrow> bt_height (new_bin_tree n r main) < 30)) \<and>
    (\<exists>d. spanning_tree n root (\<lambda>r. bt_p (T1 (dtree_for_root root n r))) (\<lambda>r. bt_l (T1 (dtree_for_root root n r)))
      (\<lambda>r. bt_r (T1 (dtree_for_root root n r))) d) \<and>
    (\<exists>d. spanning_tree n root (\<lambda>r. bt_p (T2 (dtree_for_root root n r))) (\<lambda>r. bt_l (T2 (dtree_for_root root n r)))
      (\<lambda>r. bt_r (T2 (dtree_for_root root n r))) d) \<and>
    (\<forall>r. 0 < r \<and> r < n \<longrightarrow>
      (odd r \<longrightarrow> bt_l (T1 (dtree_for_root 0 n r)) = -1 \<and> bt_r (T1 (dtree_for_root 0 n r)) = -1) \<and>
      (even r \<longrightarrow> bt_l (T2 (dtree_for_root 0 n r)) = -1 \<and> bt_r (T2 (dtree_for_root 0 n r)) = -1))"
proof -
  have leaf: "bt_l (new_bin_tree n r (off = 0)) = -1 \<and> bt_r (new_bin_tree n r (off = 0)) = -1"
    if r: "0 < r" "r < n" and o: "off \<le> 1" "odd (r + off)" for r off :: nat
  proof -
    from o(2) obtain m where "r + off = 2 * m + 1" by (rule oddE)
    then have m: "r + off = 2 ^ 0 * (2 * m + 1)" by simp
    show ?thesis using left_eq [OF m o(1) r] right_eq [OF m o(1) r] by (simp add: farthest_def)
  qed
  have "T1 (dtree_for_root 0 n r) = new_bin_tree n r True" "T2 (dtree_for_root 0 n r) = new_bin_tree n r False" for r
    by (simp_all add: dtree_for_root_def new_double_tree_def)
  then show ?thesis 
    using rooted_tree_spans [OF assms(1)] leaf [of _ 0] leaf [of _ 1] height_bound [OF _ assms(2)]
    unfolding dtree_for_root_nodes by auto
qed

theorem double_tree_spans_witness:
  "(\<exists>d. spanning_tree 6 2 (\<lambda>r. bt_p (T2 (dtree_for_root 2 6 r))) (\<lambda>r. bt_l (T2 (dtree_for_root 2 6 r)))
      (\<lambda>r. bt_r (T2 (dtree_for_root 2 6 r))) d) \<and>
   map (\<lambda>r. bt_p (T1 (dtree_for_root 2 6 r))) [0..<6] = [4, 0, -1, 0, 2, 4] \<and>
   map (\<lambda>r. bt_p (T2 (dtree_for_root 2 6 r))) [0..<6] = [1, 3, -1, 2, 5, 3]"
proof -
  have "map (\<lambda>r. bt_p (T1 (dtree_for_root 2 6 r))) [0..<6] = [4, 0, -1, 0, 2, 4]"
    "map (\<lambda>r. bt_p (T2 (dtree_for_root 2 6 r))) [0..<6] = [1, 3, -1, 2, 5, 3]" by code_simp+
  then show ?thesis using double_tree_spans [of 2 6] by simp
qed

end
