(* ===== verification/CollTree.thy ===== *)
theory CollTree
  imports CollBuild BinTree Reduction
begin

text \<open>
  Broadcast and reduction along a tree: \<^verbatim>\<open>bcast_tree\<close>, \<^verbatim>\<open>reduce_tree\<close> and \<^verbatim>\<open>reduce_bcast_tree\<close> of
  \<^verbatim>\<open>src/src/coll/algorithms/double_tree_ops.cpp\<close>. A round of the broadcast is one level of the tree, from the root down;
  a round of the reduction one level from the leaves up.
\<close>

section \<open>Builders\<close>

definition bcast_tree :: "ccl_bin_tree \<Rightarrow> loc \<Rightarrow> nat \<Rightarrow> nat \<Rightarrow> builder \<Rightarrow> builder" where
  "bcast_tree tree buffer cnt ds s =
     (let s1 = (if bt_p tree \<noteq> -1 then barrier_here (create (Recv buffer cnt ds (nat (bt_p tree))) s) else s);
          s2 = (if bt_l tree \<noteq> -1 then create (Send buffer cnt ds (nat (bt_l tree))) s1 else s1)
      in if bt_r tree \<noteq> -1 then create (Send buffer cnt ds (nat (bt_r tree))) s2 else s2)"

definition reduce_tree :: "ccl_bin_tree \<Rightarrow> loc \<Rightarrow> nat \<Rightarrow> nat \<Rightarrow> builder \<Rightarrow> builder" where
  "reduce_tree tree buffer cnt ds s =
     (let s1 = (if bt_l tree \<noteq> -1 then create_recv_reduce buffer cnt ds (nat (bt_l tree)) None True s else s);
          s2 = (if bt_r tree \<noteq> -1 then create_recv_reduce buffer cnt ds (nat (bt_r tree)) None True s1 else s1)
      in if bt_p tree \<noteq> -1 then
           create (Send buffer cnt ds (nat (bt_p tree)))
             (if bt_l tree \<noteq> -1 \<or> bt_r tree \<noteq> -1 then barrier_here s2 else s2)
         else s2)"

definition reduce_bcast_tree :: "ccl_bin_tree \<Rightarrow> loc \<Rightarrow> nat \<Rightarrow> nat \<Rightarrow> builder \<Rightarrow> builder" where
  "reduce_bcast_tree tree buffer cnt ds s =
     (let s1 = (if bt_l tree \<noteq> -1 then create_recv_reduce buffer cnt ds (nat (bt_l tree)) None True s else s);
          s2 = (if bt_r tree \<noteq> -1 then create_recv_reduce buffer cnt ds (nat (bt_r tree)) None True s1 else s1);
          s3 = (if bt_p tree \<noteq> -1 then
                  let s' = (if bt_l tree \<noteq> -1 \<or> bt_r tree \<noteq> -1 then barrier_here s2 else s2)
                  in create (Recv buffer cnt ds (nat (bt_p tree))) (create (Send buffer cnt ds (nat (bt_p tree))) s')
                else s2);
          s4 = (if bt_l tree \<noteq> -1 \<or> bt_r tree \<noteq> -1 then barrier_here s3 else s3);
          s5 = (if bt_l tree \<noteq> -1 then create (Send buffer cnt ds (nat (bt_l tree))) s4 else s4)
      in if bt_r tree \<noteq> -1 then create (Send buffer cnt ds (nat (bt_r tree))) s5 else s5)"

section \<open>Children\<close>

definition kids :: "ccl_bin_tree \<Rightarrow> nat list" where
  "kids t = (if bt_l t \<noteq> -1 then [nat (bt_l t)] else []) @ (if bt_r t \<noteq> -1 then [nat (bt_r t)] else [])"

definition node_tree :: "nat \<Rightarrow> nat \<Rightarrow> (nat \<Rightarrow> ccl_bin_tree) \<Rightarrow> (nat \<Rightarrow> nat) \<Rightarrow> bool" where
  "node_tree n root node d \<longleftrightarrow> spanning_tree n root (\<lambda>r. bt_p (node r)) (\<lambda>r. bt_l (node r)) (\<lambda>r. bt_r (node r)) d"

lemma node_tree_root: "node_tree n root node d \<Longrightarrow> root < n \<and> bt_p (node root) = -1 \<and> d root = 0"
  by (simp add: node_tree_def spanning_tree_def)

lemma node_tree_parent:
  assumes "node_tree n root node d" and "r < n" and "r \<noteq> root"
  obtains p where "p < n" "bt_p (node r) = int p" "d r = Suc (d p)"
  using assms unfolding node_tree_def spanning_tree_def by blast

lemma node_tree_depth0: "node_tree n root node d \<Longrightarrow> r < n \<Longrightarrow> d r = 0 \<longleftrightarrow> r = root"
  using node_tree_parent [of n root node d r] node_tree_root [of n root node d] by (metis nat.distinct(1))

lemma node_tree_kids:
  assumes "node_tree n root node d" and "r < n"
  shows "c \<in> set (kids (node r)) \<longleftrightarrow> c < n \<and> bt_p (node c) = int r"
proof
  assume "c \<in> set (kids (node r))"
  then have "(bt_l (node r) \<noteq> -1 \<and> c = nat (bt_l (node r))) \<or> (bt_r (node r) \<noteq> -1 \<and> c = nat (bt_r (node r)))"
    by (auto simp: kids_def split: if_splits)
  then show "c < n \<and> bt_p (node c) = int r"
    using assms unfolding node_tree_def spanning_tree_def by (metis nat_int)
next
  assume c: "c < n \<and> bt_p (node c) = int r"
  then have "c \<noteq> root" using node_tree_root [OF assms(1)] by auto
  then have "bt_l (node r) = int c \<or> bt_r (node r) = int c"
    using assms c unfolding node_tree_def spanning_tree_def by (metis of_nat_eq_iff)
  then show "c \<in> set (kids (node r))" by (auto simp: kids_def)
qed

lemma node_tree_kids_distinct:
  assumes "node_tree n root node d" and "r < n"
  shows "distinct (kids (node r))"
proof (cases "bt_l (node r) \<noteq> -1 \<and> bt_r (node r) \<noteq> -1")
  case True
  then obtain c where c: "c < n" "bt_l (node r) = int c" "bt_p (node c) = int r"
    using assms unfolding node_tree_def spanning_tree_def by metis
  then have "c \<noteq> root" using node_tree_root [OF assms(1)] by auto
  then have "bt_r (node r) \<noteq> int c"
    using assms c unfolding node_tree_def spanning_tree_def by (metis of_nat_eq_iff)
  moreover obtain c' where "bt_r (node r) = int c'"
    using True assms unfolding node_tree_def spanning_tree_def by metis
  ultimately show ?thesis using c(2) True by (auto simp: kids_def)
qed (auto simp: kids_def)

lemma kid_depth:
  assumes "node_tree n root node d" and "c < n" and "bt_p (node c) = int r"
  shows "d c = Suc (d r)" and "c \<noteq> root"
proof -
  show "c \<noteq> root" using node_tree_root [OF assms(1)] assms(3) by auto
  then obtain p where "p < n" "bt_p (node c) = int p" "d c = Suc (d p)"
    using node_tree_parent [OF assms(1,2)] by blast
  then show "d c = Suc (d r)" using assms(3) by simp
qed

lemma concat_map_two:
  assumes "\<And>k. k < K \<Longrightarrow> k \<noteq> a \<Longrightarrow> k \<noteq> Suc a \<Longrightarrow> g k = []" and "Suc a < K"
  shows "concat (map g [0..<K]) = g a @ g (Suc a)"
proof -
  have "[0..<K] = [0..<a] @ a # Suc a # [Suc (Suc a)..<K]"
    using assms(2) upt_add_eq_append [of 0 a "K - a"] by (simp add: upt_conv_Cons)
  then have "concat (map g [0..<K]) = concat (map g [0..<a]) @ g a @ g (Suc a) @ concat (map g [Suc (Suc a)..<K])" by simp
  moreover have "concat (map g [0..<a]) = []" "concat (map g [Suc (Suc a)..<K]) = []" using assms by auto
  ultimately show ?thesis by (simp only: append_Nil append_Nil2)
qed

section \<open>Broadcast\<close>

lemma bcast_tree_ops:
  "ops (bcast_tree t buf cnt ds s) =
     ops s @ (if bt_p t \<noteq> -1 then [(Recv buf cnt ds (nat (bt_p t)), True)] else []) @ map (\<lambda>c. (Send buf cnt ds c, False)) (kids t)"
  by (simp add: bcast_tree_def kids_def Let_def)

definition bcast_level :: "nat \<Rightarrow> (nat \<Rightarrow> ccl_bin_tree) \<Rightarrow> (nat \<Rightarrow> nat) \<Rightarrow> loc \<Rightarrow> nat \<Rightarrow> nat \<Rightarrow> nat \<Rightarrow> rank \<Rightarrow> (sched_op \<times> bool) list" where
  "bcast_level n node d buf cnt ds k r =
     (if n \<le> r then []
      else if d r = Suc k then [(Recv buf cnt ds (nat (bt_p (node r))), True)]
      else if d r = k then map (\<lambda>c. (Send buf cnt ds c, False)) (kids (node r)) else [])"

lemma bcast_levels:
  assumes tree: "node_tree n root node d" and r: "r < n" "d r < K"
  shows "ops (bcast_tree (node r) buf cnt ds (new_builder nb)) = concat (map (\<lambda>k. bcast_level n node d buf cnt ds k r) [0..<K])"
proof (cases "d r")
  case 0
  then have "r = root" using node_tree_depth0 [OF tree r(1)] by simp
  have "concat (map (\<lambda>k. bcast_level n node d buf cnt ds k r) [0..<K]) =
      (if 0 \<in> set [0..<K] then bcast_level n node d buf cnt ds 0 r else [])"
    by (rule concat_map_unique) (use 0 r in \<open>auto simp: bcast_level_def\<close>)
  then show ?thesis using 0 r \<open>r = root\<close> node_tree_root [OF tree] by (simp add: bcast_tree_ops bcast_level_def new_builder_def)
next
  case (Suc a)
  then have "r \<noteq> root" using node_tree_depth0 [OF tree r(1)] by auto
  then obtain p where "bt_p (node r) = int p" using node_tree_parent [OF tree r(1)] by blast
  then have "bt_p (node r) \<noteq> -1" by simp
  moreover have "concat (map (\<lambda>k. bcast_level n node d buf cnt ds k r) [0..<K]) =
      bcast_level n node d buf cnt ds a r @ bcast_level n node d buf cnt ds (Suc a) r"
    by (rule concat_map_two) (use Suc r in \<open>auto simp: bcast_level_def\<close>)
  ultimately show ?thesis using Suc r by (simp add: bcast_tree_ops bcast_level_def new_builder_def)
qed

lemma bcast_level_sends:
  assumes tree: "node_tree n root node d"
  shows "sends_to (\<lambda>r. map fst (bcast_level n node d buf cnt ds k r)) s c =
    (if s < n \<and> d s = k \<and> c < n \<and> bt_p (node c) = int s then [Send buf cnt ds c] else [])"
  using sends_to_all [OF node_tree_kids_distinct [OF tree], of s "Send buf cnt ds" c] node_tree_kids [OF tree, of s c]
  by (auto simp: sends_to_def bcast_level_def comp_def)

lemma bcast_level_recvs:
  assumes tree: "node_tree n root node d"
  shows "recvs_from (\<lambda>r. map fst (bcast_level n node d buf cnt ds k r)) c s =
    (if s < n \<and> d s = k \<and> c < n \<and> bt_p (node c) = int s then [Recv buf cnt ds s] else [])"
proof (cases "c < n \<and> d c = Suc k")
  case True
  then have "c \<noteq> root" using node_tree_root [OF tree] by auto
  then obtain p where "p < n" "bt_p (node c) = int p" "d c = Suc (d p)" using node_tree_parent [OF tree] True by blast
  then show ?thesis using True by (auto simp: recvs_from_def bcast_level_def)
next
  case False
  then have "\<not> (s < n \<and> d s = k \<and> c < n \<and> bt_p (node c) = int s)" using kid_depth(1) [OF tree] by blast
  then show ?thesis using False by (auto simp: recvs_from_def bcast_level_def)
qed

lemma bcast_level_round:
  assumes "node_tree n root node d"
  shows "comm_round n (\<lambda>r. map fst (bcast_level n node d buf cnt ds k r))"
  by (rule comm_roundI [OF _ _ bcast_level_sends [OF assms] bcast_level_recvs [OF assms]])
    (auto simp: bcast_level_def is_local_def msg_fits_def split: if_splits)

lemma bcast_tree_safe:
  assumes "0 < ds" and "ph \<in> set (phases (ops (bcast_tree t buf cnt ds (new_builder nb))))"
  shows "safe_phase ph"
proof -
  have "ph = [Recv buf cnt ds (nat (bt_p t))] \<or> ph = map (Send buf cnt ds) (kids t)"
    using assms(2) phases_no_barrier [of "map (Send buf cnt ds) (kids t)"]
    by (auto simp: bcast_tree_ops new_builder_def comp_def split: if_splits)
  then show ?thesis
  proof
    assume "ph = [Recv buf cnt ds (nat (bt_p t))]"
    then show ?thesis using assms(1) by (simp add: safe_phase_def op_size_ok_def)
  next
    assume "ph = map (Send buf cnt ds) (kids t)"
    then show ?thesis using assms(1)
      by (auto simp: safe_phase_def op_size_ok_def ops_disj_def rngs_disj_def intro!: sorted_wrt_all)
  qed
qed

lemma tree_bcast_correct:
  assumes T: "fifo_transport T" and tree: "node_tree n root node d" and ds: "0 < ds"
  shows "coll_correct T f (coll_start T n (\<lambda>r. ops (bcast_tree (node r) buf cnt ds (new_builder nb))) M)
    (\<lambda>M'. \<forall>r. M' r = (if r < n \<and> r \<noteq> root
                       then write_cells (M r) buf ds (read_cells (M root) buf cnt ds) else M r))"
proof -
  define K where "K = Suc (Max (d ` {..<n}))"
  have K: "d r < K" if "r < n" for r using that unfolding K_def by (simp add: less_Suc_eq_le)
  let ?X = "read_cells (M root) buf cnt ds" and ?seg = "\<lambda>k r. map fst (bcast_level n node d buf cnt ds k r)"
  let ?I = "\<lambda>k M'. \<forall>r. M' r = (if r < n \<and> r \<noteq> root \<and> d r \<le> k then write_cells (M r) buf ds ?X else M r)"
  show ?thesis
  proof (rule fifo_transport.rounds_invariant [OF T, where K = K and I = ?I and seg = ?seg and
        E = "bcast_level n node d buf cnt ds"])
    show "race_free f (coll_start T n (\<lambda>r. ops (bcast_tree (node r) buf cnt ds (new_builder nb))) M)"
      by (rule race_free_start) (rule bcast_tree_safe [OF ds])
    show "?I 0 M" using node_tree_depth0 [OF tree] by auto
    show "?I (Suc k) (round_mem f (?seg k) M')" if I: "?I k M'" for k M'
    proof
      fix r
      have inb: "inbox (?seg k) M' s c = (if s < n \<and> d s = k \<and> c < n \<and> bt_p (node c) = int s
          then read_cells (M' s) buf cnt ds else [])" for s c
        by (auto simp: inbox_def bcast_level_sends [OF tree])
      show "round_mem f (?seg k) M' r = (if r < n \<and> r \<noteq> root \<and> d r \<le> Suc k then write_cells (M r) buf ds ?X else M r)"
      proof (cases "r < n \<and> d r = Suc k")
        case True
        then have "r \<noteq> root" using node_tree_root [OF tree] by auto
        then obtain p where p: "p < n" "bt_p (node r) = int p" "d r = Suc (d p)" using node_tree_parent [OF tree] True by blast
        then have X: "read_cells (M' p) buf cnt ds = ?X" using I ds True by simp
        have seg: "?seg k r = [Recv buf cnt ds p]" using True p by (simp add: bcast_level_def)
        have "M' r = M r" using I True by simp
        then have "round_mem f (?seg k) M' r = write_cells (M r) buf ds ?X"
          using True p by (simp add: round_mem_def seg recv_vals_def inb X)
        then show ?thesis using True \<open>r \<noteq> root\<close> by simp
      next
        case False
        then have "round_mem f (?seg k) M' r = M' r"
          by (auto simp: round_mem_def bcast_level_def fold_sends comp_def)
        then show ?thesis using I False by (auto simp: le_Suc_eq)
      qed
    qed
    show "\<forall>r. M' r = (if r < n \<and> r \<noteq> root then write_cells (M r) buf ds ?X else M r)" if "?I K M'" for M'
      using that K by (auto simp: less_imp_le)
    show "one_phase (bcast_level n node d buf cnt ds k r)" for k r
      by (auto simp: bcast_level_def one_phase_def dest!: in_set_butlastD)
  qed (use bcast_levels [OF tree] K bcast_level_round [OF tree] in \<open>auto simp: is_round_def\<close>)
qed

section \<open>Reduction: entries\<close>

text \<open>The communication buffer of the receive from the child at index \<open>i\<close>, and the receives of a node.\<close>

definition kid_buf :: "nat \<Rightarrow> nat \<Rightarrow> nat \<Rightarrow> loc" where
  "kid_buf nb cnt i = (if 0 < cnt then (nb + i, 0) else null_buf)"

definition kid_recvs :: "nat \<Rightarrow> loc \<Rightarrow> nat \<Rightarrow> nat \<Rightarrow> ccl_bin_tree \<Rightarrow> sched_op list" where
  "kid_recvs nb buf cnt ds t =
     map (\<lambda>i. RecvReduce buf cnt ds (kids t ! i) (kid_buf nb cnt i) True) [0..<length (kids t)]"

definition closed :: "bool \<Rightarrow> sched_op list \<Rightarrow> (sched_op \<times> bool) list" where
  "closed b xs = (if b \<and> xs \<noteq> [] then map (\<lambda>x. (x, False)) (butlast xs) @ [(last xs, True)] else map (\<lambda>x. (x, False)) xs)"

lemma map_fst_closed [simp]: "map fst (closed b xs) = xs"
  by (simp add: closed_def comp_def)

lemma closed_one_phase: "one_phase (closed b xs)"
  by (auto simp: closed_def one_phase_def dest: in_set_butlastD)

lemma closed_mem: "(x, b') \<in> set (closed b xs) \<Longrightarrow> x \<in> set xs"
  by (auto simp: closed_def dest: in_set_butlastD split: if_splits)

lemma kid_recvs_cases:
  "kid_recvs nb buf cnt ds t =
     (if bt_l t \<noteq> -1 then [RecvReduce buf cnt ds (nat (bt_l t)) (kid_buf nb cnt 0) True] else []) @
     (if bt_r t \<noteq> -1 then [RecvReduce buf cnt ds (nat (bt_r t)) (kid_buf nb cnt (if bt_l t \<noteq> -1 then 1 else 0)) True] else [])"
  by (simp add: kid_recvs_def kids_def upt_conv_Cons)

lemma reduce_tree_ops:
  "ops (reduce_tree t buf cnt ds (new_builder nb)) =
     closed (bt_p t \<noteq> -1) (kid_recvs nb buf cnt ds t) @ (if bt_p t \<noteq> -1 then [(Send buf cnt ds (nat (bt_p t)), False)] else [])"
  by (simp add: reduce_tree_def kid_recvs_cases closed_def Let_def create_recv_reduce_def kid_buf_def new_builder_def alloc_buffer_def
      create_def barrier_here_def)

text \<open>Level \<open>lev\<close> sends to the level above it.\<close>

definition reduce_level ::
    "nat \<Rightarrow> (nat \<Rightarrow> ccl_bin_tree) \<Rightarrow> (nat \<Rightarrow> nat) \<Rightarrow> nat \<Rightarrow> loc \<Rightarrow> nat \<Rightarrow> nat \<Rightarrow> nat \<Rightarrow> rank \<Rightarrow> (sched_op \<times> bool) list" where
  "reduce_level n node d nb buf cnt ds lev r =
     (if n \<le> r then []
      else if d r = lev then [(Send buf cnt ds (nat (bt_p (node r))), False)]
      else if Suc (d r) = lev then closed (bt_p (node r) \<noteq> -1) (kid_recvs nb buf cnt ds (node r)) else [])"

lemma reduce_levels:
  assumes tree: "node_tree n root node d" and r: "r < n" "d r < K"
  shows "ops (reduce_tree (node r) buf cnt ds (new_builder nb)) =
    concat (map (\<lambda>j. reduce_level n node d nb buf cnt ds (K - j) r) [0..<K])"
proof (cases "d r")
  case 0
  then have "r = root" using node_tree_depth0 [OF tree r(1)] by simp
  have "concat (map (\<lambda>j. reduce_level n node d nb buf cnt ds (K - j) r) [0..<K]) =
      (if K - 1 \<in> set [0..<K] then reduce_level n node d nb buf cnt ds 1 r else [])"
    by (rule concat_map_unique) (use 0 r in \<open>auto simp: reduce_level_def\<close>)
  then show ?thesis using 0 r \<open>r = root\<close> node_tree_root [OF tree] by (simp add: reduce_tree_ops reduce_level_def)
next
  case (Suc a)
  then have "r \<noteq> root" using node_tree_depth0 [OF tree r(1)] by auto
  then obtain p where "bt_p (node r) = int p" using node_tree_parent [OF tree r(1)] by blast
  then have p: "bt_p (node r) \<noteq> -1" by simp
  have "concat (map (\<lambda>j. reduce_level n node d nb buf cnt ds (K - j) r) [0..<K]) =
      reduce_level n node d nb buf cnt ds (K - (K - Suc (d r))) r @ reduce_level n node d nb buf cnt ds (K - Suc (K - Suc (d r))) r"
    by (rule concat_map_two) (use Suc r in \<open>auto simp: reduce_level_def\<close>)
  then show ?thesis using Suc r p by (simp add: reduce_tree_ops reduce_level_def)
qed

lemma kid_recvs_from:
  assumes "distinct (kids t)"
  shows "filter (\<lambda>x. recv_src x = Some s) (kid_recvs nb buf cnt ds t) =
    (if s \<in> set (kids t) then [RecvReduce buf cnt ds s (kid_buf nb cnt (if hd (kids t) = s then 0 else 1)) True] else [])"
  using assms unfolding kid_recvs_cases kids_def
  by (cases "bt_l t = -1"; cases "bt_r t = -1") simp_all

lemma kid_recvs_no_send: "x \<in> set (kid_recvs nb buf cnt ds t) \<Longrightarrow> send_dst x = None \<and> recv_src x \<noteq> None"
  by (auto simp: kid_recvs_def)

lemma reduce_level_sends:
  assumes tree: "node_tree n root node d" and "0 < lev"
  shows "sends_to (\<lambda>r. map fst (reduce_level n node d nb buf cnt ds lev r)) s c =
    (if s < n \<and> d s = lev \<and> c < n \<and> bt_p (node s) = int c then [Send buf cnt ds c] else [])"
proof (cases "s < n \<and> d s = lev")
  case True
  then have "s \<noteq> root" using node_tree_root [OF tree] assms(2) by auto
  then obtain p where "p < n" "bt_p (node s) = int p" using node_tree_parent [OF tree] True by blast
  then show ?thesis using True by (auto simp: sends_to_def reduce_level_def)
next
  case False
  have "filter (\<lambda>x. send_dst x = Some c) (kid_recvs nb buf cnt ds t) = []" for t
    by (auto simp: filter_empty_conv dest: kid_recvs_no_send)
  then show ?thesis using False by (auto simp: sends_to_def reduce_level_def)
qed

lemma reduce_level_recvs:
  assumes tree: "node_tree n root node d" and "0 < lev"
  shows "recvs_from (\<lambda>r. map fst (reduce_level n node d nb buf cnt ds lev r)) c s =
    (if s < n \<and> d s = lev \<and> c < n \<and> bt_p (node s) = int c
     then [RecvReduce buf cnt ds s (kid_buf nb cnt (if hd (kids (node c)) = s then 0 else 1)) True] else [])"
proof (cases "c < n \<and> Suc (d c) = lev")
  case True
  then have "recvs_from (\<lambda>r. map fst (reduce_level n node d nb buf cnt ds lev r)) c s =
      filter (\<lambda>x. recv_src x = Some s) (kid_recvs nb buf cnt ds (node c))"
    by (simp add: recvs_from_def reduce_level_def)
  moreover have "s \<in> set (kids (node c)) \<longleftrightarrow> s < n \<and> d s = lev \<and> c < n \<and> bt_p (node s) = int c"
    using node_tree_kids [OF tree, of c s] kid_depth(1) [OF tree, of s c] True by blast
  ultimately show ?thesis using kid_recvs_from [OF node_tree_kids_distinct [OF tree], of c s] True by simp
next
  case False
  then have "\<not> (s < n \<and> d s = lev \<and> c < n \<and> bt_p (node s) = int c)" using kid_depth(1) [OF tree, of s c] by auto
  moreover have "recvs_from (\<lambda>r. map fst (reduce_level n node d nb buf cnt ds lev r)) c s = []"
    using False by (simp add: recvs_from_def reduce_level_def)
  ultimately show ?thesis by (simp only: if_False)
qed

lemma reduce_level_round:
  assumes "node_tree n root node d" and "0 < lev"
  shows "comm_round n (\<lambda>r. map fst (reduce_level n node d nb buf cnt ds lev r))"
  by (rule comm_roundI [OF _ _ reduce_level_sends [OF assms] reduce_level_recvs [OF assms]])
    (auto simp: reduce_level_def is_local_def msg_fits_def dest!: closed_mem dest: kid_recvs_no_send split: if_splits)

section \<open>Reduction: the receives of a node\<close>

lemma in_cells_index: "in_cells l cnt ds a \<Longrightarrow> a = loc_add l ((snd a - snd l) div ds * ds)"
proof -
  assume "in_cells l cnt ds a"
  then have "fst a = fst l" "snd l \<le> snd a" "(snd a - snd l) mod ds = 0" by (auto simp: in_cells_def)
  moreover from this(3) have "(snd a - snd l) div ds * ds = snd a - snd l" by (metis add.right_neutral div_mult_mod_eq)
  ultimately show ?thesis by (simp add: loc_add_def prod_eq_iff)
qed

lemma recv_reduce_at:
  assumes "fst cb \<noteq> fst l" and "0 < ds"
  shows "apply_op f (RecvReduce l cnt ds src cb True) vs m a =
    (if in_cells l cnt ds a then f (write_cells m cb ds vs (loc_add cb ((snd a - snd l) div ds * ds))) (m a)
     else write_cells m cb ds vs a)"
proof -
  let ?m = "write_cells m cb ds vs"
  have other: "?m x = m x" if "fst x = fst l" for x using that assms(1) by (simp add: write_cells_def in_cells_def)
  show ?thesis
  proof (cases "in_cells l cnt ds a")
    case True
    let ?i = "(snd a - snd l) div ds"
    have "?i < cnt" "fst a = fst l" using True by (auto simp: in_cells_def)
    then have "map2 f (read_cells ?m cb cnt ds) (read_cells ?m l cnt ds) ! ?i = f (?m (loc_add cb (?i * ds))) (?m (loc_add l (?i * ds)))" by simp
    then show ?thesis using True in_cells_index [OF True] other [OF \<open>fst a = fst l\<close>]
      by (simp add: reduce_cells_def Let_def write_cells_def [of ?m l])
  next
    case False
    then show ?thesis by (simp add: reduce_cells_def Let_def write_cells_def [of ?m l])
  qed
qed

lemma recv_reduce_commute:
  assumes "abel_semigroup f" and "fst cb1 \<noteq> fst l" and "fst cb2 \<noteq> fst l" and "fst cb1 \<noteq> fst cb2" and "0 < ds"
  shows "commute_ops f (RecvReduce l cnt ds s1 cb1 True) (RecvReduce l cnt ds s2 cb2 True)"
proof -
  note at = recv_reduce_at [OF assms(2,5)] recv_reduce_at [OF assms(3,5)]
  have lc: "f a (f b c) = f b (f a c)" for a b c by (rule abel_semigroup.left_commute [OF assms(1)])
  have "apply_op f (RecvReduce l cnt ds s1 cb1 True) vs (apply_op f (RecvReduce l cnt ds s2 cb2 True) ws m) a =
      apply_op f (RecvReduce l cnt ds s2 cb2 True) ws (apply_op f (RecvReduce l cnt ds s1 cb1 True) vs m) a" for vs ws m a
  proof -
    have w1: "write_cells (apply_op f (RecvReduce l cnt ds s2 cb2 True) ws m) cb1 ds vs x = write_cells m cb1 ds vs x" if "fst x = fst cb1" for x
      unfolding write_cells_def at using that assms(2,4) by (simp add: in_cells_def write_cells_def)
    have w2: "write_cells (apply_op f (RecvReduce l cnt ds s1 cb1 True) vs m) cb2 ds ws x = write_cells m cb2 ds ws x" if "fst x = fst cb2" for x
      unfolding write_cells_def at using that assms(3,4) by (simp add: in_cells_def write_cells_def)
    have o1: "write_cells m' cb1 ds vs x = m' x" if "fst x \<noteq> fst cb1" for m' x using that by (simp add: write_cells_def in_cells_def)
    have o2: "write_cells m' cb2 ds ws x = m' x" if "fst x \<noteq> fst cb2" for m' x using that by (simp add: write_cells_def in_cells_def)
    show ?thesis
    proof (cases "in_cells l cnt ds a")
      case True
      then show ?thesis by (simp add: at w1 w2 lc loc_add_def del: apply_op.simps)
    next
      case False
      consider "fst a = fst cb1" | "fst a = fst cb2" | "fst a \<noteq> fst cb1" "fst a \<noteq> fst cb2" by blast
      then show ?thesis
      proof cases
        case 1
        then show ?thesis using False assms(4) w1 [of a] by (simp add: at o2 del: apply_op.simps)
      next
        case 2
        then show ?thesis using False assms(4) w2 [of a] by (simp add: at o1 del: apply_op.simps)
      next
        case 3
        then show ?thesis using False by (simp add: at o1 o2 del: apply_op.simps)
      qed
    qed
  qed
  then show ?thesis unfolding commute_ops_def by (auto simp del: apply_op.simps)
qed

lemma recv_reduce_empty: "apply_op f (RecvReduce l 0 ds src cb True) [] m = m"
  by (simp add: reduce_cells_def)

lemma recv_reduce_step:
  assumes "fst buf < nb" and "0 < ds" and "length vs = cnt"
  shows "read_cells (apply_op f (RecvReduce buf cnt ds src (kid_buf nb cnt i) True) vs m) buf cnt ds =
      map2 f vs (read_cells m buf cnt ds)"
    and "fst a < nb \<Longrightarrow> \<not> in_rng (buf, cnt * ds) a \<Longrightarrow>
      apply_op f (RecvReduce buf cnt ds src (kid_buf nb cnt i) True) vs m a = m a"
proof -
  have "read_cells (apply_op f (RecvReduce buf cnt ds src (kid_buf nb cnt i) True) vs m) buf cnt ds =
      map2 f vs (read_cells m buf cnt ds) \<and> (fst a < nb \<and> \<not> in_rng (buf, cnt * ds) a \<longrightarrow>
      apply_op f (RecvReduce buf cnt ds src (kid_buf nb cnt i) True) vs m a = m a)"
  proof (cases "cnt = 0")
    case True
    then show ?thesis using assms(3) by (simp add: reduce_cells_def)
  next
    case False
    then have cb: "fst (kid_buf nb cnt i) \<noteq> fst buf" "fst (kid_buf nb cnt i) \<ge> nb" using assms(1) by (simp_all add: kid_buf_def)
    note at = recv_reduce_at [OF cb(1) assms(2)]
    have "in_cells buf cnt ds (loc_add buf (j * ds))" if "j < cnt" for j
      using that assms(2) by (simp add: in_cells_def loc_add_def)
    then have "read_cells (apply_op f (RecvReduce buf cnt ds src (kid_buf nb cnt i) True) vs m) buf cnt ds =
        map2 f vs (read_cells m buf cnt ds)"
      using assms(2,3) by (intro nth_equalityI) (auto simp: at write_cells_at loc_add_def [of buf] simp del: apply_op.simps)
    moreover have "apply_op f (RecvReduce buf cnt ds src (kid_buf nb cnt i) True) vs m a = m a"
      if "fst a < nb" "\<not> in_rng (buf, cnt * ds) a"
    proof -
      have "\<not> in_cells buf cnt ds a" using that(2) in_cells_rng [OF _ assms(2)] by blast
      moreover have "write_cells m (kid_buf nb cnt i) ds vs a = m a" using that(1) cb(2) by (auto simp: write_cells_def in_cells_def)
      ultimately show ?thesis by (simp only: at if_False)
    qed
    ultimately show ?thesis by blast
  qed
  then show "read_cells (apply_op f (RecvReduce buf cnt ds src (kid_buf nb cnt i) True) vs m) buf cnt ds =
      map2 f vs (read_cells m buf cnt ds)"
    "fst a < nb \<Longrightarrow> \<not> in_rng (buf, cnt * ds) a \<Longrightarrow>
      apply_op f (RecvReduce buf cnt ds src (kid_buf nb cnt i) True) vs m a = m a" by blast+
qed

lemma kid_recvs_fold:
  assumes "fst buf < nb" and "0 < ds" and V: "\<And>c. c \<in> set (kids t) \<Longrightarrow> length (V c) = cnt"
    and W: "\<And>x c. c \<in> set (kids t) \<Longrightarrow> recv_src x = Some c \<Longrightarrow> W x = V c"
  shows "read_cells (fold (\<lambda>x. apply_op f x (W x)) (kid_recvs nb buf cnt ds t) m) buf cnt ds =
      fold (\<lambda>c. map2 f (V c)) (kids t) (read_cells m buf cnt ds)"
    and "fst a < nb \<Longrightarrow> \<not> in_rng (buf, cnt * ds) a \<Longrightarrow> fold (\<lambda>x. apply_op f x (W x)) (kid_recvs nb buf cnt ds t) m a = m a"
proof -
  have k: "kids t = (if bt_l t \<noteq> -1 then [nat (bt_l t)] else []) @ (if bt_r t \<noteq> -1 then [nat (bt_r t)] else [])"
    by (simp add: kids_def)
  have W': "W (RecvReduce buf cnt ds c cb True) = V c" "length (V c) = cnt" if "c \<in> set (kids t)" for c cb using V W that by simp_all
  note st = recv_reduce_step [OF assms(1,2)]
  show "read_cells (fold (\<lambda>x. apply_op f x (W x)) (kid_recvs nb buf cnt ds t) m) buf cnt ds =
      fold (\<lambda>c. map2 f (V c)) (kids t) (read_cells m buf cnt ds)"
    using W' unfolding kid_recvs_cases k
    by (cases "bt_l t = -1"; cases "bt_r t = -1") (simp_all add: st del: apply_op.simps)
  show "fold (\<lambda>x. apply_op f x (W x)) (kid_recvs nb buf cnt ds t) m a = m a" if "fst a < nb" "\<not> in_rng (buf, cnt * ds) a"
    using W' that unfolding kid_recvs_cases k
    by (cases "bt_l t = -1"; cases "bt_r t = -1") (simp_all add: st(2) del: apply_op.simps)
qed

lemma kid_recvs_race_free:
  assumes "abel_semigroup f" and "fst buf < nb" and "0 < ds"
  shows "race_free_phase f (kid_recvs nb buf cnt ds t)"
proof -
  have "commute_ops f (RecvReduce buf cnt ds s1 (kid_buf nb cnt 0) True) (RecvReduce buf cnt ds s2 (kid_buf nb cnt 1) True)" for s1 s2
  proof (cases "cnt = 0")
    case True
    then show ?thesis by (simp add: commute_ops_def reduce_cells_def)
  next
    case False
    then show ?thesis using assms by (intro recv_reduce_commute) (simp_all add: kid_buf_def)
  qed
  then show ?thesis unfolding race_free_phase_def kid_recvs_cases by simp
qed

lemma reduce_tree_race_free:
  assumes "abel_semigroup f" and "fst buf < nb" and "0 < ds"
  shows "race_free f (coll_start T n (\<lambda>r. ops (reduce_tree (node r) buf cnt ds (new_builder nb))) M)"
proof -
  have "race_free_phase f ph" if ph: "ph \<in> set (phases (ops (reduce_tree t buf cnt ds (new_builder nb))))" for ph t
  proof -
    let ?xs = "kid_recvs nb buf cnt ds t"
    have "phases (ops (reduce_tree t buf cnt ds (new_builder nb))) =
        glue (ends_barrier (closed (bt_p t \<noteq> -1) ?xs)) ?xs (if bt_p t \<noteq> -1 then [[Send buf cnt ds (nat (bt_p t))]] else [])"
      unfolding reduce_tree_ops using phases_one [OF closed_one_phase, of "bt_p t \<noteq> -1" ?xs] by simp
    then have "ph = ?xs \<or> ph = [Send buf cnt ds (nat (bt_p t))]"
      using ph by (auto simp: glue_def ends_barrier_def closed_def split: if_splits)
    then show ?thesis using kid_recvs_race_free [OF assms] by (auto simp: race_free_phase_def)
  qed
  then show ?thesis by (auto simp: race_free_def coll_start_def split: if_splits)
qed

section \<open>Reduction: the levels\<close>

text \<open>The ancestor of a rank at a level, or the rank itself when it is above that level.\<close>

definition anc :: "(nat \<Rightarrow> ccl_bin_tree) \<Rightarrow> (nat \<Rightarrow> nat) \<Rightarrow> nat \<Rightarrow> nat \<Rightarrow> nat" where
  "anc node d lev x = ((\<lambda>r. nat (bt_p (node r))) ^^ (d x - lev)) x"

lemma funpow_parent:
  assumes "node_tree n root node d" and "x < n" and "k \<le> d x"
  shows "((\<lambda>r. nat (bt_p (node r))) ^^ k) x < n \<and> d (((\<lambda>r. nat (bt_p (node r))) ^^ k) x) = d x - k"
  using assms(3)
proof (induction k)
  case (Suc k)
  let ?y = "((\<lambda>r. nat (bt_p (node r))) ^^ k) x"
  from Suc have y: "?y < n" "d ?y = d x - k" by auto
  then have "?y \<noteq> root" using Suc.prems node_tree_root [OF assms(1)] by auto
  then obtain p where "p < n" "bt_p (node ?y) = int p" "d ?y = Suc (d p)" using node_tree_parent [OF assms(1) y(1)] by blast
  then show ?case using y(2) by simp
qed (simp add: assms(2))

lemma anc_above: "d x \<le> lev \<Longrightarrow> anc node d lev x = x"
  by (simp add: anc_def)

lemma anc_depth:
  assumes "node_tree n root node d" and "x < n" and "lev \<le> d x"
  shows "anc node d lev x < n" and "d (anc node d lev x) = lev"
  using funpow_parent [OF assms(1,2), of "d x - lev"] assms(3) by (simp_all add: anc_def)

lemma anc_parent:
  assumes "Suc lev \<le> d x"
  shows "anc node d lev x = nat (bt_p (node (anc node d (Suc lev) x)))"
proof -
  have "d x - lev = Suc (d x - Suc lev)" using assms by simp
  then show ?thesis by (simp add: anc_def)
qed

lemma anc_own:
  assumes "node_tree n root node d" and "x < n" and "d r < lev"
  shows "anc node d lev x = r \<longleftrightarrow> x = r"
proof (cases "d x \<le> lev")
  case False
  then have "d (anc node d lev x) = lev" using anc_depth [OF assms(1,2)] by simp
  then show ?thesis using assms(3) False by auto
qed (simp add: anc_above)

lemma anc_kids:
  assumes "node_tree n root node d" and "x < n" and "r < n" and "d r = lev"
  shows "anc node d lev x = r \<longleftrightarrow> anc node d (Suc lev) x \<in> set (kids (node r) @ [r])"
proof (cases "Suc lev \<le> d x")
  case True
  let ?y = "anc node d (Suc lev) x"
  have y: "?y < n" "d ?y = Suc lev" using anc_depth [OF assms(1,2) True] by auto
  then have "?y \<noteq> root" using node_tree_root [OF assms(1)] by auto
  then obtain p where p: "bt_p (node ?y) = int p" using node_tree_parent [OF assms(1) y(1)] by blast
  have "?y \<noteq> r" using y(2) assms(4) by auto
  then show ?thesis using anc_parent [of lev d x node] True node_tree_kids [OF assms(1,3), of ?y] y(1) p by auto
next
  case False
  then have "anc node d lev x = x" "anc node d (Suc lev) x = x" by (simp_all add: anc_above)
  moreover have "x \<notin> set (kids (node r))"
    using False assms(4) node_tree_kids [OF assms(1,3), of x] kid_depth(1) [OF assms(1), of x r] by auto
  ultimately show ?thesis by auto
qed

lemma mset_filter_in:
  "distinct ys \<Longrightarrow> mset (filter (\<lambda>x. g x \<in> set ys) xs) = mset (concat (map (\<lambda>y. filter (\<lambda>x. g x = y) xs) ys))"
proof (induction ys)
  case (Cons y ys)
  have "mset (filter (\<lambda>x. g x \<in> set (y # ys)) xs) = mset (filter (\<lambda>x. g x = y) xs) + mset (filter (\<lambda>x. g x \<in> set ys) xs)"
    using Cons.prems by (induction xs) auto
  then show ?case using Cons by simp
qed simp

lemma fold_map2_red:
  assumes "abel_semigroup f" and "\<And>c. c \<in> set ks \<Longrightarrow> F c \<noteq> []" and "js \<noteq> []"
  shows "fold (\<lambda>c. map2 f (red_elems f cnt X (F c))) ks (red_elems f cnt X js) = red_elems f cnt X (concat (map F ks) @ js)"
  using assms(2,3)
proof (induction ks arbitrary: js)
  case (Cons k ks)
  have "map2 f (red_elems f cnt X (F k)) (red_elems f cnt X js) = red_elems f cnt X (F k @ js)"
    using Cons.prems by (intro abel_semigroup.red_elems_append [OF assms(1)]) auto
  then have "fold (\<lambda>c. map2 f (red_elems f cnt X (F c))) (k # ks) (red_elems f cnt X js) = red_elems f cnt X (concat (map F ks) @ F k @ js)"
    using Cons by simp
  also have "\<dots> = red_elems f cnt X (concat (map F (k # ks)) @ js)"
    by (rule abel_semigroup.red_elems_perm [OF assms(1)]) simp
  finally show ?case .
qed simp

text \<open>What holds when the levels below \<open>lev\<close> have sent: the ranks down to this level hold the reduction of their descendants.\<close>

definition reduced_to ::
    "('v \<Rightarrow> 'v \<Rightarrow> 'v) \<Rightarrow> nat \<Rightarrow> (nat \<Rightarrow> ccl_bin_tree) \<Rightarrow> (nat \<Rightarrow> nat) \<Rightarrow> nat \<Rightarrow> loc \<Rightarrow> nat \<Rightarrow> nat \<Rightarrow> (rank \<Rightarrow> 'v mem) \<Rightarrow> nat \<Rightarrow> (rank \<Rightarrow> 'v mem) \<Rightarrow> bool" where
  "reduced_to f n node d nb buf cnt ds M lev M' \<longleftrightarrow>
     (\<forall>r < n. d r \<le> lev \<longrightarrow> read_cells (M' r) buf cnt ds =
        red_elems f cnt (\<lambda>r. read_cells (M r) buf cnt ds) (filter (\<lambda>x. anc node d lev x = r) [0..<n])) \<and>
     (\<forall>r a. fst a < nb \<and> \<not> in_rng (buf, cnt * ds) a \<longrightarrow> M' r a = M r a)"

lemma reduced_to_step:
  assumes tree: "node_tree n root node d" and ds: "0 < ds" and f: "abel_semigroup f" and nb: "fst buf < nb"
    and I: "reduced_to f n node d nb buf cnt ds M (Suc lev) M'"
  shows "reduced_to f n node d nb buf cnt ds M lev (round_mem f (\<lambda>r. map fst (reduce_level n node d nb buf cnt ds (Suc lev) r)) M')"
proof -
  let ?seg = "\<lambda>r. map fst (reduce_level n node d nb buf cnt ds (Suc lev) r)"
  let ?X = "\<lambda>r. read_cells (M r) buf cnt ds"
  let ?F = "\<lambda>lev r. filter (\<lambda>x. anc node d lev x = r) [0..<n]"
  have I1: "read_cells (M' r) buf cnt ds = red_elems f cnt ?X (?F (Suc lev) r)" if "r < n" "d r \<le> Suc lev" for r
    using I that by (simp add: reduced_to_def)
  have I2: "M' r a = M r a" if "fst a < nb" "\<not> in_rng (buf, cnt * ds) a" for r a
    using I that unfolding reduced_to_def by blast
  have inb: "inbox ?seg M' s c = (if s < n \<and> d s = Suc lev \<and> c < n \<and> bt_p (node s) = int c
      then read_cells (M' s) buf cnt ds else [])" for s c
    by (auto simp: inbox_def reduce_level_sends [OF tree, of "Suc lev"])
  have recv: "read_cells (round_mem f ?seg M' r) buf cnt ds = fold (\<lambda>c. map2 f (read_cells (M' c) buf cnt ds)) (kids (node r)) (read_cells (M' r) buf cnt ds)"
      "\<And>a. fst a < nb \<Longrightarrow> \<not> in_rng (buf, cnt * ds) a \<Longrightarrow> round_mem f ?seg M' r a = M' r a"
    if r: "r < n" "d r = lev" for r
  proof -
    have seg: "?seg r = kid_recvs nb buf cnt ds (node r)" using r by (simp add: reduce_level_def)
    have W: "recv_vals ?seg M' r x = read_cells (M' c) buf cnt ds" if "c \<in> set (kids (node r))" "recv_src x = Some c" for x c
      using that r node_tree_kids [OF tree r(1), of c] kid_depth(1) [OF tree, of c r] by (simp add: recv_vals_def inb)
    note fold = kid_recvs_fold [OF nb ds, where t = "node r" and V = "\<lambda>c. read_cells (M' c) buf cnt ds" and W = "recv_vals ?seg M' r"]
    show "read_cells (round_mem f ?seg M' r) buf cnt ds = fold (\<lambda>c. map2 f (read_cells (M' c) buf cnt ds)) (kids (node r)) (read_cells (M' r) buf cnt ds)"
      unfolding round_mem_def seg by (rule fold(1)) (auto simp: W)
    show "round_mem f ?seg M' r a = M' r a" if "fst a < nb" "\<not> in_rng (buf, cnt * ds) a" for a
      unfolding round_mem_def seg by (rule fold(2)) (use that in \<open>auto simp: W\<close>)
  qed
  have other: "round_mem f ?seg M' r = M' r" if "\<not> (r < n \<and> d r = lev)" for r
    using that by (auto simp: round_mem_def reduce_level_def)
  have "read_cells (round_mem f ?seg M' r) buf cnt ds = red_elems f cnt ?X (?F lev r)" if r: "r < n" "d r \<le> lev" for r
  proof (cases "d r = lev")
    case False
    then have "?F lev r = ?F (Suc lev) r" using r anc_own [OF tree, of _ r] by (intro filter_cong) auto
    then show ?thesis using I1 [OF r(1)] other [of r] r False by simp
  next
    case True
    have kid: "c < n" "d c \<le> Suc lev" "?F (Suc lev) c \<noteq> []" if "c \<in> set (kids (node r))" for c
    proof -
      show c: "c < n" "d c \<le> Suc lev" using that node_tree_kids [OF tree r(1), of c] kid_depth(1) [OF tree, of c r] True by auto
      then have "c \<in> set (?F (Suc lev) c)" by (simp add: anc_above)
      then show "?F (Suc lev) c \<noteq> []" by (metis list.set(1) empty_iff)
    qed
    have own: "?F (Suc lev) r \<noteq> []"
    proof -
      have "r \<in> set (?F (Suc lev) r)" using r by (simp add: anc_above)
      then show ?thesis by (metis list.set(1) empty_iff)
    qed
    have nr: "r \<notin> set (kids (node r))" using node_tree_kids [OF tree r(1), of r] kid_depth(1) [OF tree, of r r] by auto
    have "read_cells (round_mem f ?seg M' r) buf cnt ds =
        fold (\<lambda>c. map2 f (red_elems f cnt ?X (?F (Suc lev) c))) (kids (node r)) (red_elems f cnt ?X (?F (Suc lev) r))"
      unfolding recv(1) [OF r(1) True] I1 [OF r(1) le_SucI [OF r(2)]] by (rule fold_cong) (auto simp: I1 kid)
    also have "\<dots> = red_elems f cnt ?X (concat (map (?F (Suc lev)) (kids (node r))) @ ?F (Suc lev) r)"
      by (rule fold_map2_red [OF f]) (use kid own in auto)
    also have "\<dots> = red_elems f cnt ?X (?F lev r)"
    proof (rule abel_semigroup.red_elems_perm [OF f])
      have "?F lev r = filter (\<lambda>x. anc node d (Suc lev) x \<in> set (kids (node r) @ [r])) [0..<n]"
        using anc_kids [OF tree _ r(1) True] by (intro filter_cong) auto
      then show "mset (concat (map (?F (Suc lev)) (kids (node r))) @ ?F (Suc lev) r) = mset (?F lev r)"
        using mset_filter_in [of "kids (node r) @ [r]" "anc node d (Suc lev)" "[0..<n]"] nr node_tree_kids_distinct [OF tree r(1)] by simp
    qed
    finally show ?thesis .
  qed
  moreover have "round_mem f ?seg M' r a = M r a" if "fst a < nb" "\<not> in_rng (buf, cnt * ds) a" for r a
    using recv(2) [of r a] other [of r] I2 [OF that] that by (cases "r < n \<and> d r = lev") auto
  ultimately show ?thesis by (simp add: reduced_to_def)
qed

lemma reduced_to_start:
  assumes "\<And>r. r < n \<Longrightarrow> d r < K"
  shows "reduced_to f n node d nb buf cnt ds M K M"
proof -
  have "filter (\<lambda>x. anc node d K x = r) [0..<n] = [r]" if "r < n" for r
  proof -
    have "filter (\<lambda>x. anc node d K x = r) [0..<n] = filter (\<lambda>x. x = r) [0..<n]"
      using assms by (intro filter_cong) (auto simp: anc_above less_imp_le)
    then show ?thesis using that by (simp add: filter_eq_distinct)
  qed
  then show ?thesis by (simp add: reduced_to_def red_elems_single)
qed

lemma reduced_to_root:
  assumes tree: "node_tree n root node d" and "reduced_to f n node d nb buf cnt ds M 0 M'"
  shows "read_cells (M' root) buf cnt ds = red_elems f cnt (\<lambda>r. read_cells (M r) buf cnt ds) [0..<n]"
proof -
  have "anc node d 0 x = root" if "x < n" for x
    using anc_depth [OF tree that, of 0] node_tree_depth0 [OF tree] by simp
  then have "filter (\<lambda>x. anc node d 0 x = root) [0..<n] = [0..<n]" by simp
  then show ?thesis using assms(2) node_tree_root [OF tree] by (simp add: reduced_to_def)
qed

lemma tree_reduce_correct:
  assumes T: "fifo_transport T" and tree: "node_tree n root node d" and ds: "0 < ds" and f: "abel_semigroup f" and nb: "fst buf < nb"
  shows "coll_correct T f (coll_start T n (\<lambda>r. ops (reduce_tree (node r) buf cnt ds (new_builder nb))) M)
    (\<lambda>M'. read_cells (M' root) buf cnt ds = red_elems f cnt (\<lambda>r. read_cells (M r) buf cnt ds) [0..<n] \<and>
       (\<forall>r a. fst a < nb \<and> \<not> in_rng (buf, cnt * ds) a \<longrightarrow> M' r a = M r a))"
proof -
  define K where "K = Suc (Max (d ` {..<n}))"
  have K: "d r < K" if "r < n" for r using that unfolding K_def by (simp add: less_Suc_eq_le)
  show ?thesis
  proof (rule fifo_transport.rounds_invariant [OF T, where K = K
        and I = "\<lambda>j. reduced_to f n node d nb buf cnt ds M (K - j)"
        and seg = "\<lambda>j r. map fst (reduce_level n node d nb buf cnt ds (K - j) r)"
        and E = "\<lambda>j. reduce_level n node d nb buf cnt ds (K - j)"])
    show "race_free f (coll_start T n (\<lambda>r. ops (reduce_tree (node r) buf cnt ds (new_builder nb))) M)"
      by (rule reduce_tree_race_free [OF f nb ds])
    show "reduced_to f n node d nb buf cnt ds M (K - 0) M" using reduced_to_start [OF K] by simp
    show "reduced_to f n node d nb buf cnt ds M (K - Suc j) (round_mem f (\<lambda>r. map fst (reduce_level n node d nb buf cnt ds (K - j) r)) M')"
      if "j < K" "reduced_to f n node d nb buf cnt ds M (K - j) M'" for j M'
      using reduced_to_step [OF tree ds f nb, of cnt M "K - Suc j" M'] that by (simp add: Suc_diff_Suc)
    show "read_cells (M' root) buf cnt ds = red_elems f cnt (\<lambda>r. read_cells (M r) buf cnt ds) [0..<n] \<and>
        (\<forall>r a. fst a < nb \<and> \<not> in_rng (buf, cnt * ds) a \<longrightarrow> M' r a = M r a)"
      if "reduced_to f n node d nb buf cnt ds M (K - K) M'" for M'
      using that reduced_to_root [OF tree, of f nb buf cnt ds M M'] unfolding reduced_to_def by simp
    show "one_phase (reduce_level n node d nb buf cnt ds (K - j) r)" for j r
      using closed_one_phase by (simp add: reduce_level_def) (simp add: one_phase_def)
  qed (use reduce_levels [OF tree] K reduce_level_round [OF tree] in \<open>auto simp: is_round_def\<close>)
qed

end
