(* ===== verification/CollExchange.thy ===== *)
theory CollExchange
  imports CollRounds
begin

text \<open>
  Exchange phases. A phase in which a rank sends its buffer to a peer and receives the answer into the same buffer is not race free by the
  entries alone: it relies on the peer to answer only after it has received. When the messages that the
  ranks exchange do ensure this, splitting such phases in two does not change what can happen, and the
  split program is race free. This theory has the simulation between both programs.
\<close>

definition is_exchange :: "sched_op list \<Rightarrow> bool" where
  "is_exchange ph \<longleftrightarrow> (\<exists>l cnt ds p l' cnt' ds' q. ph = [Send l cnt ds p, Recv l' cnt' ds' q])"

definition split_phase :: "sched_op list \<Rightarrow> sched_op list list" where
  "split_phase ph = (if is_exchange ph then [[hd ph], tl ph] else [ph])"

definition split_phases :: "sched_op list list \<Rightarrow> sched_op list list" where
  "split_phases phs = concat (map split_phase phs)"

definition split_state :: "('n, 'v) gstate \<Rightarrow> ('n, 'v) gstate" where
  "split_state g = g\<lparr>progs := (\<lambda>r. split_phases (progs g r))\<rparr>"

text \<open>A phase is an exchange, or no exchange can be left when some of its entries are complete.\<close>

definition is_recv :: "sched_op \<Rightarrow> bool" where
  "is_recv x \<longleftrightarrow> (\<exists>l cnt ds p. x = Recv l cnt ds p)"

definition clear_phase :: "sched_op list \<Rightarrow> bool" where
  "clear_phase ph \<longleftrightarrow> is_exchange ph \<or> (\<forall>x \<in> set ph. \<not> is_recv x) \<or> (\<forall>x \<in> set ph. send_dst x = None)"

definition clear_state :: "('n, 'v) gstate \<Rightarrow> bool" where
  "clear_state g \<longleftrightarrow> (\<forall>r. \<forall>ph \<in> set (progs g r). clear_phase ph)"

text \<open>The answer of an exchange is not there before the rank has sent.\<close>

definition answers_wait :: "('n, 'v) transport \<Rightarrow> ('n, 'v) gstate \<Rightarrow> bool" where
  "answers_wait T g \<longleftrightarrow>
     (\<forall>r ph rest q. progs g r = ph # rest \<and> is_exchange ph \<and> recv_src (ph ! 1) = Some q \<longrightarrow> tr_pending T (net g) (q, r) = [])"

lemma split_phases_Nil [simp]: "split_phases [] = []"
  by (simp add: split_phases_def)

lemma split_phases_Cons: "split_phases (ph # phs) = split_phase ph @ split_phases phs"
  by (simp add: split_phases_def)

lemma split_phases_Nil_iff: "split_phases phs = [] \<longleftrightarrow> phs = []"
  by (cases phs) (simp_all add: split_phases_Cons split_phase_def)

lemma split_state_simps [simp]: "mems (split_state g) = mems g" "net (split_state g) = net g"
  "progs (split_state g) r = split_phases (progs g r)"
  by (simp_all add: split_state_def)

lemma clear_not_exchange:
  assumes "clear_phase ph" and "\<not> is_exchange ph"
  shows "\<not> is_exchange (del i ph)" and "clear_phase (del i ph)"
proof -
  from assms have c: "(\<forall>x \<in> set ph. \<not> is_recv x) \<or> (\<forall>x \<in> set ph. send_dst x = None)" by (auto simp: clear_phase_def)
  then have c': "(\<forall>x \<in> set (del i ph). \<not> is_recv x) \<or> (\<forall>x \<in> set (del i ph). send_dst x = None)"
    using set_del [of i ph] by blast
  then show "\<not> is_exchange (del i ph)" by (auto simp: is_exchange_def is_recv_def)
  show "clear_phase (del i ph)" using c' by (simp add: clear_phase_def)
qed

lemma exchange_del: "is_exchange ph \<Longrightarrow> i < 2 \<Longrightarrow> clear_phase (del i ph)"
  by (auto simp: is_exchange_def del_def clear_phase_def is_recv_def less_Suc_eq numeral_2_eq_2)

lemma clear_front:
  assumes "clear_state g" and "progs g r = ph # rest"
  shows "clear_phase ph" and "\<forall>ph \<in> set rest. clear_phase ph"
proof -
  have "\<forall>x \<in> set (progs g r). clear_phase x" using assms(1) by (simp add: clear_state_def)
  then show "clear_phase ph" "\<forall>ph \<in> set rest. clear_phase ph" by (simp_all add: assms(2))
qed

lemma clear_step:
  assumes "clear_state g" and "exec_step T f g g'"
  shows "clear_state g'"
proof -
  from assms(2) obtain r i where "step_at T f r i g = Some g'" by (auto simp: exec_step_def)
  then obtain ph rest m n where a: "progs g r = ph # rest" "i < length ph"
      "g' = g\<lparr>progs := (progs g)(r := drop_done (del i ph) rest), mems := (mems g)(r := m), net := n\<rparr>"
    by (rule step_atE)
  note ph = clear_front [OF assms(1) a(1)]
  have "clear_phase (del i ph)"
  proof (cases "is_exchange ph")
    case True
    then have "length ph = 2" by (auto simp: is_exchange_def)
    with exchange_del [OF True] a(2) show ?thesis by simp
  qed (rule clear_not_exchange(2) [OF ph(1)])
  then show ?thesis using assms(1) ph(2) a(3) by (auto simp: clear_state_def drop_done_def)
qed

lemma split_drop_done:
  assumes "clear_phase ph" and "\<not> is_exchange ph"
  shows "split_phases (drop_done (del i ph) rest) = drop_done (del i ph) (split_phases rest)"
  using clear_not_exchange(1) [OF assms] by (simp add: drop_done_def split_phases_Cons split_phase_def)

section \<open>Steps of both programs\<close>

context fifo_transport
begin

lemma recv_blocked:
  assumes "recv_src x = Some q" and "tr_pending T n (q, r) = []"
  shows "fire T f r x m n = None"
  using assms recv_none [of "(q, r)" n] by (simp add: fire_def take_msg_def)

lemma split_forward:
  assumes "clear_state g" and "answers_wait T g" and "exec_step T f g g'"
  shows "exec_step T f (split_state g) (split_state g')"
proof -
  from assms(3) obtain r i where st: "step_at T f r i g = Some g'" by (auto simp: exec_step_def)
  then obtain ph rest m n where a: "progs g r = ph # rest" "i < length ph" "ready (take i ph) (ph ! i)"
      "fire T f r (ph ! i) (mems g r) (net g) = Some (m, n)"
      "g' = g\<lparr>progs := (progs g)(r := drop_done (del i ph) rest), mems := (mems g)(r := m), net := n\<rparr>"
    by (rule step_atE)
  note cl = clear_front(1) [OF assms(1) a(1)]
  show ?thesis
  proof (cases "is_exchange ph")
    case False
    then have "progs (split_state g) r = ph # split_phases rest" by (simp add: a(1) split_phases_Cons split_phase_def)
    from step_atI [OF this a(2,3), of T f m n] a(4)
    have "step_at T f r i (split_state g) = Some ((split_state g)\<lparr>progs := (progs (split_state g))(r := drop_done (del i ph) (split_phases rest)),
        mems := (mems g)(r := m), net := n\<rparr>)" by simp
    moreover have "\<dots> = Some (split_state g')"
      by (simp add: a(5) split_state_def split_drop_done [OF cl False] fun_eq_iff)
    ultimately show ?thesis by (auto simp: exec_step_def)
  next
    case True
    then obtain x y q where ph: "ph = [x, y]" "recv_src y = Some q" "recv_src x = None" by (auto simp: is_exchange_def)
    have "i \<noteq> 1"
    proof
      assume "i = 1"
      moreover have "tr_pending T (net g) (q, r) = []"
        using assms(2) [unfolded answers_wait_def, rule_format, of r ph rest q] a(1) True ph by simp
      ultimately show False using recv_blocked [OF ph(2), of "net g" r f "mems g r"] a(4) ph(1) by simp
    qed
    then have i: "i = 0" using a(2) ph(1) by simp
    have p: "progs (split_state g) r = [x] # [y] # split_phases rest"
      using True by (simp add: a(1) split_phases_Cons split_phase_def ph(1))
    have ny: "\<not> is_exchange [y]" by (simp add: is_exchange_def)
    from step_atI [OF p, of 0 T f m n] a(4) i
    have "step_at T f r 0 (split_state g) = Some ((split_state g)\<lparr>progs := (progs (split_state g))(r := [y] # split_phases rest),
        mems := (mems g)(r := m), net := n\<rparr>)" by (simp add: ready_def ph(1) del_def drop_done_def)
    moreover have "\<dots> = Some (split_state g')"
      by (simp add: a(5) i ph(1) split_state_def del_def drop_done_def split_phases_Cons split_phase_def ny fun_eq_iff)
    ultimately show ?thesis by (auto simp: exec_step_def)
  qed
qed

lemma split_backward:
  assumes "clear_state g" and "exec_step T f (split_state g) h"
  shows "\<exists>g'. exec_step T f g g' \<and> h = split_state g'"
proof -
  from assms(2) obtain r i where st: "step_at T f r i (split_state g) = Some h" by (auto simp: exec_step_def)
  then obtain ph' rest' m n where a: "progs (split_state g) r = ph' # rest'" "i < length ph'" "ready (take i ph') (ph' ! i)"
      "fire T f r (ph' ! i) (mems g r) (net g) = Some (m, n)"
      "h = (split_state g)\<lparr>progs := (progs (split_state g))(r := drop_done (del i ph') rest'), mems := (mems g)(r := m), net := n\<rparr>"
    by (rule step_atE) auto
  obtain ph rest where g: "progs g r = ph # rest" using a(1) by (cases "progs g r") simp_all
  note cl = clear_front(1) [OF assms(1) g]
  show ?thesis
  proof (cases "is_exchange ph")
    case False
    then have e: "ph' = ph" "rest' = split_phases rest" using a(1) g by (simp_all add: split_phases_Cons split_phase_def)
    let ?g = "g\<lparr>progs := (progs g)(r := drop_done (del i ph) rest), mems := (mems g)(r := m), net := n\<rparr>"
    have "step_at T f r i g = Some ?g" using step_atI [OF g, of i T f m n] a(2-4) e by simp
    moreover have "h = split_state ?g"
      by (simp add: a(5) e split_state_def split_drop_done [OF cl False] fun_eq_iff)
    ultimately show ?thesis by (auto simp: exec_step_def)
  next
    case True
    then obtain x y where ph: "ph = [x, y]" by (auto simp: is_exchange_def)
    then have e: "ph' = [x]" "rest' = [y] # split_phases rest" using a(1) g True by (simp_all add: split_phases_Cons split_phase_def)
    have i: "i = 0" using a(2) e(1) by simp
    have ny: "\<not> is_exchange [y]" by (simp add: is_exchange_def)
    let ?g = "g\<lparr>progs := (progs g)(r := [y] # rest), mems := (mems g)(r := m), net := n\<rparr>"
    have "step_at T f r 0 g = Some ?g"
      using step_atI [OF g, of 0 T f m n] a(4) e i by (simp add: ph ready_def del_def drop_done_def)
    moreover have "h = split_state ?g"
      by (simp add: a(5) e i split_state_def del_def drop_done_def split_phases_Cons split_phase_def ny fun_eq_iff)
    ultimately show ?thesis by (auto simp: exec_step_def)
  qed
qed

text \<open>What is correct when its exchanges are split is correct.\<close>

theorem split_correct:
  assumes "coll_correct T f (split_state g0) Q" and "clear_state g0"
    and wait: "\<And>g. exec T f g0 g \<Longrightarrow> answers_wait T g"
  shows "coll_correct T f g0 Q"
proof -
  have clear: "clear_state g" if "exec T f g0 g" for g
    using that by (induction rule: rtranclp_induct) (auto intro: assms(2) clear_step)
  have fwd: "exec T f (split_state g0) (split_state g)" if "exec T f g0 g" for g
    using that
  proof (induction rule: rtranclp_induct)
    case (step y z)
    with split_forward [OF clear [OF step(1)] wait [OF step(1)] step(2)] show ?case by simp
  qed simp
  have bwd: "\<exists>t. exec T f g0 t \<and> exec T f s t \<and> t' = split_state t" if "exec T f (split_state s) t'" "exec T f g0 s" for s t'
    using that(1)
  proof (induction rule: rtranclp_induct)
    case base
    then show ?case using that(2) by blast
  next
    case (step y' z')
    then obtain y where y: "exec T f g0 y" "exec T f s y" "y' = split_state y" by blast
    from split_backward [OF clear [OF y(1)]] step(2) y(3) obtain z where "exec_step T f y z" "z' = split_state z" by blast
    then show ?case using y rtranclp.rtrancl_into_rtrancl [of "exec_step T f"] by blast
  qed
  have dn: "all_done T (split_state t) \<Longrightarrow> all_done T t" for t by (simp add: all_done_def split_phases_Nil_iff)
  have "\<exists>t. exec T f s t \<and> all_done T t \<and> Q (mems t)" if s: "exec T f g0 s" for s
  proof -
    from assms(1) fwd [OF s] obtain t' where t': "exec T f (split_state s) t'" "all_done T t'" "Q (mems t')"
      unfolding coll_correct_def by blast
    from bwd [OF t'(1) s] obtain t where "exec T f s t" "t' = split_state t" by blast
    then show ?thesis using t'(2,3) dn by auto
  qed
  moreover have "all_done T s \<and> Q (mems s)" if s: "exec T f g0 s" "\<forall>u. \<not> exec_step T f s u" for s
  proof -
    have "\<forall>u. \<not> exec_step T f (split_state s) u" using split_backward [OF clear [OF s(1)]] s(2) by blast
    then have "all_done T (split_state s) \<and> Q (mems (split_state s))"
      using assms(1) fwd [OF s(1)] unfolding coll_correct_def by blast
    then show ?thesis using dn by simp
  qed
  ultimately show ?thesis unfolding coll_correct_def by blast
qed

end

end
