(* ===== verification/CollTreeAllreduce.thy ===== *)
theory CollTreeAllreduce
  imports CollTree CollOrder CollExchange
begin

text \<open>
  Reduction along a tree followed by the broadcast of the result along the same tree, \<^verbatim>\<open>reduce_bcast_tree\<close> of
  \<^verbatim>\<open>src/src/coll/algorithms/double_tree_ops.cpp\<close>. A rank sends its partial result to its parent and receives the
  final one into the same buffer with no barrier in between: an exchange phase. The parent answers only after it has
  received from all its children, which is shown from the order of entries and the conservation of messages.
\<close>

section \<open>Entries\<close>

definition node_sends :: "loc \<Rightarrow> nat \<Rightarrow> nat \<Rightarrow> ccl_bin_tree \<Rightarrow> sched_op list" where
  "node_sends buf cnt ds t = map (Send buf cnt ds) (kids t)"

lemma kids_Nil: "kids t = [] \<longleftrightarrow> bt_l t = -1 \<and> bt_r t = -1"
  by (simp add: kids_def)

lemma kid_recvs_Nil: "kid_recvs nb buf cnt ds t = [] \<longleftrightarrow> kids t = []"
  by (simp add: kid_recvs_def)

lemma reduce_bcast_tree_ops:
  "ops (reduce_bcast_tree t buf cnt ds (new_builder nb)) =
     closed True (kid_recvs nb buf cnt ds t) @
     (if bt_p t \<noteq> -1 then [(Send buf cnt ds (nat (bt_p t)), False), (Recv buf cnt ds (nat (bt_p t)), kids t \<noteq> [])] else []) @
     map (\<lambda>x. (x, False)) (node_sends buf cnt ds t)"
  by (simp add: reduce_bcast_tree_def kid_recvs_cases kids_def node_sends_def closed_def Let_def create_recv_reduce_def kid_buf_def
      new_builder_def alloc_buffer_def create_def barrier_here_def)

definition node_phases :: "nat \<Rightarrow> loc \<Rightarrow> nat \<Rightarrow> nat \<Rightarrow> ccl_bin_tree \<Rightarrow> sched_op list list" where
  "node_phases nb buf cnt ds t =
     (if kids t \<noteq> [] then [kid_recvs nb buf cnt ds t] else []) @
     (if bt_p t \<noteq> -1 then [[Send buf cnt ds (nat (bt_p t)), Recv buf cnt ds (nat (bt_p t))]] else []) @
     (if kids t \<noteq> [] then [node_sends buf cnt ds t] else [])"

lemma reduce_bcast_phases: "phases (ops (reduce_bcast_tree t buf cnt ds (new_builder nb))) = node_phases nb buf cnt ds t"
proof -
  have "phases (map (\<lambda>x. (x, False)) (node_sends buf cnt ds t)) = (if kids t \<noteq> [] then [node_sends buf cnt ds t] else [])"
    using phases_no_barrier [of "node_sends buf cnt ds t"] by (simp add: node_sends_def)
  moreover have "ends_barrier (closed True (kid_recvs nb buf cnt ds t)) \<longleftrightarrow> kids t \<noteq> []"
    by (simp add: ends_barrier_def closed_def kid_recvs_Nil)
  ultimately show ?thesis
    unfolding reduce_bcast_tree_ops phases_one [OF closed_one_phase] node_phases_def
    by (simp add: glue_def kid_recvs_Nil)
qed

text \<open>The same program with the exchange split.\<close>

definition split_entries :: "nat \<Rightarrow> loc \<Rightarrow> nat \<Rightarrow> nat \<Rightarrow> ccl_bin_tree \<Rightarrow> (sched_op \<times> bool) list" where
  "split_entries nb buf cnt ds t =
     closed True (kid_recvs nb buf cnt ds t) @
     (if bt_p t \<noteq> -1 then [(Send buf cnt ds (nat (bt_p t)), True)] else []) @
     (if bt_p t \<noteq> -1 then [(Recv buf cnt ds (nat (bt_p t)), True)] else []) @
     map (\<lambda>x. (x, False)) (node_sends buf cnt ds t)"

lemma not_exchange:
  "\<forall>x \<in> set ph. \<not> is_recv x \<Longrightarrow> split_phase ph = [ph]"
  by (auto simp: split_phase_def is_exchange_def is_recv_def)

lemma kid_recvs_not_recv: "\<forall>x \<in> set (kid_recvs nb buf cnt ds t). \<not> is_recv x"
  by (auto simp: kid_recvs_def is_recv_def)

lemma node_sends_not_recv: "\<forall>x \<in> set (node_sends buf cnt ds t). \<not> is_recv x"
  by (auto simp: node_sends_def is_recv_def)

lemma split_entries_phases: "phases (split_entries nb buf cnt ds t) = split_phases (node_phases nb buf cnt ds t)"
proof -
  have "phases (map (\<lambda>x. (x, False)) (node_sends buf cnt ds t)) = (if kids t \<noteq> [] then [node_sends buf cnt ds t] else [])"
    using phases_no_barrier [of "node_sends buf cnt ds t"] by (simp add: node_sends_def)
  moreover have "ends_barrier (closed True (kid_recvs nb buf cnt ds t)) \<longleftrightarrow> kids t \<noteq> []"
    by (simp add: ends_barrier_def closed_def kid_recvs_Nil)
  moreover have "split_phase [Send l c s p, Recv l c s p] = [[Send l c s p], [Recv l c s p]]" for l c s p
    by (simp add: split_phase_def is_exchange_def)
  ultimately show ?thesis
    unfolding split_entries_def phases_one [OF closed_one_phase] node_phases_def
    by (simp add: glue_def kid_recvs_Nil split_phases_def not_exchange kid_recvs_not_recv node_sends_not_recv)
qed

lemma split_start:
  "split_state (coll_start T n (\<lambda>r. ops (reduce_bcast_tree (node r) buf cnt ds (new_builder nb))) M) =
   coll_start T n (\<lambda>r. split_entries nb buf cnt ds (node r)) M"
  by (auto simp: split_state_def coll_start_def reduce_bcast_phases split_entries_phases)

lemma reduce_bcast_clear: "clear_state (coll_start T n (\<lambda>r. ops (reduce_bcast_tree (node r) buf cnt ds (new_builder nb))) M)"
  by (auto simp: clear_state_def coll_start_def reduce_bcast_phases node_phases_def clear_phase_def is_exchange_def
      dest: bspec [OF kid_recvs_not_recv] bspec [OF node_sends_not_recv])

section \<open>The split program\<close>

definition strict_level ::
    "nat \<Rightarrow> (nat \<Rightarrow> ccl_bin_tree) \<Rightarrow> (nat \<Rightarrow> nat) \<Rightarrow> nat \<Rightarrow> loc \<Rightarrow> nat \<Rightarrow> nat \<Rightarrow> nat \<Rightarrow> rank \<Rightarrow> (sched_op \<times> bool) list" where
  "strict_level n node d nb buf cnt ds lev r =
     (if n \<le> r then []
      else if d r = lev then [(Send buf cnt ds (nat (bt_p (node r))), True)]
      else if Suc (d r) = lev then closed True (kid_recvs nb buf cnt ds (node r)) else [])"

lemma strict_level_seg: "map fst (strict_level n node d nb buf cnt ds lev r) = map fst (reduce_level n node d nb buf cnt ds lev r)"
  by (simp add: strict_level_def reduce_level_def)

definition tree_level ::
    "nat \<Rightarrow> (nat \<Rightarrow> ccl_bin_tree) \<Rightarrow> (nat \<Rightarrow> nat) \<Rightarrow> nat \<Rightarrow> loc \<Rightarrow> nat \<Rightarrow> nat \<Rightarrow> nat \<Rightarrow> nat \<Rightarrow> rank \<Rightarrow> (sched_op \<times> bool) list" where
  "tree_level n node d nb buf cnt ds K j r =
     (if j < K then strict_level n node d nb buf cnt ds (K - j) r else bcast_level n node d buf cnt ds (j - K) r)"

lemma strict_levels:
  assumes tree: "node_tree n root node d" and r: "r < n" "d r < K"
  shows "concat (map (\<lambda>j. strict_level n node d nb buf cnt ds (K - j) r) [0..<K]) =
    closed True (kid_recvs nb buf cnt ds (node r)) @ (if bt_p (node r) \<noteq> -1 then [(Send buf cnt ds (nat (bt_p (node r))), True)] else [])"
proof (cases "d r")
  case 0
  then have "r = root" using node_tree_depth0 [OF tree r(1)] by simp
  have "concat (map (\<lambda>j. strict_level n node d nb buf cnt ds (K - j) r) [0..<K]) =
      (if K - 1 \<in> set [0..<K] then strict_level n node d nb buf cnt ds 1 r else [])"
    by (rule concat_map_unique) (use 0 r in \<open>auto simp: strict_level_def\<close>)
  then show ?thesis using 0 r \<open>r = root\<close> node_tree_root [OF tree] by (simp add: strict_level_def)
next
  case (Suc a)
  then have "r \<noteq> root" using node_tree_depth0 [OF tree r(1)] by auto
  then obtain p where "bt_p (node r) = int p" using node_tree_parent [OF tree r(1)] by blast
  then have p: "bt_p (node r) \<noteq> -1" by simp
  have "concat (map (\<lambda>j. strict_level n node d nb buf cnt ds (K - j) r) [0..<K]) =
      strict_level n node d nb buf cnt ds (K - (K - Suc (d r))) r @ strict_level n node d nb buf cnt ds (K - Suc (K - Suc (d r))) r"
    by (rule concat_map_two) (use Suc r in \<open>auto simp: strict_level_def\<close>)
  then show ?thesis using Suc r p by (simp add: strict_level_def)
qed

lemma tree_levels:
  assumes tree: "node_tree n root node d" and r: "r < n" "d r < K"
  shows "split_entries nb buf cnt ds (node r) = concat (map (\<lambda>j. tree_level n node d nb buf cnt ds K j r) [0..<K + K])"
proof -
  have "[0..<K + K] = [0..<K] @ map (\<lambda>j. j + K) [0..<K]"
    using upt_add_eq_append [of 0 K K] by (simp add: map_add_upt)
  moreover have low: "map (\<lambda>j. tree_level n node d nb buf cnt ds K j r) [0..<K] = map (\<lambda>j. strict_level n node d nb buf cnt ds (K - j) r) [0..<K]"
    by (rule map_cong) (auto simp: tree_level_def)
  moreover have "map (\<lambda>j. tree_level n node d nb buf cnt ds K j r) (map (\<lambda>j. j + K) [0..<K]) = map (\<lambda>k. bcast_level n node d buf cnt ds k r) [0..<K]"
    by (simp add: tree_level_def comp_def)
  ultimately have "concat (map (\<lambda>j. tree_level n node d nb buf cnt ds K j r) [0..<K + K]) =
      concat (map (\<lambda>j. strict_level n node d nb buf cnt ds (K - j) r) [0..<K]) @
      concat (map (\<lambda>k. bcast_level n node d buf cnt ds k r) [0..<K])"
    by (simp only: map_append concat_append)
  also have "\<dots> = split_entries nb buf cnt ds (node r)"
    unfolding strict_levels [OF tree r] bcast_levels [OF tree r, symmetric, of buf cnt ds 0]
    by (simp add: split_entries_def bcast_tree_ops new_builder_def node_sends_def comp_def)
  finally show ?thesis by simp
qed

definition spread ::
    "nat \<Rightarrow> (nat \<Rightarrow> nat) \<Rightarrow> nat \<Rightarrow> loc \<Rightarrow> nat \<Rightarrow> nat \<Rightarrow> 'v list \<Rightarrow> (rank \<Rightarrow> 'v mem) \<Rightarrow> nat \<Rightarrow> (rank \<Rightarrow> 'v mem) \<Rightarrow> bool" where
  "spread n d nb buf cnt ds X M lev M' \<longleftrightarrow>
     (\<forall>r < n. d r \<le> lev \<longrightarrow> read_cells (M' r) buf cnt ds = X) \<and>
     (\<forall>r a. fst a < nb \<and> \<not> in_rng (buf, cnt * ds) a \<longrightarrow> M' r a = M r a)"

lemma spread_step:
  assumes tree: "node_tree n root node d" and ds: "0 < ds" and X: "length X = cnt"
    and I: "spread n d nb buf cnt ds X M k M'"
  shows "spread n d nb buf cnt ds X M (Suc k) (round_mem f (\<lambda>r. map fst (bcast_level n node d buf cnt ds k r)) M')"
proof -
  let ?seg = "\<lambda>r. map fst (bcast_level n node d buf cnt ds k r)"
  have inb: "inbox ?seg M' s c = (if s < n \<and> d s = k \<and> c < n \<and> bt_p (node c) = int s
      then read_cells (M' s) buf cnt ds else [])" for s c
    by (auto simp: inbox_def bcast_level_sends [OF tree])
  have new: "round_mem f ?seg M' r = write_cells (M' r) buf ds X" if r: "r < n" "d r = Suc k" for r
  proof -
    have "r \<noteq> root" using node_tree_root [OF tree] r(2) by auto
    then obtain p where p: "p < n" "bt_p (node r) = int p" "d r = Suc (d p)" using node_tree_parent [OF tree r(1)] by blast
    have seg: "?seg r = [Recv buf cnt ds p]" using r p by (simp add: bcast_level_def)
    have "read_cells (M' p) buf cnt ds = X" using I p r by (simp add: spread_def)
    then show ?thesis using r p by (simp add: round_mem_def seg recv_vals_def inb)
  qed
  have old: "round_mem f ?seg M' r = M' r" if "\<not> (r < n \<and> d r = Suc k)" for r
    using that by (auto simp: round_mem_def bcast_level_def fold_sends comp_def)
  have "read_cells (round_mem f ?seg M' r) buf cnt ds = X" if "r < n" "d r \<le> Suc k" for r
    using that new [of r] old [of r] I ds X by (cases "d r = Suc k") (auto simp: spread_def)
  moreover have "round_mem f ?seg M' r a = M r a" if a: "fst a < nb" "\<not> in_rng (buf, cnt * ds) a" for r a
  proof -
    have "M' r a = M r a" using I a unfolding spread_def by blast
    moreover have "write_cells (M' r) buf ds X a = M' r a" using a(2) ds X by (intro write_cells_outside [where cnt = cnt]) auto
    ultimately show ?thesis using new [of r] old [of r] by (cases "r < n \<and> d r = Suc k") auto
  qed
  ultimately show ?thesis by (simp add: spread_def)
qed

lemma split_race_free:
  assumes f: "abel_semigroup f" and nb: "fst buf < nb" and ds: "0 < ds"
  shows "race_free f (coll_start T n (\<lambda>r. split_entries nb buf cnt ds (node r)) M)"
proof -
  have one: "race_free_phase f [x]" for x by (simp add: race_free_phase_def)
  have "safe_phase (node_sends buf cnt ds t)" for t
    using ds by (auto simp: node_sends_def safe_phase_def op_size_ok_def ops_disj_def rngs_disj_def intro!: sorted_wrt_all)
  then have sends: "race_free_phase f (node_sends buf cnt ds t)" for t by (rule safe_phase_race_free)
  have "race_free_phase f ph" if mem: "ph \<in> set (phases (split_entries nb buf cnt ds t))" for ph t
  proof -
    obtain q where q: "q \<in> set (node_phases nb buf cnt ds t)" "ph \<in> set (split_phase q)"
      using mem unfolding split_entries_phases split_phases_def by auto
    then have "q = kid_recvs nb buf cnt ds t \<or> q = node_sends buf cnt ds t \<or> is_exchange q"
      unfolding node_phases_def is_exchange_def by (auto split: if_splits)
    moreover have "ph = q \<and> \<not> is_exchange q \<or> (\<exists>x. ph = [x])"
      using q(2) by (auto simp: split_phase_def is_exchange_def split: if_splits)
    ultimately have "ph = kid_recvs nb buf cnt ds t \<or> ph = node_sends buf cnt ds t \<or> (\<exists>x. ph = [x])" by blast
    then show ?thesis using one sends kid_recvs_race_free [OF f nb ds] by auto
  qed
  then show ?thesis by (auto simp: race_free_def coll_start_def split: if_splits)
qed

lemma split_tree_correct:
  assumes T: "fifo_transport T" and tree: "node_tree n root node d" and ds: "0 < ds" and f: "abel_semigroup f" and nb: "fst buf < nb"
  shows "coll_correct T f (coll_start T n (\<lambda>r. split_entries nb buf cnt ds (node r)) M)
    (\<lambda>M'. (\<forall>r < n. read_cells (M' r) buf cnt ds = red_elems f cnt (\<lambda>r. read_cells (M r) buf cnt ds) [0..<n]) \<and>
       (\<forall>r a. fst a < nb \<and> \<not> in_rng (buf, cnt * ds) a \<longrightarrow> M' r a = M r a))"
proof -
  define K where "K = Suc (Max (d ` {..<n}))"
  have K: "d r < K" if "r < n" for r using that unfolding K_def by (simp add: less_Suc_eq_le)
  let ?X = "red_elems f cnt (\<lambda>r. read_cells (M r) buf cnt ds) [0..<n]"
  let ?red = "reduced_to f n node d nb buf cnt ds M" and ?spr = "spread n d nb buf cnt ds ?X M"
  have top: "?spr 0 M'" if "?red 0 M'" for M'
  proof -
    have "\<forall>r a. fst a < nb \<and> \<not> in_rng (buf, cnt * ds) a \<longrightarrow> M' r a = M r a" using that unfolding reduced_to_def by blast
    then show ?thesis using reduced_to_root [OF tree that] node_tree_depth0 [OF tree] by (simp add: spread_def)
  qed
  show ?thesis
  proof (rule fifo_transport.rounds_invariant [OF T, where K = "K + K"
        and I = "\<lambda>j M'. (j \<le> K \<longrightarrow> ?red (K - j) M') \<and> (K \<le> j \<longrightarrow> ?spr (j - K) M')"
        and seg = "\<lambda>j r. map fst (tree_level n node d nb buf cnt ds K j r)" and E = "tree_level n node d nb buf cnt ds K"])
    show "race_free f (coll_start T n (\<lambda>r. split_entries nb buf cnt ds (node r)) M)" by (rule split_race_free [OF f nb ds])
    show "(0 \<le> K \<longrightarrow> ?red (K - 0) M) \<and> (K \<le> 0 \<longrightarrow> ?spr (0 - K) M)"
      using reduced_to_start [OF K] by (simp add: K_def)
    show "(Suc j \<le> K \<longrightarrow> ?red (K - Suc j) (round_mem f (\<lambda>r. map fst (tree_level n node d nb buf cnt ds K j r)) M')) \<and>
        (K \<le> Suc j \<longrightarrow> ?spr (Suc j - K) (round_mem f (\<lambda>r. map fst (tree_level n node d nb buf cnt ds K j r)) M'))"
      if I: "(j \<le> K \<longrightarrow> ?red (K - j) M') \<and> (K \<le> j \<longrightarrow> ?spr (j - K) M')" for j M'
    proof (cases "j < K")
      case True
      then have "?red (K - Suc j) (round_mem f (\<lambda>r. map fst (tree_level n node d nb buf cnt ds K j r)) M')"
        using reduced_to_step [OF tree ds f nb, of cnt M "K - Suc j" M'] I
        by (simp add: Suc_diff_Suc tree_level_def strict_level_seg)
      then show ?thesis using top True by (cases "K = Suc j") auto
    next
      case False
      then show ?thesis using spread_step [OF tree ds _, of ?X cnt nb buf M "j - K" M' f] I
        by (simp add: tree_level_def Suc_diff_le)
    qed
    show "(\<forall>r < n. read_cells (M' r) buf cnt ds = ?X) \<and> (\<forall>r a. fst a < nb \<and> \<not> in_rng (buf, cnt * ds) a \<longrightarrow> M' r a = M r a)"
      if "(K + K \<le> K \<longrightarrow> ?red (K - (K + K)) M') \<and> (K \<le> K + K \<longrightarrow> ?spr (K + K - K) M')" for M'
      using that K unfolding spread_def by (auto simp: less_imp_le)
    show "one_phase (tree_level n node d nb buf cnt ds K j r)" for j r
      using closed_one_phase by (auto simp: tree_level_def strict_level_def bcast_level_def one_phase_def dest!: in_set_butlastD)
    show "is_round n (\<lambda>r. map fst (tree_level n node d nb buf cnt ds K j r))" for j
      using reduce_level_round [OF tree] bcast_level_round [OF tree]
      by (cases "j < K") (simp_all add: is_round_def tree_level_def strict_level_seg)
  qed (use tree_levels [OF tree] K in auto)
qed

section \<open>The answer of the parent\<close>

lemma suffix_of_front: "suffix_of P (ph # rest) \<Longrightarrow> \<exists>q \<in> set P. set ph \<subseteq> set q"
proof -
  assume "suffix_of P (ph # rest)"
  then obtain j ph' where j: "ph # rest = drop_done ph' (drop (Suc j) P)" "set ph' \<subseteq> (if j < length P then set (P ! j) else {})"
    by (auto simp: suffix_of_def)
  show ?thesis
  proof (cases "ph' = []")
    case True
    then have "ph \<in> set (drop (Suc j) P)" using j(1) by (simp add: drop_done_def) (metis list.set_intros(1))
    then show ?thesis by (auto dest: in_set_dropD)
  next
    case False
    then have "ph = ph'" "j < length P" using j by (auto simp: drop_done_def split: if_splits)
    then show ?thesis using j(2) by (auto intro!: bexI [of _ "P ! j"])
  qed
qed

lemma node_phases_sends:
  assumes "distinct (kids t)"
  shows "filter (\<lambda>x. send_dst x = Some c) (concat (node_phases nb buf cnt ds t)) =
    (if bt_p t \<noteq> -1 \<and> nat (bt_p t) = c then [Send buf cnt ds c] else []) @ (if c \<in> set (kids t) then [Send buf cnt ds c] else [])"
proof -
  have "filter (\<lambda>x. send_dst x = Some c) (kid_recvs nb buf cnt ds t) = []" by (auto simp: filter_empty_conv dest: kid_recvs_no_send)
  moreover have "filter (\<lambda>x. send_dst x = Some c) (node_sends buf cnt ds t) = (if c \<in> set (kids t) then [Send buf cnt ds c] else [])"
    unfolding node_sends_def by (rule sends_to_all [OF assms]) simp
  ultimately show ?thesis by (simp add: node_phases_def)
qed

lemma node_phases_recvs:
  assumes "distinct (kids t)"
  shows "filter (\<lambda>x. recv_src x = Some s) (concat (node_phases nb buf cnt ds t)) =
    (if s \<in> set (kids t) then [RecvReduce buf cnt ds s (kid_buf nb cnt (if hd (kids t) = s then 0 else 1)) True] else []) @
    (if bt_p t \<noteq> -1 \<and> nat (bt_p t) = s then [Recv buf cnt ds s] else [])"
proof -
  have "filter (\<lambda>x. recv_src x = Some s) (node_sends buf cnt ds t) = []" by (simp add: node_sends_def filter_empty_conv)
  then show ?thesis using kid_recvs_from [OF assms, of s nb buf cnt ds] by (auto simp: node_phases_def)
qed

lemma node_phases_order:
  assumes "kids t \<noteq> []"
  shows "length (node_phases nb buf cnt ds t) - 1 < length (node_phases nb buf cnt ds t)"
    and "node_phases nb buf cnt ds t ! (length (node_phases nb buf cnt ds t) - 1) = node_sends buf cnt ds t"
  using assms by (simp_all add: node_phases_def nth_append)

lemma exchange_front:
  assumes run: "exec T f (coll_start T n (\<lambda>r. ops (reduce_bcast_tree (node r) buf cnt ds (new_builder nb))) M) g"
    and g: "progs g r = ph # rest" and ex: "is_exchange ph"
  shows "r < n" and "bt_p (node r) \<noteq> -1" and "ph = [Send buf cnt ds (nat (bt_p (node r))), Recv buf cnt ds (nat (bt_p (node r)))]"
proof -
  let ?g0 = "coll_start T n (\<lambda>r. ops (reduce_bcast_tree (node r) buf cnt ds (new_builder nb))) M"
  let ?P = "node_phases nb buf cnt ds (node r)"
  obtain x y where ph: "ph = [x, y]" "send_dst x \<noteq> None" "is_recv y" using ex by (auto simp: is_exchange_def is_recv_def)
  have "suffix_of (progs ?g0 r) (ph # rest)"
    using exec_suffix [OF run, of r] g by (simp add: coll_start_def phases_nonempty)
  then obtain ph0 where ph0: "ph0 \<in> set (progs ?g0 r)" "set ph \<subseteq> set ph0" using suffix_of_front by blast
  then show "r < n" by (auto simp: coll_start_def split: if_splits)
  then have "ph0 \<in> set ?P" "y \<in> set ph0" "x \<in> set ph0"
    using ph0 ph(1) by (simp_all add: coll_start_def reduce_bcast_phases)
  then show "bt_p (node r) \<noteq> -1" "ph = [Send buf cnt ds (nat (bt_p (node r))), Recv buf cnt ds (nat (bt_p (node r)))]"
    using ph kid_recvs_not_recv [of nb buf cnt ds "node r"] node_sends_not_recv [of buf cnt ds "node r"]
    by (auto simp: node_phases_def is_recv_def split: if_splits)
qed

lemma reduce_bcast_waits:
  assumes T: "fifo_transport T" and tree: "node_tree n root node d"
    and run: "exec T f (coll_start T n (\<lambda>r. ops (reduce_bcast_tree (node r) buf cnt ds (new_builder nb))) M) g"
  shows "answers_wait T g"
  unfolding answers_wait_def
proof (intro allI impI, elim conjE)
  fix r ph rest q
  assume g: "progs g r = ph # rest" and ex: "is_exchange ph" and src: "recv_src (ph ! 1) = Some q"
  let ?g0 = "coll_start T n (\<lambda>r. ops (reduce_bcast_tree (node r) buf cnt ds (new_builder nb))) M"
  let ?P = "\<lambda>r. node_phases nb buf cnt ds (node r)"
  have p0: "progs ?g0 r = (if r < n then ?P r else [])" for r by (simp add: coll_start_def reduce_bcast_phases)
  have suf: "suffix_of (progs ?g0 r) (progs g r)" for r
    by (rule exec_suffix [OF run]) (simp add: coll_start_def phases_nonempty)
  have net0: "tr_pending T (net ?g0) k = []" for k by (simp add: coll_start_def fifo_transport.idle [OF T])
  note cons = fifo_transport.exec_conserves [OF T run]
  note e = exchange_front [OF run g ex]
  from e have r: "r < n" and "r \<noteq> root" using node_tree_root [OF tree] by auto
  then obtain p where p: "p < n" "bt_p (node r) = int p" "d r = Suc (d p)" using node_tree_parent [OF tree r] by blast
  have q: "q = p" using src e(3) p(2) by simp
  note dist = node_tree_kids_distinct [OF tree]
  have kid: "r \<in> set (kids (node p))" using node_tree_kids [OF tree p(1), of r] r p(2) by simp
  have up: "p \<notin> set (kids (node r))" using node_tree_kids [OF tree r, of p] kid_depth(1) [OF tree, of p r] p(3) by auto
  have par: "\<not> (bt_p (node p) \<noteq> -1 \<and> nat (bt_p (node p)) = r)"
  proof
    assume "bt_p (node p) \<noteq> -1 \<and> nat (bt_p (node p)) = r"
    moreover from this have "p \<noteq> root" using node_tree_root [OF tree] by auto
    then obtain s where "bt_p (node p) = int s" "d p = Suc (d s)" using node_tree_parent [OF tree p(1)] by blast
    ultimately show False using p(3) by auto
  qed
  have start: "sends_left ?g0 r p = 1" "recvs_left ?g0 p r = 1" "sends_left ?g0 p r = 1" "recvs_left ?g0 r p = 1"
    unfolding sends_left_def recvs_left_def p0
    using r p e(2) kid up par node_phases_sends [OF dist] node_phases_recvs [OF dist] by simp_all
  have "Send buf cnt ds p \<in> set (filter (\<lambda>x. send_dst x = Some p) (concat (progs g r)))" using g e(3) p(2) by simp
  then have "0 < sends_left g r p" unfolding sends_left_def by (metis length_pos_if_in_set)
  then have "0 < recvs_left g p r" using cons [of r p] start net0 by simp
  then obtain y where y: "y \<in> set (concat (progs g p))" "recv_src y = Some r"
    unfolding recvs_left_def by (metis (mono_tags, lifting) filter_False length_greater_0_conv)
  have "Send buf cnt ds r \<in> set (concat (progs g p))"
  proof (rule ccontr)
    assume no: "Send buf cnt ds r \<notin> set (concat (progs g p))"
    have ne: "kids (node p) \<noteq> []" using kid by auto
    note ord = node_phases_order [OF ne, of nb buf cnt ds]
    have "y \<notin> set (concat (progs g p))"
    proof (rule suffix_of_order [OF suf [of p], of "length (?P p) - 1" "Send buf cnt ds r"])
      show "y \<notin> set (progs ?g0 p ! i)" if "length (?P p) - 1 \<le> i" "i < length (progs ?g0 p)" for i
      proof -
        have "i = length (?P p) - 1" using that p(1) ord(1) by (simp add: p0)
        then show ?thesis using ord(2) y(2) p(1) by (auto simp: p0 node_sends_def)
      qed
    qed (use no ord p(1) kid in \<open>simp_all add: p0 node_sends_def\<close>)
    then show False using y(1) by simp
  qed
  then have "Send buf cnt ds r \<in> set (filter (\<lambda>x. send_dst x = Some r) (concat (progs g p)))" by simp
  then have "0 < sends_left g p r" unfolding sends_left_def by (metis length_pos_if_in_set)
  moreover have "sends_left g p r + length (tr_pending T (net g) (p, r)) = recvs_left g r p" using cons [of p r] start net0 by simp
  moreover have "recvs_left g r p \<le> 1" using recvs_left_mono [OF run, of r p] start(4) by simp
  ultimately have "length (tr_pending T (net g) (p, r)) = 0" by linarith
  then show "tr_pending T (net g) (q, r) = []" using q by simp
qed

lemma tree_allreduce_correct:
  assumes "fifo_transport T" and "node_tree n root node d" and "0 < ds" and "abel_semigroup f" and "fst buf < nb"
  shows "coll_correct T f (coll_start T n (\<lambda>r. ops (reduce_bcast_tree (node r) buf cnt ds (new_builder nb))) M)
    (\<lambda>M'. (\<forall>r < n. read_cells (M' r) buf cnt ds = red_elems f cnt (\<lambda>r. read_cells (M r) buf cnt ds) [0..<n]) \<and>
       (\<forall>r a. fst a < nb \<and> \<not> in_rng (buf, cnt * ds) a \<longrightarrow> M' r a = M r a))"
proof (rule fifo_transport.split_correct [OF assms(1) _ reduce_bcast_clear])
  show "answers_wait T g" if "exec T f (coll_start T n (\<lambda>r. ops (reduce_bcast_tree (node r) buf cnt ds (new_builder nb))) M) g" for g
    by (rule reduce_bcast_waits [OF assms(1,2) that])
qed (unfold split_start, rule split_tree_correct [OF assms])

end
