(* ===== verification/CollDoubleTree.thy ===== *)
theory CollDoubleTree
  imports CollTreeAllreduce CollParam
begin

text \<open>
  The double tree algorithms: \<^verbatim>\<open>ccl_coll_build_double_tree_op\<close> of \<^verbatim>\<open>src/src/coll/algorithms/double_tree_ops.cpp\<close>. The elements are
  split in two halves, one for each tree, and each half in partitions; every partition is a sub-schedule
  of its own with an operation id, an 8 bit number that is part of the tags of its messages. Sub-schedules therefore
  do not mix their messages, and what is shown of each of them is its correctness as a collective of
  all ranks, in every interleaving, together with the fact that the partitions divide the buffer.
\<close>

section \<open>Builder\<close>

text \<open>
  An entry of the schedule: an ordinary one, or a sub-schedule with its operation id. A sub-schedule allocates at most two
  buffers; those of partition \<open>op_id\<close> are numbered from \<open>nb + 2 * op_id\<close>, so that no two sub-schedules share one.
\<close>

datatype dt_entry = Op sched_op | Subsched nat builder

definition double_tree_iteration ::
    "ccl_coll_type \<Rightarrow> rank \<Rightarrow> nat \<Rightarrow> ccl_double_tree \<Rightarrow> nat \<Rightarrow> nat \<Rightarrow> nat \<Rightarrow> loc \<Rightarrow> nat \<Rightarrow> loc \<Rightarrow> nat \<Rightarrow> dt_entry list result" where
  "double_tree_iteration coll_type rank ds dtree nb t1_op_id t2_op_id t1_work_buf t1_work_count t2_work_buf t2_work_count =
     (let sub = (\<lambda>build op_id tree work_buf work_count.
            Subsched (op_id mod 256) (build tree work_buf work_count ds (new_builder (nb + 2 * op_id))));
          t1 = (\<lambda>build. sub build t1_op_id (T1 dtree) t1_work_buf t1_work_count);
          t2 = (\<lambda>build. sub build t2_op_id (T2 dtree) t2_work_buf t2_work_count)
      in case coll_type of
           coll_bcast \<Rightarrow> Inr [t1 bcast_tree, t2 bcast_tree]
         | coll_broadcast \<Rightarrow> Inr [t1 bcast_tree, t2 bcast_tree]
         | coll_reduce \<Rightarrow>
             if rank mod 2 = 0 then Inr [t2 reduce_tree, t1 reduce_tree] else Inr [t2 reduce_tree, t1 reduce_tree]
         | coll_allreduce \<Rightarrow>
             if rank mod 2 = 0 then Inr [t2 reduce_bcast_tree, t1 reduce_bcast_tree]
             else Inr [t1 reduce_bcast_tree, t2 reduce_bcast_tree]
         | _ \<Rightarrow> Inl (CclFatal ''unsupported double tree op''))"

text \<open>The loop over the partitions, with the buffers of both trees moving on.\<close>

fun double_tree_loop ::
    "ccl_coll_type \<Rightarrow> rank \<Rightarrow> nat \<Rightarrow> ccl_double_tree \<Rightarrow> nat \<Rightarrow> nat \<Rightarrow> nat \<Rightarrow> nat \<Rightarrow> nat list \<Rightarrow> loc \<Rightarrow> loc \<Rightarrow>
     (dt_entry \<times> bool) list \<Rightarrow> (dt_entry \<times> bool) list result" where
  "double_tree_loop coll_type rank ds dtree nb parts t1_count t2_count [] t1_work_buf t2_work_buf es = Inr es"
| "double_tree_loop coll_type rank ds dtree nb parts t1_count t2_count (iter # iters) t1_work_buf t2_work_buf es =
     (let t1_work_count = t1_count div parts + (if iter < t1_count mod parts then 1 else 0);
          t2_work_count = t2_count div parts + (if iter < t2_count mod parts then 1 else 0)
      in rbind (double_tree_iteration coll_type rank ds dtree nb iter (parts + iter)
                  t1_work_buf t1_work_count t2_work_buf t2_work_count)
           (\<lambda>new. double_tree_loop coll_type rank ds dtree nb parts t1_count t2_count iters
                    (loc_add t1_work_buf (t1_work_count * ds)) (loc_add t2_work_buf (t2_work_count * ds))
                    (es @ map (\<lambda>e. (e, False)) new)))"

definition dtree_parts :: "int \<Rightarrow> nat" where
  "dtree_parts dtree_partition_count =
     (if dtree_partition_count \<noteq> -1 then nat (to_size_t dtree_partition_count) else 1)"

definition ccl_coll_build_double_tree_op ::
    "ccl_coll_type \<Rightarrow> loc \<Rightarrow> loc \<Rightarrow> nat \<Rightarrow> nat \<Rightarrow> ccl_double_tree \<Rightarrow> rank \<Rightarrow> int \<Rightarrow> nat \<Rightarrow> (dt_entry \<times> bool) list result" where
  "ccl_coll_build_double_tree_op coll_type send_buf recv_buf num ds dtree rank dtree_partition_count nb =
     (let es = (if coll_type \<noteq> coll_bcast \<and> send_buf \<noteq> recv_buf
                then [(Op (Copy send_buf recv_buf num ds), True)] else []);
          t1_count = num div 2;
          t2_count = num - t1_count;
          t1_start = recv_buf;
          t2_start = loc_add t1_start (t1_count * ds);
          parts = dtree_parts dtree_partition_count
      in if parts = 0 then Inl (CclUndefined ''division by zero'')
         else rbind (double_tree_loop coll_type rank ds dtree nb parts t1_count t2_count [0..<parts] t1_start t2_start es)
                (\<lambda>es. Inr (butlast es @ [(fst (last es), True)])))"

section \<open>Partitions and sub-schedules\<close>

text \<open>Where the partition of an operation id starts, and its number of elements.\<close>

definition part_off :: "nat \<Rightarrow> nat \<Rightarrow> nat \<Rightarrow> nat" where
  "part_off c parts k = k * (c div parts) + min k (c mod parts)"

definition part_cnt :: "nat \<Rightarrow> nat \<Rightarrow> nat \<Rightarrow> nat" where
  "part_cnt c parts k = c div parts + (if k < c mod parts then 1 else 0)"

definition op_off :: "nat \<Rightarrow> nat \<Rightarrow> nat \<Rightarrow> nat" where
  "op_off num parts op_id =
     (if op_id < parts then part_off (num div 2) parts op_id
      else num div 2 + part_off (num - num div 2) parts (op_id - parts))"

definition op_cnt :: "nat \<Rightarrow> nat \<Rightarrow> nat \<Rightarrow> nat" where
  "op_cnt num parts op_id =
     (if op_id < parts then part_cnt (num div 2) parts op_id else part_cnt (num - num div 2) parts (op_id - parts))"

definition subscheds :: "(dt_entry \<times> bool) list \<Rightarrow> (nat \<times> builder) list" where
  "subscheds es = concat (map (\<lambda>e. case fst e of Subsched i b \<Rightarrow> [(i, b)] | Op x \<Rightarrow> []) es)"

definition sub_ops :: "(dt_entry \<times> bool) list \<Rightarrow> nat \<Rightarrow> (sched_op \<times> bool) list" where
  "sub_ops es op_id = (case map_of (subscheds es) op_id of None \<Rightarrow> [] | Some b \<Rightarrow> ops b)"

lemma part_off_0 [simp]: "part_off c parts 0 = 0"
  by (simp add: part_off_def)

lemma part_off_Suc: "part_off c parts (Suc k) = part_off c parts k + part_cnt c parts k"
  by (auto simp: part_off_def part_cnt_def)

lemma part_off_all: "0 < parts \<Longrightarrow> part_off c parts parts = c"
proof -
  assume "0 < parts"
  then have "min parts (c mod parts) = c mod parts" using mod_less_divisor [of parts c] by (simp add: min_absorb2 less_imp_le)
  then show ?thesis by (simp add: part_off_def)
qed

lemma part_off_mono: "j \<le> k \<Longrightarrow> part_off c parts j \<le> part_off c parts k"
  by (auto simp: part_off_def min_def intro: add_mono mult_le_mono1)

lemma part_of:
  "i < part_off c parts K \<Longrightarrow> \<exists>k < K. part_off c parts k \<le> i \<and> i < part_off c parts k + part_cnt c parts k"
proof (induction K)
  case (Suc K)
  show ?case
  proof (cases "i < part_off c parts K")
    case True
    then show ?thesis using Suc.IH less_SucI by blast
  next
    case False
    then show ?thesis using Suc.prems by (intro exI [of _ K]) (simp add: part_off_Suc)
  qed
qed simp

lemma op_parts_unique:
  assumes "0 < parts" and "i < num"
  shows "\<exists>!op_id. op_id < 2 * parts \<and> op_off num parts op_id \<le> i \<and> i < op_off num parts op_id + op_cnt num parts op_id"
proof -
  have step: "part_off c parts j + part_cnt c parts j \<le> part_off c parts k" if "j < k" for c j k
    using part_off_mono [of "Suc j" k c parts] that by (simp add: part_off_Suc)
  have bound: "part_off c parts k + part_cnt c parts k \<le> c" if "k < parts" for c k
    using step [OF that, of c] part_off_all [OF assms(1), of c] by simp
  have sep: "op_off num parts j + op_cnt num parts j \<le> op_off num parts k" if "j < k" "k < 2 * parts" for j k
    using that step [of j k "num div 2"] step [of "j - parts" "k - parts" "num - num div 2"] bound [of j "num div 2"]
    by (auto simp: op_off_def op_cnt_def)
  have "\<exists>op_id < 2 * parts. op_off num parts op_id \<le> i \<and> i < op_off num parts op_id + op_cnt num parts op_id"
  proof (cases "i < num div 2")
    case True
    then obtain k where "k < parts" "part_off (num div 2) parts k \<le> i" "i < part_off (num div 2) parts k + part_cnt (num div 2) parts k"
      using part_of [of i "num div 2" parts parts] part_off_all [OF assms(1)] by auto
    then show ?thesis by (intro exI [of _ k]) (simp add: op_off_def op_cnt_def)
  next
    case False
    let ?c = "num - num div 2"
    have "i - num div 2 < part_off ?c parts parts" using False assms part_off_all [OF assms(1)] by simp
    then obtain k where "k < parts" "part_off ?c parts k \<le> i - num div 2" "i - num div 2 < part_off ?c parts k + part_cnt ?c parts k"
      using part_of by blast
    then have "num div 2 + part_off ?c parts k \<le> i" "i < num div 2 + part_off ?c parts k + part_cnt ?c parts k" using False by linarith+
    then show ?thesis using \<open>k < parts\<close> by (intro exI [of _ "parts + k"]) (simp add: op_off_def op_cnt_def)
  qed
  moreover have "j = k" if "j < 2 * parts" "op_off num parts j \<le> i" "i < op_off num parts j + op_cnt num parts j"
      "k < 2 * parts" "op_off num parts k \<le> i" "i < op_off num parts k + op_cnt num parts k" for j k
    using sep [of j k] sep [of k j] that by (cases j k rule: linorder_cases) auto
  ultimately show ?thesis by (intro ex_ex1I) auto
qed

section \<open>The entries of the schedule\<close>

text \<open>The builder of a sub-schedule and which of the trees comes first, by the collective.\<close>

definition tree_builder :: "ccl_coll_type \<Rightarrow> ccl_bin_tree \<Rightarrow> loc \<Rightarrow> nat \<Rightarrow> nat \<Rightarrow> builder \<Rightarrow> builder" where
  "tree_builder coll_type =
     (if coll_type = coll_reduce then reduce_tree else if coll_type = coll_allreduce then reduce_bcast_tree else bcast_tree)"

definition second_first :: "ccl_coll_type \<Rightarrow> rank \<Rightarrow> bool" where
  "second_first coll_type rank \<longleftrightarrow> coll_type = coll_reduce \<or> coll_type = coll_allreduce \<and> even rank"

definition tree_coll :: "ccl_coll_type \<Rightarrow> bool" where
  "tree_coll coll_type \<longleftrightarrow> coll_type \<in> {coll_bcast, coll_broadcast, coll_reduce, coll_allreduce}"

text \<open>The sub-schedule of an operation id, and those of a partition in their order.\<close>

definition dt_sub :: "ccl_coll_type \<Rightarrow> loc \<Rightarrow> nat \<Rightarrow> nat \<Rightarrow> ccl_double_tree \<Rightarrow> nat \<Rightarrow> nat \<Rightarrow> nat \<Rightarrow> builder" where
  "dt_sub coll_type buf num ds dtree parts nb op_id =
     tree_builder coll_type (if op_id < parts then T1 dtree else T2 dtree)
       (loc_add buf (op_off num parts op_id * ds)) (op_cnt num parts op_id) ds (new_builder (nb + 2 * op_id))"

definition dt_order :: "ccl_coll_type \<Rightarrow> rank \<Rightarrow> nat \<Rightarrow> nat \<Rightarrow> nat list" where
  "dt_order coll_type rank parts k = (if second_first coll_type rank then [parts + k, k] else [k, parts + k])"

lemma double_tree_iteration_eq:
  assumes "tree_coll coll_type" and "k < parts"
  shows "double_tree_iteration coll_type rank ds dtree nb k (parts + k)
      (loc_add buf (op_off num parts k * ds)) (op_cnt num parts k)
      (loc_add buf (op_off num parts (parts + k) * ds)) (op_cnt num parts (parts + k)) =
    Inr (map (\<lambda>i. Subsched (i mod 256) (dt_sub coll_type buf num ds dtree parts nb i)) (dt_order coll_type rank parts k))"
  using assms by (auto simp: double_tree_iteration_def tree_coll_def dt_order_def dt_sub_def tree_builder_def second_first_def Let_def even_iff_mod_2_eq_zero)

lemma double_tree_loop_eq:
  assumes "tree_coll coll_type" and "k \<le> parts"
  shows "double_tree_loop coll_type rank ds dtree nb parts (num div 2) (num - num div 2) [k..<parts]
      (loc_add buf (part_off (num div 2) parts k * ds)) (loc_add buf ((num div 2 + part_off (num - num div 2) parts k) * ds)) es =
    Inr (es @ map (\<lambda>i. (Subsched (i mod 256) (dt_sub coll_type buf num ds dtree parts nb i), False))
      (concat (map (dt_order coll_type rank parts) [k..<parts])))"
  using assms(2)
proof (induction "parts - k" arbitrary: k es)
  case (Suc x)
  then have k: "k < parts" by simp
  have off: "op_off num parts k = part_off (num div 2) parts k" "op_off num parts (parts + k) = num div 2 + part_off (num - num div 2) parts k"
    "op_cnt num parts k = part_cnt (num div 2) parts k" "op_cnt num parts (parts + k) = part_cnt (num - num div 2) parts k"
    using k by (simp_all add: op_off_def op_cnt_def)
  note it = double_tree_iteration_eq [OF assms(1) k, of rank ds dtree nb buf num, unfolded off]
  have "x = parts - Suc k" "Suc k \<le> parts" using Suc by auto
  note IH = Suc.hyps(1) [OF this]
  show ?case
    unfolding upt_conv_Cons [OF k] double_tree_loop.simps Let_def part_cnt_def [symmetric] it
    using IH by (simp add: loc_add_add part_off_Suc algebra_simps comp_def)
qed simp

definition dt_ids :: "ccl_coll_type \<Rightarrow> rank \<Rightarrow> nat \<Rightarrow> nat list" where
  "dt_ids coll_type rank parts = concat (map (dt_order coll_type rank parts) [0..<parts])"

definition dt_entries ::
    "ccl_coll_type \<Rightarrow> loc \<Rightarrow> loc \<Rightarrow> nat \<Rightarrow> nat \<Rightarrow> ccl_double_tree \<Rightarrow> rank \<Rightarrow> nat \<Rightarrow> nat \<Rightarrow> (dt_entry \<times> bool) list" where
  "dt_entries coll_type send_buf recv_buf num ds dtree rank parts nb =
     (let xs = map (\<lambda>i. Subsched (i mod 256) (dt_sub coll_type recv_buf num ds dtree parts nb i)) (dt_ids coll_type rank parts)
      in (if coll_type \<noteq> coll_bcast \<and> send_buf \<noteq> recv_buf then [(Op (Copy send_buf recv_buf num ds), True)] else []) @
         map (\<lambda>e. (e, False)) (butlast xs) @ [(last xs, True)])"

lemma dt_ids_set: "set (dt_ids coll_type rank parts) = {..<2 * parts}"
proof
  show "set (dt_ids coll_type rank parts) \<subseteq> {..<2 * parts}" by (auto simp: dt_ids_def dt_order_def)
  show "{..<2 * parts} \<subseteq> set (dt_ids coll_type rank parts)"
  proof
    fix i assume "i \<in> {..<2 * parts}"
    then have "(if i < parts then i else i - parts) < parts" "i \<in> set (dt_order coll_type rank parts (if i < parts then i else i - parts))"
      by (auto simp: dt_order_def)
    then show "i \<in> set (dt_ids coll_type rank parts)" unfolding dt_ids_def by (auto intro!: bexI)
  qed
qed

lemma dt_ids_distinct: "distinct (dt_ids coll_type rank parts)"
proof (rule card_distinct)
  have "length (concat (map (dt_order coll_type rank parts) ks)) = 2 * length ks" for ks
    by (induction ks) (simp_all add: dt_order_def)
  then show "card (set (dt_ids coll_type rank parts)) = length (dt_ids coll_type rank parts)"
    using dt_ids_set [of coll_type rank parts] by (simp add: dt_ids_def)
qed

lemma double_tree_op_eq:
  assumes "tree_coll coll_type" and "0 < dtree_parts pc"
  shows "ccl_coll_build_double_tree_op coll_type send_buf recv_buf num ds dtree rank pc nb =
    Inr (dt_entries coll_type send_buf recv_buf num ds dtree rank (dtree_parts pc) nb)"
proof -
  have "0 \<in> set (dt_ids coll_type rank (dtree_parts pc))" using assms(2) by (simp add: dt_ids_set)
  then have ne: "dt_ids coll_type rank (dtree_parts pc) \<noteq> []" by auto
  show ?thesis
    using assms(2) ne double_tree_loop_eq [OF assms(1), of 0 "dtree_parts pc" rank ds dtree nb num recv_buf]
    by (simp add: ccl_coll_build_double_tree_op_def dt_entries_def Let_def dt_ids_def [symmetric] butlast_append
        map_butlast last_map loc_add_def comp_def)
qed

lemma subscheds_append: "subscheds (xs @ ys) = subscheds xs @ subscheds ys"
  by (simp add: subscheds_def)

lemma subscheds_map:
  "subscheds (map (\<lambda>e. (e, b)) (map (\<lambda>i. Subsched (g i) (h i)) js)) = map (\<lambda>i. (g i, h i)) js"
  by (induction js) (simp_all add: subscheds_def)

lemma subscheds_entries:
  assumes "0 < parts"
  shows "subscheds (dt_entries coll_type send_buf recv_buf num ds dtree rank parts nb) =
    map (\<lambda>i. (i mod 256, dt_sub coll_type recv_buf num ds dtree parts nb i)) (dt_ids coll_type rank parts)"
proof -
  let ?h = "\<lambda>i. Subsched (i mod 256) (dt_sub coll_type recv_buf num ds dtree parts nb i)"
  have "0 \<in> set (dt_ids coll_type rank parts)" using assms by (simp add: dt_ids_set)
  then obtain ys y where ys: "dt_ids coll_type rank parts = ys @ [y]" by (metis rev_exhaust empty_iff list.set(1))
  have pre: "subscheds (if c then [(Op x, True)] else []) = []" for c x by (simp add: subscheds_def)
  show ?thesis
    using subscheds_map [where b = False and js = ys] subscheds_map [where b = True and js = "[y]"]
    unfolding dt_entries_def Let_def ys subscheds_append pre by (simp add: subscheds_append)
qed

lemma sub_ops_entries:
  assumes "0 < parts" and "parts \<le> 128" and "op_id < 2 * parts"
  shows "sub_ops (dt_entries coll_type send_buf recv_buf num ds dtree rank parts nb) op_id =
    ops (dt_sub coll_type recv_buf num ds dtree parts nb op_id)"
proof -
  have "map (\<lambda>i. (i mod 256, dt_sub coll_type recv_buf num ds dtree parts nb i)) (dt_ids coll_type rank parts) =
      map (\<lambda>i. (i, dt_sub coll_type recv_buf num ds dtree parts nb i)) (dt_ids coll_type rank parts)"
    using assms(2) by (intro map_cong) (auto simp: dt_ids_set)
  moreover have "map_of (map (\<lambda>i. (i, dt_sub coll_type recv_buf num ds dtree parts nb i)) (dt_ids coll_type rank parts)) op_id =
      Some (dt_sub coll_type recv_buf num ds dtree parts nb op_id)"
    using assms(3) by (simp add: map_of_map_restrict dt_ids_set)
  ultimately show ?thesis unfolding sub_ops_def subscheds_entries [OF assms(1)] by (simp only: option.case)
qed

section \<open>The memory the sub-schedules start with\<close>

definition first_ops :: "(dt_entry \<times> bool) list \<Rightarrow> sched_op list" where
  "first_ops es = concat (map (\<lambda>e. case fst e of Op x \<Rightarrow> [x] | Subsched i b \<Rightarrow> []) es)"

definition after_first :: "('v \<Rightarrow> 'v \<Rightarrow> 'v) \<Rightarrow> (dt_entry \<times> bool) list \<Rightarrow> 'v mem \<Rightarrow> 'v mem" where
  "after_first f es m = fold (\<lambda>x. apply_op f x []) (first_ops es) m"

lemma after_first_entries:
  assumes "0 < parts"
  shows "after_first f (dt_entries coll_type send_buf recv_buf num ds dtree rank parts nb) m =
    (if coll_type \<noteq> coll_bcast \<and> send_buf \<noteq> recv_buf then do_regular_copy m send_buf recv_buf num ds else m)"
proof -
  have "0 \<in> set (dt_ids coll_type rank parts)" using assms by (simp add: dt_ids_set)
  then have ne: "dt_ids coll_type rank parts \<noteq> []" by auto
  have no: "concat (map (\<lambda>e. case fst e of Op x \<Rightarrow> [x] | Subsched i b \<Rightarrow> []) (map (\<lambda>e. (e, b)) (map (\<lambda>i. Subsched (g i) (h i)) js))) = []" for g h b js
    by (induction js) simp_all
  have "first_ops (dt_entries coll_type send_buf recv_buf num ds dtree rank parts nb) =
      (if coll_type \<noteq> coll_bcast \<and> send_buf \<noteq> recv_buf then [Copy send_buf recv_buf num ds] else [])"
    using ne no by (simp add: first_ops_def dt_entries_def Let_def map_butlast [symmetric] last_map)
  then show ?thesis by (simp add: after_first_def)
qed

lemma op_part_inside:
  assumes "0 < parts" and "op_id < 2 * parts"
  shows "op_off num parts op_id + op_cnt num parts op_id \<le> num"
proof -
  have "part_off c parts k + part_cnt c parts k \<le> c" if "k < parts" for c k
    using part_off_mono [of "Suc k" parts c parts] part_off_all [OF assms(1), of c] that by (simp add: part_off_Suc)
  note part = this [of op_id "num div 2"] this [of "op_id - parts" "num - num div 2"]
  show ?thesis
  proof (cases "op_id < parts")
    case False
    then have "op_id - parts < parts" using assms(2) by simp
    with part(2) False show ?thesis by (simp add: op_off_def op_cnt_def) linarith
  qed (use part(1) in \<open>simp add: op_off_def op_cnt_def\<close>)
qed

lemma read_part_of_copy:
  assumes "0 < ds" and "off + c \<le> num"
  shows "read_cells (do_regular_copy m l l' num ds) (loc_add l' (off * ds)) c ds = read_cells m (loc_add l (off * ds)) c ds"
proof (rule nth_equalityI)
  fix i assume "i < length (read_cells (do_regular_copy m l l' num ds) (loc_add l' (off * ds)) c ds)"
  then have i: "i < c" by simp
  have "loc_add (loc_add x (off * ds)) (i * ds) = loc_add x ((off + i) * ds)" for x by (simp add: loc_add_add algebra_simps)
  then show "read_cells (do_regular_copy m l l' num ds) (loc_add l' (off * ds)) c ds ! i = read_cells m (loc_add l (off * ds)) c ds ! i"
    using i assms write_cells_at [of "off + i" "read_cells m l num ds" ds m l'] by simp
qed simp

section \<open>Broadcast and reduction\<close>

text \<open>The partition of an operation id as a byte range.\<close>

definition part_rng :: "loc \<Rightarrow> nat \<Rightarrow> nat \<Rightarrow> nat \<Rightarrow> nat \<Rightarrow> rng" where
  "part_rng buf num ds parts op_id = (loc_add buf (op_off num parts op_id * ds), op_cnt num parts op_id * ds)"

lemma dtree_nodes:
  assumes "rt < n"
  shows "\<exists>d. node_tree n rt (\<lambda>r. if main then T1 (dtree_for_root rt n r) else T2 (dtree_for_root rt n r)) d"
  using rooted_tree_spans [OF assms, of main] by (cases main) (simp_all add: node_tree_def dtree_for_root_nodes)

lemma dt_sub_nodes:
  "dt_sub coll_type buf num ds (dtree_for_root rt n r) parts nb op_id =
     tree_builder coll_type (if op_id < parts then T1 (dtree_for_root rt n r) else T2 (dtree_for_root rt n r))
       (fst (part_rng buf num ds parts op_id)) (op_cnt num parts op_id) ds (new_builder (nb + 2 * op_id))"
  by (simp add: dt_sub_def part_rng_def)

text \<open>The number of partitions that the operation ids, 8 bits, can tell apart.\<close>

definition good_parts :: "int \<Rightarrow> bool" where
  "good_parts pc \<longleftrightarrow> 0 < dtree_parts pc \<and> dtree_parts pc \<le> 128"

lemma coll_correct_weaken:
  "coll_correct T f g Q \<Longrightarrow> (\<And>M. Q M \<Longrightarrow> Q' M) \<Longrightarrow> coll_correct T f g Q'"
  unfolding coll_correct_def by blast

text \<open>What holds of a tree builder on every tree holds of the sub-schedules; they start when the copy is done.\<close>

lemma double_tree_lift:
  assumes c: "tree_coll coll_type" and rt: "rt < n" and gp: "good_parts pc"
    and sub: "\<And>op_id node d M1. op_id < 2 * dtree_parts pc \<Longrightarrow> node_tree n rt node d \<Longrightarrow>
      coll_correct T f (coll_start T n (\<lambda>r. ops (tree_builder coll_type (node r) (fst (part_rng recv_buf num ds (dtree_parts pc) op_id))
        (op_cnt num (dtree_parts pc) op_id) ds (new_builder (nb + 2 * op_id)))) M1) (Q op_id M1)"
  obtains es where "\<forall>r < n. ccl_coll_build_double_tree_op coll_type send_buf recv_buf num ds (dtree_for_root rt n r) r pc nb = Inr (es r)"
    and "\<forall>r m. after_first f (es r) m =
      (if coll_type \<noteq> coll_bcast \<and> send_buf \<noteq> recv_buf then do_regular_copy m send_buf recv_buf num ds else m)"
    and "\<forall>op_id < 2 * dtree_parts pc.
      coll_correct T f (coll_start T n (\<lambda>r. sub_ops (es r) op_id) (\<lambda>r. after_first f (es r) (M r))) (Q op_id (\<lambda>r. after_first f (es r) (M r)))"
proof -
  let ?p = "dtree_parts pc"
  let ?es = "\<lambda>r. dt_entries coll_type send_buf recv_buf num ds (dtree_for_root rt n r) r ?p nb"
  have p: "0 < ?p" "?p \<le> 128" using gp by (simp_all add: good_parts_def)
  have "coll_correct T f (coll_start T n (\<lambda>r. sub_ops (?es r) op_id) M1) (Q op_id M1)" if op: "op_id < 2 * ?p" for op_id M1
  proof -
    let ?node = "\<lambda>r. if op_id < ?p then T1 (dtree_for_root rt n r) else T2 (dtree_for_root rt n r)"
    obtain d where tree: "node_tree n rt ?node d" using dtree_nodes [OF rt, of "op_id < ?p"] by blast
    show ?thesis using sub [OF op tree, of M1] by (simp only: sub_ops_entries [OF p op] dt_sub_nodes)
  qed
  then show thesis using that [of ?es] double_tree_op_eq [OF c p(1)] after_first_entries [OF p(1)] by blast
qed

text \<open>The elements of a partition after the copy are those of the send buffer.\<close>

lemma part_after_copy:
  assumes "0 < ds" and "good_parts pc" and "op_id < 2 * dtree_parts pc"
  shows "read_cells (if b \<and> send_buf \<noteq> recv_buf then do_regular_copy m send_buf recv_buf num ds else m)
      (fst (part_rng recv_buf num ds (dtree_parts pc) op_id)) (op_cnt num (dtree_parts pc) op_id) ds =
    read_cells m (fst (part_rng (if b then send_buf else recv_buf) num ds (dtree_parts pc) op_id)) (op_cnt num (dtree_parts pc) op_id) ds"
  using read_part_of_copy [OF assms(1) op_part_inside [OF _ assms(3)], where m = m and l = send_buf and l' = recv_buf and num = num] assms(2)
  by (auto simp: part_rng_def good_parts_def simp del: entry_defs)

lemma part_start_buf: "fst buf < nb \<Longrightarrow> fst (fst (part_rng buf num ds parts op_id)) < nb + k"
  by (simp add: part_rng_def loc_add_def)

lemma part_rng_eq: "(fst (part_rng buf num ds parts op_id), op_cnt num parts op_id * ds) = part_rng buf num ds parts op_id"
  by (simp add: part_rng_def)

text \<open>
  C14: The double tree broadcast broadcasts. Every rank builds a schedule; for each of its sub-schedules, in every interleaving of
  the ranks, the ranks finish and all have the elements of the root in the partition of the sub-schedule, where the root took
  them from its buffer, or from its send buffer for the variant with two buffers; outside the partition nothing
  changes. The partitions divide the buffer: every element is in exactly one of them. The operation ids of up to 128
  partitions per tree are different.
\<close>

theorem double_tree_bcast_correct:
  assumes "fifo_transport T" and "rt < n" and "0 < ds" and "good_parts pc"
    and "coll_type = coll_bcast \<or> coll_type = coll_broadcast"
  shows "\<exists>es. (\<forall>r < n. ccl_coll_build_double_tree_op coll_type send_buf buf num ds (dtree_for_root rt n r) r pc nb = Inr (es r)) \<and>
    (\<forall>op_id < 2 * dtree_parts pc.
       coll_correct T f (coll_start T n (\<lambda>r. sub_ops (es r) op_id) (\<lambda>r. after_first f (es r) (M r)))
         (\<lambda>M'. \<forall>r < n. read_cells (M' r) (fst (part_rng buf num ds (dtree_parts pc) op_id)) (op_cnt num (dtree_parts pc) op_id) ds =
              read_cells (M rt) (fst (part_rng (if coll_type = coll_bcast then buf else send_buf) num ds (dtree_parts pc) op_id))
                (op_cnt num (dtree_parts pc) op_id) ds \<and>
            (\<forall>a. \<not> in_rng (part_rng buf num ds (dtree_parts pc) op_id) a \<longrightarrow> M' r a = after_first f (es r) (M r) a))) \<and>
    (\<forall>i < num. \<exists>!op_id. op_id < 2 * dtree_parts pc \<and>
       op_off num (dtree_parts pc) op_id \<le> i \<and> i < op_off num (dtree_parts pc) op_id + op_cnt num (dtree_parts pc) op_id)"
proof -
  let ?p = "dtree_parts pc"
  let ?l = "\<lambda>op_id. fst (part_rng buf num ds ?p op_id)" and ?c = "op_cnt num ?p"
  have c: "tree_coll coll_type" "tree_builder coll_type = bcast_tree" "coll_type \<noteq> coll_bcast \<longleftrightarrow> coll_type = coll_broadcast"
    using assms(5) by (auto simp: tree_coll_def tree_builder_def)
  obtain es where es: "\<forall>r < n. ccl_coll_build_double_tree_op coll_type send_buf buf num ds (dtree_for_root rt n r) r pc nb = Inr (es r)"
      "\<forall>r m. after_first f (es r) m = (if coll_type \<noteq> coll_bcast \<and> send_buf \<noteq> buf then do_regular_copy m send_buf buf num ds else m)"
      "\<forall>op_id < 2 * ?p. coll_correct T f (coll_start T n (\<lambda>r. sub_ops (es r) op_id) (\<lambda>r. after_first f (es r) (M r)))
        (\<lambda>M'. \<forall>r. M' r = (if r < n \<and> r \<noteq> rt then write_cells (after_first f (es r) (M r)) (?l op_id) ds
            (read_cells (after_first f (es rt) (M rt)) (?l op_id) (?c op_id) ds) else after_first f (es r) (M r)))"
    by (rule double_tree_lift [OF c(1) assms(2,4), where recv_buf = buf and ds = ds and num = num and nb = nb and send_buf = send_buf and M = M and f = f and T = T and
        Q = "\<lambda>op_id M1 M'. \<forall>r. M' r = (if r < n \<and> r \<noteq> rt then write_cells (M1 r) (?l op_id) ds (read_cells (M1 rt) (?l op_id) (?c op_id) ds) else M1 r)"])
      (use tree_bcast_correct [OF assms(1) _ assms(3)] c(2) in auto)
  have "coll_correct T f (coll_start T n (\<lambda>r. sub_ops (es r) op_id) (\<lambda>r. after_first f (es r) (M r)))
      (\<lambda>M'. \<forall>r < n. read_cells (M' r) (?l op_id) (?c op_id) ds =
           read_cells (M rt) (fst (part_rng (if coll_type = coll_bcast then buf else send_buf) num ds ?p op_id)) (?c op_id) ds \<and>
         (\<forall>a. \<not> in_rng (part_rng buf num ds ?p op_id) a \<longrightarrow> M' r a = after_first f (es r) (M r) a))" if op: "op_id < 2 * ?p" for op_id
  proof (rule coll_correct_weaken [OF es(3) [rule_format, OF op]], intro allI impI)
    fix M' r
    let ?M = "\<lambda>r. after_first f (es r) (M r)"
    let ?X = "read_cells (?M rt) (?l op_id) (?c op_id) ds"
    assume M': "\<forall>r. M' r = (if r < n \<and> r \<noteq> rt then write_cells (?M r) (?l op_id) ds ?X else ?M r)" and r: "r < n"
    have src: "?X = read_cells (M rt) (fst (part_rng (if coll_type = coll_bcast then buf else send_buf) num ds ?p op_id)) (?c op_id) ds"
      using part_after_copy [OF assms(3,4) op, of "coll_type \<noteq> coll_bcast" send_buf buf "M rt" num]
      unfolding es(2) [rule_format] by (cases "coll_type = coll_bcast") simp_all
    have "write_cells (?M r) (?l op_id) ds ?X a = ?M r a" if "\<not> in_rng (part_rng buf num ds ?p op_id) a" for a
      using that assms(3) by (intro write_cells_outside [where cnt = "?c op_id"]) (simp_all add: part_rng_eq)
    then show "read_cells (M' r) (?l op_id) (?c op_id) ds =
          read_cells (M rt) (fst (part_rng (if coll_type = coll_bcast then buf else send_buf) num ds ?p op_id)) (?c op_id) ds \<and>
        (\<forall>a. \<not> in_rng (part_rng buf num ds ?p op_id) a \<longrightarrow> M' r a = ?M r a)"
      using M' [rule_format, of r] r assms(3) src by (cases "r = rt") auto
  qed
  then show ?thesis using es(1) op_parts_unique [of ?p] assms(4) by (intro exI [of _ es]) (auto simp: good_parts_def)
qed

text \<open>
  C13: The double tree reduction reduces. For every associative and commutative reduction, each sub-schedule finishes in every interleaving of the
  ranks, and the root then holds, in the partition of the sub-schedule, the element-wise reduction of what the ranks had in
  their send buffers. Outside the partition and the buffers that the schedules allocate, nothing changes.
\<close>

theorem double_tree_reduce_correct:
  assumes "fifo_transport T" and "rt < n" and "0 < ds" and "good_parts pc" and "abel_semigroup f" and "fst recv_buf < nb"
  shows "\<exists>es. (\<forall>r < n. ccl_coll_build_double_tree_op coll_reduce send_buf recv_buf num ds (dtree_for_root rt n r) r pc nb = Inr (es r)) \<and>
    (\<forall>op_id < 2 * dtree_parts pc.
       coll_correct T f (coll_start T n (\<lambda>r. sub_ops (es r) op_id) (\<lambda>r. after_first f (es r) (M r)))
         (\<lambda>M'. read_cells (M' rt) (fst (part_rng recv_buf num ds (dtree_parts pc) op_id)) (op_cnt num (dtree_parts pc) op_id) ds =
              red_elems f (op_cnt num (dtree_parts pc) op_id)
                (\<lambda>r. read_cells (M r) (fst (part_rng send_buf num ds (dtree_parts pc) op_id)) (op_cnt num (dtree_parts pc) op_id) ds) [0..<n] \<and>
            (\<forall>r a. fst a < nb \<and> \<not> in_rng (part_rng recv_buf num ds (dtree_parts pc) op_id) a \<longrightarrow> M' r a = after_first f (es r) (M r) a)))"
proof -
  let ?p = "dtree_parts pc"
  let ?l = "\<lambda>op_id. fst (part_rng recv_buf num ds ?p op_id)" and ?c = "op_cnt num ?p"
  let ?Q = "\<lambda>op_id X M1 M'. read_cells (M' rt) (?l op_id) (?c op_id) ds = red_elems f (?c op_id) X [0..<n] \<and>
      (\<forall>r a. fst a < nb \<and> \<not> in_rng (part_rng recv_buf num ds ?p op_id) a \<longrightarrow> M' r a = M1 r a)"
  have c: "tree_coll coll_reduce" "tree_builder coll_reduce = reduce_tree" by (simp_all add: tree_coll_def tree_builder_def)
  obtain es where es: "\<forall>r < n. ccl_coll_build_double_tree_op coll_reduce send_buf recv_buf num ds (dtree_for_root rt n r) r pc nb = Inr (es r)"
      "\<forall>r m. after_first f (es r) m = (if coll_reduce \<noteq> coll_bcast \<and> send_buf \<noteq> recv_buf then do_regular_copy m send_buf recv_buf num ds else m)"
      "\<forall>op_id < 2 * ?p. coll_correct T f (coll_start T n (\<lambda>r. sub_ops (es r) op_id) (\<lambda>r. after_first f (es r) (M r)))
        (?Q op_id (\<lambda>r. read_cells (after_first f (es r) (M r)) (?l op_id) (?c op_id) ds) (\<lambda>r. after_first f (es r) (M r)))"
  proof (rule double_tree_lift [OF c(1) assms(2,4), where recv_buf = recv_buf and ds = ds and num = num and nb = nb and send_buf = send_buf and M = M and f = f and T = T and
        Q = "\<lambda>op_id M1. ?Q op_id (\<lambda>r. read_cells (M1 r) (?l op_id) (?c op_id) ds) M1"], goal_cases)
    case (1 op_id node d M1)
    show ?case unfolding c(2)
      by (rule coll_correct_weaken [OF tree_reduce_correct [OF assms(1) 1(3) assms(3,5) part_start_buf [OF assms(6)]]])
        (unfold part_rng_eq, use trans_less_add1 in blast)
  qed
  have "read_cells (after_first f (es r) (M r)) (?l op_id) (?c op_id) ds =
      read_cells (M r) (fst (part_rng send_buf num ds ?p op_id)) (?c op_id) ds" if op: "op_id < 2 * ?p" for op_id r
    using part_after_copy [OF assms(3,4) op, of True send_buf recv_buf "M r" num] unfolding es(2) [rule_format] by simp
  then show ?thesis using es(1,3) by (intro exI [of _ es]) simp
qed


text \<open>
  C7: The double tree allreduce reduces. For every associative and commutative reduction, each sub-schedule finishes in every interleaving of the
  ranks, and all ranks then hold, in the partition of the sub-schedule, the element-wise reduction of the send buffers, although a
  rank sends its partial result and receives the final one in the same buffer without a barrier in between.
\<close>

theorem double_tree_allreduce_correct:
  assumes "fifo_transport T" and "0 < n" and "0 < ds" and "good_parts pc" and "abel_semigroup f" and "fst recv_buf < nb"
  shows "\<exists>es. (\<forall>r < n. ccl_coll_build_double_tree_op coll_allreduce send_buf recv_buf num ds (dtree_for_root 0 n r) r pc nb = Inr (es r)) \<and>
    (\<forall>op_id < 2 * dtree_parts pc.
       coll_correct T f (coll_start T n (\<lambda>r. sub_ops (es r) op_id) (\<lambda>r. after_first f (es r) (M r)))
         (\<lambda>M'. (\<forall>r < n. read_cells (M' r) (fst (part_rng recv_buf num ds (dtree_parts pc) op_id)) (op_cnt num (dtree_parts pc) op_id) ds =
              red_elems f (op_cnt num (dtree_parts pc) op_id)
                (\<lambda>r. read_cells (M r) (fst (part_rng send_buf num ds (dtree_parts pc) op_id)) (op_cnt num (dtree_parts pc) op_id) ds) [0..<n]) \<and>
            (\<forall>r a. fst a < nb \<and> \<not> in_rng (part_rng recv_buf num ds (dtree_parts pc) op_id) a \<longrightarrow> M' r a = after_first f (es r) (M r) a)))"
proof -
  let ?p = "dtree_parts pc"
  let ?l = "\<lambda>op_id. fst (part_rng recv_buf num ds ?p op_id)" and ?c = "op_cnt num ?p"
  let ?Q = "\<lambda>op_id X M1 M'. (\<forall>r < n. read_cells (M' r) (?l op_id) (?c op_id) ds = red_elems f (?c op_id) X [0..<n]) \<and>
      (\<forall>r a. fst a < nb \<and> \<not> in_rng (part_rng recv_buf num ds ?p op_id) a \<longrightarrow> M' r a = M1 r a)"
  have c: "tree_coll coll_allreduce" "tree_builder coll_allreduce = reduce_bcast_tree" by (simp_all add: tree_coll_def tree_builder_def)
  obtain es where es: "\<forall>r < n. ccl_coll_build_double_tree_op coll_allreduce send_buf recv_buf num ds (dtree_for_root 0 n r) r pc nb = Inr (es r)"
      "\<forall>r m. after_first f (es r) m = (if coll_allreduce \<noteq> coll_bcast \<and> send_buf \<noteq> recv_buf then do_regular_copy m send_buf recv_buf num ds else m)"
      "\<forall>op_id < 2 * ?p. coll_correct T f (coll_start T n (\<lambda>r. sub_ops (es r) op_id) (\<lambda>r. after_first f (es r) (M r)))
        (?Q op_id (\<lambda>r. read_cells (after_first f (es r) (M r)) (?l op_id) (?c op_id) ds) (\<lambda>r. after_first f (es r) (M r)))"
  proof (rule double_tree_lift [OF c(1) assms(2,4), where recv_buf = recv_buf and ds = ds and num = num and nb = nb and send_buf = send_buf and M = M and f = f and T = T and
        Q = "\<lambda>op_id M1. ?Q op_id (\<lambda>r. read_cells (M1 r) (?l op_id) (?c op_id) ds) M1"], goal_cases)
    case (1 op_id node d M1)
    show ?case unfolding c(2)
      by (rule coll_correct_weaken [OF tree_allreduce_correct [OF assms(1) 1(3) assms(3,5) part_start_buf [OF assms(6)]]])
        (unfold part_rng_eq, use trans_less_add1 in blast)
  qed
  have "read_cells (after_first f (es r) (M r)) (?l op_id) (?c op_id) ds =
      read_cells (M r) (fst (part_rng send_buf num ds ?p op_id)) (?c op_id) ds" if op: "op_id < 2 * ?p" for op_id r
    using part_after_copy [OF assms(3,4) op, of True send_buf recv_buf "M r" num] unfolding es(2) [rule_format] by simp
  then show ?thesis using es(1,3) by (intro exI [of _ es]) simp
qed

section \<open>Instances\<close>

lemma one_part [simp]: "dtree_parts (- 1) = 1"
  by (simp add: dtree_parts_def)

lemma one_part_good: "good_parts (- 1)"
  by (simp add: good_parts_def)

lemma five_in_two: "part_rng (b, 0) 5 4 (dtree_parts (- 1)) 1 = ((b, 8), 12)" "op_cnt 5 (dtree_parts (- 1)) 1 = 3"
  by (simp_all add: part_rng_def op_off_def op_cnt_def part_cnt_def loc_add_def)

lemma sum_of_ranks: "red_elems (+) 3 (\<lambda>r. read_cells (\<lambda>a. word_of_nat r :: 32 word) l 3 4) [0..<3] = [3, 3, 3]"
  by (simp add: red_elems_def red_def read_cells_def upt_conv_Cons)

theorem double_tree_bcast_correct_witness:
  "\<exists>es. ccl_coll_build_double_tree_op coll_broadcast (1, 0) (2, 0) 5 4 (dtree_for_root 2 3 0) 0 (- 1) 3 = Inr (es 0) \<and>
     coll_correct queue_transport (+) (coll_start queue_transport 3 (\<lambda>r. sub_ops (es r) 1) (\<lambda>r. after_first (+) (es r) (\<lambda>a. r)))
       (\<lambda>M'. read_cells (M' 0) (2, 8) 3 4 = [2, 2, 2])"
proof (rule exE [OF double_tree_bcast_correct
      [OF queues.fifo_transport_axioms _ _ one_part_good disjI2 [OF refl], of 2 3 4 "(1, 0)" "(2, 0)" 5 3 "(+)" "\<lambda>r a. r"]], goal_cases)
  case (3 es)
  have m: "read_cells (\<lambda>a. 2 :: nat) l 3 4 = [2, 2, 2]" for l by (simp add: read_cells_def upt_conv_Cons)
  have "coll_correct queue_transport (+) (coll_start queue_transport 3 (\<lambda>r. sub_ops (es r) 1) (\<lambda>r. after_first (+) (es r) (\<lambda>a. r)))
      (\<lambda>M'. read_cells (M' 0) (2, 8) 3 4 = [2, 2, 2])"
    by (rule coll_correct_weaken [OF 3 [THEN conjunct2, THEN conjunct1, rule_format, of 1]])
      (simp_all only: five_in_two, simp_all add: m)
  then show ?case using 3 [THEN conjunct1, rule_format, of 0] by auto
qed simp_all

theorem double_tree_reduce_correct_witness:
  "\<exists>es. ccl_coll_build_double_tree_op coll_reduce (1, 0) (2, 0) 5 4 (dtree_for_root 2 3 0) 0 (- 1) 3 = Inr (es 0) \<and>
     coll_correct queue_transport (+) (coll_start queue_transport 3 (\<lambda>r. sub_ops (es r) 1) (\<lambda>r. after_first (+) (es r) (\<lambda>a. word_of_nat r)))
       (\<lambda>M'. read_cells (M' 2) (2, 8) 3 4 = [3, 3, 3 :: 32 word])"
proof (rule exE [OF double_tree_reduce_correct
      [OF queues.fifo_transport_axioms _ _ one_part_good word_add_abel, of 2 3 4 "(2, 0)" 3 "(1, 0)" 5 "\<lambda>r a. word_of_nat r :: 32 word"]], goal_cases)
  case (4 es)
  have "coll_correct queue_transport (+) (coll_start queue_transport 3 (\<lambda>r. sub_ops (es r) 1) (\<lambda>r. after_first (+) (es r) (\<lambda>a. word_of_nat r)))
      (\<lambda>M'. read_cells (M' 2) (2, 8) 3 4 = [3, 3, 3 :: 32 word])"
    by (rule coll_correct_weaken [OF 4 [THEN conjunct2, rule_format, of 1]])
      (simp_all only: five_in_two, simp_all add: sum_of_ranks)
  then show ?case using 4 [THEN conjunct1, rule_format, of 0] by auto
qed simp_all

theorem double_tree_allreduce_correct_witness:
  "\<exists>es. ccl_coll_build_double_tree_op coll_allreduce (1, 0) (2, 0) 5 4 (dtree_for_root 0 3 1) 1 (- 1) 3 = Inr (es 1) \<and>
     coll_correct queue_transport (+) (coll_start queue_transport 3 (\<lambda>r. sub_ops (es r) 1) (\<lambda>r. after_first (+) (es r) (\<lambda>a. word_of_nat r)))
       (\<lambda>M'. read_cells (M' 1) (2, 8) 3 4 = [3, 3, 3 :: 32 word])"
proof (rule exE [OF double_tree_allreduce_correct
      [OF queues.fifo_transport_axioms _ _ one_part_good word_add_abel, of 3 4 "(2, 0)" 3 "(1, 0)" 5 "\<lambda>r a. word_of_nat r :: 32 word"]], goal_cases)
  case (4 es)
  have "coll_correct queue_transport (+) (coll_start queue_transport 3 (\<lambda>r. sub_ops (es r) 1) (\<lambda>r. after_first (+) (es r) (\<lambda>a. word_of_nat r)))
      (\<lambda>M'. read_cells (M' 1) (2, 8) 3 4 = [3, 3, 3 :: 32 word])"
    by (rule coll_correct_weaken [OF 4 [THEN conjunct2, rule_format, of 1]])
      (simp_all only: five_in_two, simp_all add: sum_of_ranks)
  then show ?case using 4 [THEN conjunct1, rule_format, of 1] by auto
qed simp_all


end
