(* ===== verification/Spec2Isabelle.thy ===== *)
theory Spec2Isabelle
  imports SchedProgress SchedRestart Worker SchedCache AtlTag CommId SelectionParse CollBarrier CollBcast CollAllgatherv CollAllreduceRing CollAllreduceRD CollDoubleTree
begin

text \<open>
  A verification development for oneCCL, the collective communications library under \<^verbatim>\<open>src/\<close>. It models the host build: the one in
  which neither \<^verbatim>\<open>CCL_ENABLE_SYCL\<close> nor \<^verbatim>\<open>CCL_ENABLE_ZE\<close> is defined.

  \<^bold>\<open>The program.\<close> A call of a collective operation is checked, turned into parameters, and looked up in a cache of
  schedules. A schedule is a list of entries, some of them barriers, that an algorithm builds for the rank it runs on; the
  algorithm is chosen by a table over message sizes. Schedules wait in queues by priority, and worker threads advance
  them: entries are started in order under flow control, send and receive messages through a transport, copy and
  reduce memory, and complete. A request tells the user when the schedule is finished. A cached schedule that is in use
  is started again when it has finished.

  \<^bold>\<open>Conventions.\<close> \<open>Prelude\<close> has the result type: \<^verbatim>\<open>CCL_THROW\<close> and \<^verbatim>\<open>CCL_FATAL\<close> are \<open>Inl\<close> values, and so is
  behaviour that C++ leaves undefined. Assertions (\<^verbatim>\<open>CCL_ASSERT\<close>) have no effect in the release build, which is the one modelled. A \<^verbatim>\<open>size_t\<close> is a 64 bit word where its
  overflow matters, or a natural number or integer with the wrap-around written out. State is a record that
  operations return updated; concurrent parts are step relations. Third-party code is a parameter: the transport with the
  contract \<open>fifo_transport\<close>, the start and update functions of the entries of a schedule, the reduction, which the algorithms
  need associative and commutative, and the hash functions and the gathering of ids, each with what the code relies on.

  \<^bold>\<open>Schedules.\<close>
  \<^item> \<open>FlowControl\<close>: the credits of \<^verbatim>\<open>sched/queue/flow_control.cpp\<close>, with the locale \<open>credit_pool\<close> for what their users need.
  \<^item> \<open>SchedEntry\<close>: the life cycle of an entry, \<^verbatim>\<open>sched/entry/entry.cpp\<close>.
  \<^item> \<open>Sched\<close>, \<open>SchedProgress\<close>: adding entries and barriers, \<^verbatim>\<open>renew\<close> and \<^verbatim>\<open>do_progress\<close> of \<^verbatim>\<open>sched/sched.cpp\<close>. No entry behind a
    barrier starts before all entries up to it are complete, entries start in order when there is a credit for each, the
    credits that are out are those of the active entries, and a schedule whose entries respond finishes after a bounded number of
    calls.
  \<^item> \<open>SchedQueue\<close>: the bins of \<^verbatim>\<open>sched/queue/queue.cpp\<close>, with the critical sections of its locks as steps; the locale \<open>priority_bins\<close>
    states that the worker sees a schedule of the greatest priority.
  \<^item> \<open>SchedRestart\<close>: requests (\<^verbatim>\<open>common/request/request.cpp\<close>), start and completion of schedules, and the restart
    manager (\<^verbatim>\<open>sched/sched_restart_manager.cpp\<close>) as a transition system over threads: calls on a cached schedule run one after the
    other in the order they were made, each with its own parameters.
  \<^item> \<open>Worker\<close>: \<^verbatim>\<open>exec/thread/worker.cpp\<close> and \<^verbatim>\<open>sched/queue/strict_queue.cpp\<close>.
  \<^item> \<open>SchedCache\<close>: keys and table of \<^verbatim>\<open>sched/cache\<close>; the table is a map from operations to schedules.

  \<^bold>\<open>Calls.\<close>
  \<^item> \<open>Datatype\<close>, \<open>CollParam\<close>: datatypes (\<^verbatim>\<open>common/datatype\<close>), user-defined reductions (\<^verbatim>\<open>coll/reduction\<close>), the parameters of a call
    and their checks (\<^verbatim>\<open>coll/coll_param.cpp\<close>, \<^verbatim>\<open>coll/coll_check.cpp\<close>).
  \<^item> \<open>Selection\<close>, \<open>SelectionInsert\<close>, \<open>SelectionParse\<close>: the tables of \<^verbatim>\<open>coll/selection/selector_impl.hpp\<close>, insertion of a range, parsing of
    the configuration, and the choice of an algorithm. A table is the sorted list of its entries; the proofs
    read it as a list of ranges that covers all sizes.
  \<^item> \<open>AtlTag\<close>, \<open>CommId\<close>, \<open>Utils\<close>: message tags and schedule ids (\<^verbatim>\<open>comm/atl_tag.cpp\<close>, \<^verbatim>\<open>comm/comm.cpp\<close>), ids of communicators
    (\<^verbatim>\<open>atl/atl_base_comm.cpp\<close>), powers of two (\<^verbatim>\<open>common/utils/utils.cpp\<close>).

  \<^bold>\<open>Collective algorithms.\<close> \<open>CollExec\<close> has the effect of each kind of entry on the memory of its rank, the operations that
  builders call on a schedule (\<^verbatim>\<open>entry_factory::create\<close>, \<^verbatim>\<open>add_barrier\<close>, \<^verbatim>\<open>alloc_buffer\<close>), and the steps of a set of ranks
  that run their entries over a transport: any enabled entry of any rank may complete next. \<open>Confluence\<close> shows that
  where concurrent steps commute, one run to the end decides all runs; \<open>CollRounds\<close> gives one such run by rounds of
  matching messages. The correctness of an algorithm, \<open>coll_correct\<close>, says that no interleaving gets stuck and that each
  one that ends leaves the right memory and no message. \<open>CollBuild\<close>, \<open>CollOrder\<close>, \<open>CollRing\<close>, \<open>CollSeq\<close>, \<open>CollRedRing\<close>
  and \<open>Reduction\<close> have what the algorithms share.
  \<^item> \<open>CollBarrier\<close>: the dissemination barrier, \<^verbatim>\<open>coll/algorithms/barrier\<close>.
  \<^item> \<open>CollBcast\<close>: naive broadcast, and scatter with ring allgather, whose byte counts are 32 bit integers.
  \<^item> \<open>CollAllgatherv\<close>: naive and ring allgatherv.
  \<^item> \<open>CollReduceScatter\<close>: naive and ring reduce-scatter and the block of the chunked ring.
  \<^item> \<open>CollAllreduceRing\<close>, \<open>CollAllreduceRD\<close>: ring and recursive doubling allreduce.
  \<^item> \<open>BinTree\<close>, \<open>CollTree\<close>, \<open>CollExchange\<close>, \<open>CollTreeAllreduce\<close>, \<open>CollDoubleTree\<close>: the trees of \<^verbatim>\<open>common/utils/tree.hpp\<close> and the double tree
    broadcast, reduce and allreduce. The trees span the ranks; every sub-schedule is correct on all ranks and
    the partitions divide the buffer. In the allreduce a rank sends and receives in one buffer with no barrier in between;
    \<open>CollExchange\<close> reduces this to the race free case because the parent answers only after it has received.

  \<^bold>\<open>Bounds.\<close> There is no fuel: loops are functions with termination proofs. The number of ranks is arbitrary, except that the
  arithmetic of the trees is that of the code below \<open>2 ^ 30\<close> ranks, and that the scatter and ring broadcast needs a byte count that
  fits a 32 bit integer with the number of ranks added; beyond, its failure is shown. The double tree algorithms
  need at most 128 partitions for their 8 bit operation ids to differ; the sub-schedules are
  shown correct one by one, since the tags keep their messages apart.

  \<^bold>\<open>What modelling showed.\<close> The ranges of internal and ordinary schedule ids are swapped between the constructor and the wrap-around, so that
  internal ids run into the reserved ones; the check of a cached schedule fails only if all four things it compares differ; the
  scatter and ring broadcast truncates its byte count to 32 bits; inserting a range into a selection table can lose the next
  single size, or erase an iterator twice; the check of a root has no lower bound; the double tree reduce and broadcast use on every rank
  a buffer that the interface says is used by the root only.

  \<^bold>\<open>Not modelled.\<close> The device code (SYCL, Level Zero kernels, topology-aware algorithms and schedule groups) is not part of the
  host build and its meaning is that of the device run-times. Transports, process management, the key-value store, wrappers of
  shared libraries, the hardware topology, the executor's creation of threads and the other back ends are calls into third-party libraries and the operating
  system. The API layer, attributes, group calls, environment and logging convert and forward; communicators and
  global data enter as the ranks, sizes, ids and settings that the modelled parts read. The reduction kernels are vector intrinsics on element
  types; they enter as the reduction. Fusion and unordered collectives depend on clocks and on
  schedules handed between threads; the parallelizer joins schedules of the modelled algorithms. The remaining
  algorithms (binomial and Rabenseifner reduce, all-to-all, point-to-point, one-sided and multi-level ones), the buffer cache and
  the entries only they use are not translated.
\<close>

end
